(* ===== verification/Prelude.thy ===== *)
theory Prelude
  imports Main "HOL-Library.Word"
begin

text \<open>
  Shared material of the development: names for the C integer types, the
  result type of code that may terminate the tracer, and generic facts on
  lists and words that the component theories use.
\<close>

unbundle bit_operations_syntax

section \<open>C types\<close>

type_synonym u8 = "8 word"
type_synonym u16 = "16 word"
type_synonym u32 = "32 word"
type_synonym u64 = "64 word"

section \<open>Results\<close>

text \<open>
  \<^verbatim>\<open>error_msg_and_die\<close> and \<^verbatim>\<open>error_msg_and_help\<close> do not return: a function that may
  call them has the result type \<open>die + 'a\<close>, with the formatted message.
\<close>

datatype die =
    Die string      \<comment> \<open>\<^verbatim>\<open>error_msg_and_die\<close>\<close>
  | Help string     \<comment> \<open>\<^verbatim>\<open>error_msg_and_help\<close>\<close>

definition rbind :: "'e + 'a \<Rightarrow> ('a \<Rightarrow> 'e + 'b) \<Rightarrow> 'e + 'b" where
  "rbind r f = (case r of Inl e \<Rightarrow> Inl e | Inr x \<Rightarrow> f x)"

lemma rbind_simps [simp]:
  "rbind (Inl e) f = Inl e"
  "rbind (Inr x) f = f x"
  by (simp_all add: rbind_def)

lemma rbind_Inr_iff:
  "rbind r f = Inr y \<longleftrightarrow> (\<exists>x. r = Inr x \<and> f x = Inr y)"
  by (cases r) auto

lemma rbind_Inl_iff:
  "rbind r f = Inl e \<longleftrightarrow> r = Inl e \<or> (\<exists>x. r = Inr x \<and> f x = Inl e)"
  by (cases r) auto

text \<open>What every result satisfies, if there is one.\<close>

definition all_ok :: "('a \<Rightarrow> bool) \<Rightarrow> 'e + 'a \<Rightarrow> bool" where
  "all_ok P r \<longleftrightarrow> (case r of Inl e \<Rightarrow> True | Inr x \<Rightarrow> P x)"

lemma all_ok_simps [simp]: "all_ok P (Inl e)" "all_ok P (Inr x) \<longleftrightarrow> P x"
  by (simp_all add: all_ok_def)

lemma all_okD: "all_ok P r \<Longrightarrow> r = Inr x \<Longrightarrow> P x"
  by simp

lemma all_ok_mono: "all_ok P r \<Longrightarrow> (\<And>x. P x \<Longrightarrow> Q x) \<Longrightarrow> all_ok Q r"
  by (cases r) simp_all

lemma all_ok_rbind: "all_ok P r \<Longrightarrow> (\<And>x. P x \<Longrightarrow> all_ok Q (f x)) \<Longrightarrow> all_ok Q (rbind r f)"
  by (cases r) simp_all

section \<open>Automation\<close>

named_theorems ns_simps \<open>bits and sign of a number set after each operation\<close>

section \<open>Words and bits\<close>

lemma bit_or_exp:
  "j < LENGTH('a) \<Longrightarrow> bit (w OR 2 ^ j :: 'a::len word) k \<longleftrightarrow> bit w k \<or> k = j"
  by (auto simp: bit_simps)

lemma and_exp_neq_0: "(w AND 2 ^ j :: 'a::len word) \<noteq> 0 \<longleftrightarrow> bit w j"
  by (simp add: and_exp_eq_0_iff_not_bit)

lemma or_and_eq_0: "(w OR g) AND f = 0 \<longleftrightarrow> w AND f = 0 \<and> g AND f = (0 :: 'a::len word)"
  by (simp add: word_ao_dist or_eq_0_iff)

lemma bit_nat_less: "\<lbrakk>(n :: nat) < 2 ^ b; bit n k\<rbrakk> \<Longrightarrow> k < b"
  by (metis bit_take_bit_iff take_bit_nat_eq_self)

lemma unat_push_bit_1: "b < LENGTH('a) \<Longrightarrow> unat (push_bit b 1 :: 'a::len word) = 2 ^ b"
proof -
  assume "b < LENGTH('a)"
  then have "unat (word_of_nat (2 ^ b) :: 'a word) = 2 ^ b"
    unfolding unat_of_nat by (simp add: take_bit_nat_eq_self)
  then show ?thesis by (simp add: push_bit_eq_mult)
qed

lemma unat_less_256: "unat (b :: u8) < 256"
  using unsigned_less [of b] by simp

lemma div_mod_eq_iff: "(n div 32 = m div 32 \<and> n mod 32 = m mod 32) \<longleftrightarrow> n = (m::nat)"
  by (metis div_mult_mod_eq)

lemma clear_lowest_bit_nat:
  "0 < n \<Longrightarrow> \<exists>j. bit n j \<and> (\<forall>k. bit (n AND (n - 1)) k \<longleftrightarrow> bit n k \<and> k \<noteq> j)" for n :: nat
proof (induction n rule: less_induct)
  case (less n)
  show ?case
  proof (cases "odd n")
    case True
    then have "bit (n - 1) k \<longleftrightarrow> bit n k \<and> k \<noteq> 0" for k
      by (cases k) (auto simp: bit_0 bit_Suc elim!: oddE)
    with True show ?thesis by (intro exI [of _ 0]) (auto simp: bit_0 bit_and_iff)
  next
    case False
    then obtain m where m: "n = 2 * m" "0 < m" using less.prems by (auto elim!: evenE)
    obtain j where j: "bit m j" "\<And>k. bit (m AND (m - 1)) k \<longleftrightarrow> bit m k \<and> k \<noteq> j"
      using less.IH [of m] m by auto
    have pred: "n - 1 = 2 * (m - 1) + 1" using m by simp
    have "bit (n - 1) (Suc k) \<longleftrightarrow> bit (m - 1) k" for k
      unfolding pred by (simp add: bit_Suc)
    moreover have "bit n (Suc k) \<longleftrightarrow> bit m k" "\<not> bit n 0" for k
      using m by (simp_all add: bit_Suc bit_0)
    ultimately have "bit (n AND (n - 1)) k \<longleftrightarrow> bit n k \<and> k \<noteq> Suc j" for k
      using j(2) [of "k - 1"] unfolding bit_and_iff by (cases k) auto
    with m j(1) show ?thesis by (intro exI [of _ "Suc j"]) (auto simp: bit_Suc)
  qed
qed

lemma clear_lowest_bit:
  fixes x :: "'a::len word"
  assumes "x \<noteq> 0"
  shows "\<exists>j. bit x j \<and> {k. bit (x AND (x - 1)) k} = {k. bit x k} - {j}"
proof -
  have "bit (x AND (x - 1)) k \<longleftrightarrow> bit (unat x AND (unat x - 1)) k" for k
    unfolding unat_minus_one [OF assms, symmetric] by (simp add: bit_and_iff bit_unsigned_iff)
  moreover obtain j where "bit (unat x) j"
    "\<And>k. bit (unat x AND (unat x - 1)) k \<longleftrightarrow> bit (unat x) k \<and> k \<noteq> j"
    using clear_lowest_bit_nat [of "unat x"] assms by (auto simp: unat_gt_0)
  ultimately show ?thesis by (auto simp: bit_unsigned_iff intro!: exI [of _ j])
qed

lemma finite_bits: "finite {k. bit (x :: 'a::len word) k}"
  by (rule finite_subset [of _ "{..<LENGTH('a)}"]) (auto dest: bit_imp_le_length)

lemma unat_mask:
  assumes "n < 64" shows "unat (mask n :: u64) = 2 ^ n - 1"
proof -
  have "(2 :: nat) ^ n \<le> 2 ^ 63" using assms by (intro power_increasing) simp_all
  moreover have "unat (of_nat m :: u64) = m" if "m < 2 ^ 64" for m using that by (simp add: unat_of_nat)
  from this [of "2 ^ n - 1"] calculation show ?thesis by (simp only: mask_eq_exp_minus_1) (simp add: of_nat_diff)
qed

text \<open>The first index in a range with a property.\<close>

lemma find_upt_Some:
  "find P [a..<b] = Some i \<longleftrightarrow> a \<le> i \<and> i < b \<and> P i \<and> (\<forall>j. a \<le> j \<and> j < i \<longrightarrow> \<not> P j)"
proof -
  have "find P [a..<b] = Some i \<longleftrightarrow>
      (\<exists>k < b - a. P (a + k) \<and> i = a + k \<and> (\<forall>j < k. \<not> P (a + j)))"
    unfolding find_Some_iff by (rule ex_cong1) (auto simp: nth_upt)
  also have "\<dots> \<longleftrightarrow> a \<le> i \<and> i < b \<and> P i \<and> (\<forall>j < i - a. \<not> P (a + j))"
    by (auto intro: exI [of _ "i - a"])
  also have "(\<forall>j < i - a. \<not> P (a + j)) \<longleftrightarrow> (\<forall>j. a \<le> j \<and> j < i \<longrightarrow> \<not> P j)"
    by (metis add.commute le_add1 le_add_diff_inverse less_diff_conv)
  finally show ?thesis .
qed

lemma find_upt_None: "find P [a..<b] = None \<longleftrightarrow> (\<forall>i. a \<le> i \<and> i < b \<longrightarrow> \<not> P i)"
  by (auto simp: find_None_iff)

end
