(* ===== verification/Number_Set.thy ===== *)
theory Number_Set
  imports Prelude
begin

text \<open>
  \<^verbatim>\<open>src/src/number_set.c\<close>: sets of unsigned numbers kept as a vector of 32-bit
  slots and an inversion flag, and arrays of such sets indexed by personality.
  An \<^verbatim>\<open>unsigned int\<close> element is a natural number; the C expressions on it
  (\<^verbatim>\<open>number / 32 + 1\<close>) do not wrap for values below \<open>2 ^ 32\<close>. A pointer to an array of
  sets that may be NULL is an \<open>option\<close>.
\<close>

section \<open>The structure and its operations\<close>

abbreviation (input) BITS_PER_SLOT :: nat where
  "BITS_PER_SLOT \<equiv> 32"

record number_set =
  vec :: "u32 list"
  nslots :: nat
  ns_not :: bool

type_synonym number_set_array = "number_set list"

definition number_setbit :: "nat \<Rightarrow> u32 list \<Rightarrow> u32 list" where
  "number_setbit i v =
     v[i div BITS_PER_SLOT := v ! (i div BITS_PER_SLOT) OR push_bit (i mod BITS_PER_SLOT) 1]"

definition number_isset :: "nat \<Rightarrow> u32 list \<Rightarrow> bool" where
  "number_isset i v \<longleftrightarrow>
     (v ! (i div BITS_PER_SLOT) AND push_bit (i mod BITS_PER_SLOT) 1) \<noteq> 0"

definition reallocate_number_set :: "number_set \<Rightarrow> nat \<Rightarrow> number_set" where
  "reallocate_number_set s new_nslots =
     (if new_nslots \<le> nslots s then s
      else s\<lparr>vec := vec s @ replicate (new_nslots - nslots s) 0, nslots := new_nslots\<rparr>)"

text \<open>
  \<^verbatim>\<open>popcount32\<close> of \<^verbatim>\<open>src/src/defs.h\<close>: the loop clears the lowest set bit of the
  slot until the slot is zero.
\<close>

function popcount_slot :: "u32 \<Rightarrow> nat \<Rightarrow> nat" where
  "popcount_slot x count =
     (if x = 0 then count else popcount_slot (x AND (x - 1)) (Suc count))"
  by pat_completeness auto
termination
proof (relation "measure (\<lambda>(x, count). unat x)", goal_cases)
  case (2 x count)
  have "x AND (x - 1) \<le> x - 1" by (rule word_and_le1)
  moreover have "x - 1 < x"
    using 2 by (simp add: word_less_nat_alt unat_minus_one word_gt_0 unat_gt_0)
  ultimately show ?case by (simp add: word_less_nat_alt word_le_nat_alt)
qed simp

declare popcount_slot.simps [simp del]

fun popcount32 :: "u32 list \<Rightarrow> nat" where
  "popcount32 [] = 0"
| "popcount32 (x # a) = popcount_slot x 0 + popcount32 a"

definition get_number_setbit :: "number_set \<Rightarrow> nat" where
  "get_number_setbit s = popcount32 (take (nslots s) (vec s))"

definition number_set_array_is_empty :: "number_set_array option \<Rightarrow> nat \<Rightarrow> bool" where
  "number_set_array_is_empty ns idx =
     (case ns of None \<Rightarrow> True
      | Some a \<Rightarrow> \<not> (nslots (a ! idx) \<noteq> 0 \<or> ns_not (a ! idx)))"

text \<open>The test both membership functions make on one set of the array.\<close>

definition ns_test :: "nat \<Rightarrow> number_set \<Rightarrow> bool" where
  "ns_test number s \<longleftrightarrow>
     (number div BITS_PER_SLOT < nslots s \<and> number_isset number (vec s)) \<noteq> ns_not s"

definition is_number_in_set :: "nat \<Rightarrow> number_set_array option \<Rightarrow> bool" where
  "is_number_in_set number ns =
     (case ns of None \<Rightarrow> False | Some a \<Rightarrow> ns_test number (a ! 0))"

definition is_number_in_set_array :: "nat \<Rightarrow> number_set_array option \<Rightarrow> nat \<Rightarrow> bool" where
  "is_number_in_set_array number ns idx =
     (case ns of None \<Rightarrow> False | Some a \<Rightarrow> ns_test number (a ! idx))"

definition is_complete_set :: "number_set option \<Rightarrow> nat \<Rightarrow> bool" where
  "is_complete_set ns max_numbers =
     (case ns of None \<Rightarrow> False
      | Some s \<Rightarrow> (ns_not s \<and> nslots s = 0) \<or> get_number_setbit s = max_numbers)"

definition is_complete_set_array :: "number_set_array \<Rightarrow> nat list \<Rightarrow> nat \<Rightarrow> bool" where
  "is_complete_set_array ns max_numbers nmemb =
     list_all (\<lambda>i. is_complete_set (Some (ns ! i)) (max_numbers ! i)) [0..<nmemb]"

definition add_number_to_set :: "nat \<Rightarrow> number_set \<Rightarrow> number_set" where
  "add_number_to_set number s =
     (let s' = reallocate_number_set s (number div BITS_PER_SLOT + 1)
      in s'\<lparr>vec := number_setbit number (vec s')\<rparr>)"

definition add_number_to_set_array ::
    "nat \<Rightarrow> number_set_array \<Rightarrow> nat \<Rightarrow> number_set_array" where
  "add_number_to_set_array number ns idx = ns[idx := add_number_to_set number (ns ! idx)]"

definition clear_number_set :: "number_set \<Rightarrow> number_set" where
  "clear_number_set s =
     s\<lparr>vec := (if nslots s \<noteq> 0
               then replicate (nslots s) 0 @ drop (nslots s) (vec s) else vec s),
       ns_not := False\<rparr>"

definition clear_number_set_array :: "number_set_array \<Rightarrow> nat \<Rightarrow> number_set_array" where
  "clear_number_set_array ns nmemb = map clear_number_set (take nmemb ns) @ drop nmemb ns"

definition invert_number_set :: "number_set \<Rightarrow> number_set" where
  "invert_number_set s = s\<lparr>ns_not := \<not> ns_not s\<rparr>"

definition invert_number_set_array :: "number_set_array \<Rightarrow> nat \<Rightarrow> number_set_array" where
  "invert_number_set_array ns nmemb = map invert_number_set (take nmemb ns) @ drop nmemb ns"

definition empty_number_set :: number_set where
  "empty_number_set = \<lparr>vec = [], nslots = 0, ns_not = False\<rparr>"

definition alloc_number_set_array :: "nat \<Rightarrow> number_set_array" where
  "alloc_number_set_array nmemb = replicate nmemb empty_number_set"

section \<open>Abstraction and invariant\<close>

text \<open>
  \<open>ns_bits\<close> is the set of numbers whose bit is set, \<open>ns_set\<close> the numbers the set
  holds, and \<open>ns_wf\<close> the structural invariant: \<^verbatim>\<open>nslots\<close> is the length of the vector.
\<close>

definition ns_wf :: "number_set \<Rightarrow> bool" where
  "ns_wf s \<longleftrightarrow> length (vec s) = nslots s"

definition ns_bits :: "number_set \<Rightarrow> nat set" where
  "ns_bits s = {n. n div 32 < nslots s \<and> bit (vec s ! (n div 32)) (n mod 32)}"

definition ns_set :: "number_set \<Rightarrow> nat set" where
  "ns_set s = {n. (n \<in> ns_bits s) \<noteq> ns_not s}"

definition vec_bits :: "u32 list \<Rightarrow> nat set" where
  "vec_bits v = {n. n div 32 < length v \<and> bit (v ! (n div 32)) (n mod 32)}"

lemma number_isset_bit: "number_isset n v \<longleftrightarrow> bit (v ! (n div 32)) (n mod 32)"
  by (simp add: number_isset_def and_exp_neq_0)

lemma ns_test_bits: "ns_test n s \<longleftrightarrow> (n \<in> ns_bits s) \<noteq> ns_not s"
  by (simp add: ns_test_def ns_bits_def number_isset_bit)

lemma ns_wf_realloc: "ns_wf s \<Longrightarrow> ns_wf (reallocate_number_set s k)"
  by (auto simp: ns_wf_def reallocate_number_set_def)

lemma ns_not_realloc [simp]: "ns_not (reallocate_number_set s k) = ns_not s"
  by (simp add: reallocate_number_set_def)

lemma nslots_realloc [simp]: "nslots (reallocate_number_set s k) = max k (nslots s)"
  by (simp add: reallocate_number_set_def)

lemma ns_bits_realloc:
  assumes "ns_wf s"
  shows "ns_bits (reallocate_number_set s k) = ns_bits s"
  using assms by (auto simp: ns_wf_def ns_bits_def reallocate_number_set_def nth_append
      split: if_splits)

lemma ns_wf_add [simp]: "ns_wf s \<Longrightarrow> ns_wf (add_number_to_set n s)"
  using ns_wf_realloc [of s "n div 32 + 1"]
  by (simp add: add_number_to_set_def Let_def ns_wf_def number_setbit_def)

lemma ns_not_add [simp]: "ns_not (add_number_to_set n s) = ns_not s"
  by (simp add: add_number_to_set_def Let_def)

lemma ns_bits_setbit:
  assumes "ns_wf s" "n div 32 < nslots s"
  shows "ns_bits (s\<lparr>vec := number_setbit n (vec s)\<rparr>) = insert n (ns_bits s)"
proof -
  have "m \<in> ns_bits (s\<lparr>vec := number_setbit n (vec s)\<rparr>) \<longleftrightarrow> m = n \<or> m \<in> ns_bits s" for m
    using assms div_mod_eq_iff [of m n]
    by (cases "m div 32 = n div 32")
      (auto simp: ns_bits_def number_setbit_def ns_wf_def bit_or_exp)
  then show ?thesis by auto
qed

lemma ns_bits_add [simp]:
  assumes "ns_wf s"
  shows "ns_bits (add_number_to_set n s) = insert n (ns_bits s)"
  using ns_bits_setbit [OF ns_wf_realloc [OF assms, of "n div 32 + 1"], of n]
  by (simp add: add_number_to_set_def Let_def ns_bits_realloc assms max_def)

lemma ns_wf_clear [simp]: "ns_wf s \<Longrightarrow> ns_wf (clear_number_set s)"
  by (simp add: ns_wf_def clear_number_set_def)

lemma ns_not_clear [simp]: "ns_not (clear_number_set s) = False"
  by (simp add: clear_number_set_def)

lemma ns_bits_clear [simp]: "ns_wf s \<Longrightarrow> ns_bits (clear_number_set s) = {}"
  by (auto simp: ns_wf_def ns_bits_def clear_number_set_def)

lemma ns_invert [simp]:
  "ns_wf (invert_number_set s) = ns_wf s"
  "ns_not (invert_number_set s) = (\<not> ns_not s)"
  "ns_bits (invert_number_set s) = ns_bits s"
  by (simp_all add: ns_wf_def invert_number_set_def ns_bits_def)

lemma ns_empty [simp]:
  "ns_wf empty_number_set" "ns_bits empty_number_set = {}" "\<not> ns_not empty_number_set"
  by (simp_all add: ns_wf_def empty_number_set_def ns_bits_def)

lemma finite_ns_bits: "finite (ns_bits s)"
proof (rule finite_subset)
  show "ns_bits s \<subseteq> {n. n < 32 * nslots s}"
    by (auto simp: ns_bits_def)
qed simp

section \<open>Counting\<close>

lemma popcount_slot_card: "popcount_slot x c = c + card {k. bit x k}"
proof (induction x c rule: popcount_slot.induct)
  case (1 x c)
  show ?case
  proof (cases "x = 0")
    case False
    obtain j where j: "bit x j" and rest: "{k. bit (x AND (x - 1)) k} = {k. bit x k} - {j}"
      using clear_lowest_bit [OF False] by metis
    have "card {k. bit x k} = Suc (card ({k. bit x k} - {j}))"
      using card.remove [OF finite_bits, of j x] j by simp
    with 1 [OF False] False show ?thesis
      by (simp add: popcount_slot.simps [of x c] rest)
  qed (simp add: popcount_slot.simps)
qed

lemma vec_bits_Cons: "vec_bits (x # v) = {k. bit x k} \<union> (\<lambda>n. n + 32) ` vec_bits v"
proof (rule set_eqI)
  fix n
  show "n \<in> vec_bits (x # v) \<longleftrightarrow> n \<in> {k. bit x k} \<union> (\<lambda>n. n + 32) ` vec_bits v"
  proof (cases "n < 32")
    case True
    then show ?thesis by (auto simp: vec_bits_def)
  next
    case False
    then obtain m where m: "n = m + 32" by (metis add.commute le_Suc_ex not_less)
    have "\<not> bit x n" using False by (auto dest: bit_imp_le_length)
    moreover have "n div 32 = Suc (m div 32)" "n mod 32 = m mod 32" using m by simp_all
    then have "n \<in> vec_bits (x # v) \<longleftrightarrow> m \<in> vec_bits v" by (simp add: vec_bits_def)
    moreover have "n \<in> (\<lambda>n. n + 32) ` vec_bits v \<longleftrightarrow> m \<in> vec_bits v" using m by auto
    ultimately show ?thesis by simp
  qed
qed

lemma finite_vec_bits: "finite (vec_bits v)"
  by (induction v) (simp_all add: vec_bits_Cons finite_bits, simp add: vec_bits_def)

lemma popcount32_card: "popcount32 v = card (vec_bits v)"
proof (induction v)
  case Nil
  show ?case by (simp add: vec_bits_def)
next
  case (Cons x v)
  have "{k. bit x k} \<inter> (\<lambda>n. n + 32) ` vec_bits v = {}"
    by (auto dest!: bit_imp_le_length)
  then show ?case
    by (simp add: vec_bits_Cons Cons.IH popcount_slot_card card_Un_disjoint finite_bits
        finite_vec_bits card_image)
qed

lemma get_number_setbit_card: "ns_wf s \<Longrightarrow> get_number_setbit s = card (ns_bits s)"
  by (simp add: get_number_setbit_def ns_wf_def popcount32_card vec_bits_def ns_bits_def)

section \<open>The interface\<close>

text \<open>
  What the users of number sets rely on: a set is a collection of explicitly
  added numbers and a sign. The lemmas of the locale are about the specification
  strings of \<^verbatim>\<open>-e\<close> options: clear, invert once per leading \<^verbatim>\<open>!\<close>, add each number.
\<close>

locale number_set_adt =
  fixes add :: "nat \<Rightarrow> 's \<Rightarrow> 's"
    and invert :: "'s \<Rightarrow> 's"
    and clear :: "'s \<Rightarrow> 's"
    and test :: "nat \<Rightarrow> 's \<Rightarrow> bool"
    and bits :: "'s \<Rightarrow> nat set"
    and neg :: "'s \<Rightarrow> bool"
    and invar :: "'s \<Rightarrow> bool"
  assumes test_bits: "test n s \<longleftrightarrow> (n \<in> bits s) \<noteq> neg s"
    and add_bits: "invar s \<Longrightarrow> bits (add n s) = insert n (bits s)"
    and add_neg: "neg (add n s) = neg s"
    and add_invar: "invar s \<Longrightarrow> invar (add n s)"
    and invert_bits: "bits (invert s) = bits s"
    and invert_neg: "neg (invert s) = (\<not> neg s)"
    and invert_invar: "invar (invert s) = invar s"
    and clear_bits: "invar s \<Longrightarrow> bits (clear s) = {}"
    and clear_neg: "\<not> neg (clear s)"
    and clear_invar: "invar s \<Longrightarrow> invar (clear s)"
begin

lemma fold_add:
  "invar s \<Longrightarrow> invar (fold add xs s) \<and> bits (fold add xs s) = set xs \<union> bits s
     \<and> neg (fold add xs s) = neg s"
  by (induction xs arbitrary: s) (auto simp: add_bits add_neg add_invar)

lemma funpow_invert:
  "bits ((invert ^^ k) s) = bits s \<and> neg ((invert ^^ k) s) = (odd k \<noteq> neg s)
     \<and> invar ((invert ^^ k) s) = invar s"
  by (induction k) (auto simp: invert_bits invert_neg invert_invar)

lemma test_specification:
  assumes "invar s"
  shows "test n (fold add xs ((invert ^^ k) (clear s))) \<longleftrightarrow> (n \<in> set xs) \<noteq> odd k"
  using fold_add [of "(invert ^^ k) (clear s)" xs] funpow_invert [of k "clear s"] assms
  by (simp add: test_bits clear_bits clear_neg clear_invar)

lemma test_add: "invar s \<Longrightarrow> test m (add n s) \<longleftrightarrow> (if m = n then \<not> neg s else test m s)"
  by (auto simp: test_bits add_bits add_neg)

end

interpretation ns: number_set_adt add_number_to_set invert_number_set clear_number_set
    ns_test ns_bits ns_not ns_wf
  by unfold_locales (simp_all add: ns_test_bits)

section \<open>Properties\<close>

lemmas number_set_eval = add_number_to_set_def reallocate_number_set_def number_setbit_def
  invert_number_set_def clear_number_set_def empty_number_set_def Let_def

text \<open>Adding a number keeps the slot vector as long as \<^verbatim>\<open>nslots\<close> says, and
  changes the membership of that number only: it becomes a member, or, in an
  inverted set, stops being one.\<close>

lemma add_number_to_set_correct:
  assumes "ns_wf s"
  shows "ns_wf (add_number_to_set n s) \<and>
    is_number_in_set m (Some [add_number_to_set n s])
      = (if m = n then \<not> ns_not s else is_number_in_set m (Some [s]))"
  using assms by (simp add: is_number_in_set_def ns.test_add)

text \<open>For a set whose numbers are all below the limit, \<^verbatim>\<open>is_complete_set\<close> holds
  exactly when the set is the inverted set without slots or every number below the
  limit has its bit set; the sign of the set plays no part in the second case.\<close>

lemma is_complete_set_iff:
  assumes "ns_wf s" "ns_bits s \<subseteq> {..<n}"
  shows "is_complete_set (Some s) n \<longleftrightarrow> (ns_not s \<and> nslots s = 0) \<or> ns_bits s = {..<n}"
proof -
  have "card (ns_bits s) = n \<longleftrightarrow> ns_bits s = {..<n}"
    using card_subset_eq [OF finite_lessThan assms(2)] by (metis card_lessThan)
  then show ?thesis
    using assms(1) by (simp add: is_complete_set_def get_number_setbit_card)
qed

text \<open>An inverted set with every number below the limit added holds none of
  these numbers, yet \<^verbatim>\<open>is_complete_set\<close> reports it as complete.\<close>

lemma is_complete_set_of_inverted:
  assumes "ns_wf s" "ns_bits s = {..<n}" "ns_not s"
  shows "is_complete_set (Some s) n \<and> (\<forall>m < n. \<not> is_number_in_set m (Some [s]))"
  using assms by (simp add: is_complete_set_def get_number_setbit_card is_number_in_set_def
      ns_test_bits)

end
