(* ===== verification/C_String.thy ===== *)
theory C_String
  imports Prelude
begin

text \<open>
  The string functions of the C library the option parsers use, on strings as lists
  of characters without the terminating zero, and \<^verbatim>\<open>src/src/string_to_uint.c\<close> with
  the wrappers of \<^verbatim>\<open>src/src/string_to_uint.h\<close> built on them. A pointer into a string
  is the suffix that starts there, and \<^verbatim>\<open>str == end\<close> is the equality of the two.
\<close>

section \<open>Characters\<close>

definition ord :: "char \<Rightarrow> nat" where
  "ord c = of_char c"

definition is_digit :: "char \<Rightarrow> bool" where
  "is_digit c \<longleftrightarrow> 48 \<le> ord c \<and> ord c \<le> 57"

definition is_space :: "char \<Rightarrow> bool" where
  "is_space c \<longleftrightarrow> ord c = 32 \<or> 9 \<le> ord c \<and> ord c \<le> 13"

definition digit_val :: "char \<Rightarrow> nat" where
  "digit_val c = ord c - 48"

definition to_lower :: "char \<Rightarrow> char" where
  "to_lower c = (if 65 \<le> ord c \<and> ord c \<le> 90 then char_of (ord c + 32) else c)"

lemma ord_char_of [simp]: "n < 256 \<Longrightarrow> ord (char_of n) = n"
  by (simp add: ord_def)

lemma ord_inject [simp]: "ord c = ord d \<longleftrightarrow> c = d"
  by (simp add: ord_def)

lemma ord_less [simp]: "ord c < 256"
  by (simp add: ord_def)

lemmas char_eval = is_digit_def is_space_def digit_val_def to_lower_def ord_def

text \<open>The text of \<^verbatim>\<open>'%s'\<close> in messages.\<close>

definition quoted :: "string \<Rightarrow> string" where
  "quoted s = [CHR 0x27] @ s @ [CHR 0x27]"

section \<open>Comparison and search\<close>

definition strcasecmp_eq :: "string \<Rightarrow> string \<Rightarrow> bool" where
  "strcasecmp_eq s t \<longleftrightarrow> map to_lower s = map to_lower t"

text \<open>\<^verbatim>\<open>strncmp(str, prefix, strlen(prefix)) == 0\<close> and the two prefix helpers.\<close>

definition has_prefix :: "string \<Rightarrow> string \<Rightarrow> bool" where
  "has_prefix p s \<longleftrightarrow> take (length p) s = p"

definition str_strip_prefix :: "string \<Rightarrow> string \<Rightarrow> string" where
  "str_strip_prefix s p = (if has_prefix p s then drop (length p) s else s)"

definition strcase_strip_prefix :: "string \<Rightarrow> string \<Rightarrow> string option" where
  "strcase_strip_prefix s p =
     (if strcasecmp_eq (take (length p) s) p then Some (drop (length p) s) else None)"

text \<open>\<^verbatim>\<open>strchr\<close> and \<^verbatim>\<open>strrchr\<close>: the text before and after the character found.\<close>

definition strchr_split :: "char \<Rightarrow> string \<Rightarrow> (string \<times> string) option" where
  "strchr_split c s =
     (case dropWhile (\<lambda>x. x \<noteq> c) s of [] \<Rightarrow> None
      | _ # after \<Rightarrow> Some (takeWhile (\<lambda>x. x \<noteq> c) s, after))"

definition strrchr_split :: "char \<Rightarrow> string \<Rightarrow> (string \<times> string) option" where
  "strrchr_split c s =
     (case strchr_split c (rev s) of None \<Rightarrow> None
      | Some (after, before) \<Rightarrow> Some (rev before, rev after))"

lemma strchr_split_Some:
  "strchr_split c s = Some (a, b) \<longleftrightarrow> s = a @ c # b \<and> c \<notin> set a"
proof
  assume "strchr_split c s = Some (a, b)"
  then obtain x where x: "dropWhile (\<lambda>x. x \<noteq> c) s = x # b" and a: "a = takeWhile (\<lambda>x. x \<noteq> c) s"
    by (auto simp: strchr_split_def split: list.splits)
  then have "x = c" using hd_dropWhile [of "\<lambda>x. x \<noteq> c" s] by fastforce
  then show "s = a @ c # b \<and> c \<notin> set a"
    using takeWhile_dropWhile_id [of "\<lambda>x. x \<noteq> c" s] x a by (auto dest: set_takeWhileD)
next
  assume asm: "s = a @ c # b \<and> c \<notin> set a"
  then have "\<forall>x \<in> set a. x \<noteq> c" by blast
  then have "dropWhile (\<lambda>x. x \<noteq> c) s = c # b" "takeWhile (\<lambda>x. x \<noteq> c) s = a"
    using asm by (simp_all add: dropWhile_append2 takeWhile_append2)
  then show "strchr_split c s = Some (a, b)" by (simp add: strchr_split_def)
qed

lemma strchr_split_None: "strchr_split c s = None \<longleftrightarrow> c \<notin> set s"
proof -
  have "strchr_split c s = None \<longleftrightarrow> dropWhile (\<lambda>x. x \<noteq> c) s = []"
    unfolding strchr_split_def by (cases "dropWhile (\<lambda>x. x \<noteq> c) s")
      (simp_all del: dropWhile_eq_Nil_conv)
  then show ?thesis by (simp only: dropWhile_eq_Nil_conv) blast
qed

lemma strrchr_split_Some:
  "strrchr_split c s = Some (a, b) \<longleftrightarrow> s = a @ c # b \<and> c \<notin> set b"
proof -
  have "strrchr_split c s = Some (a, b) \<longleftrightarrow> strchr_split c (rev s) = Some (rev b, rev a)"
    by (auto simp: strrchr_split_def split: option.splits)
  also have "\<dots> \<longleftrightarrow> rev s = rev b @ c # rev a \<and> c \<notin> set b"
    by (simp add: strchr_split_Some)
  also have "rev s = rev b @ c # rev a \<longleftrightarrow> s = a @ c # b"
    using rev_is_rev_conv [of s "a @ c # b"] by simp
  finally show ?thesis .
qed

section \<open>Tokens\<close>

text \<open>
  One call of \<^verbatim>\<open>strtok_r\<close>: skip delimiters, and return the token and the position
  saved for the next call, which is behind the delimiter that ended the token.
  \<open>tokens\<close> is the sequence of tokens the loop over \<^verbatim>\<open>strtok_r\<close> sees.
\<close>

definition strtok_r :: "string \<Rightarrow> string \<Rightarrow> (string \<times> string) option" where
  "strtok_r delim s =
     (case dropWhile (\<lambda>c. c \<in> set delim) s of [] \<Rightarrow> None
      | s' \<Rightarrow> Some (takeWhile (\<lambda>c. c \<notin> set delim) s', drop 1 (dropWhile (\<lambda>c. c \<notin> set delim) s')))"

lemma strtok_r_shorter: "strtok_r delim s = Some (tok, rest) \<Longrightarrow> length rest < length s"
proof -
  assume asm: "strtok_r delim s = Some (tok, rest)"
  let ?s = "dropWhile (\<lambda>c. c \<in> set delim) s"
  have ne: "?s \<noteq> []" and rest: "rest = drop 1 (dropWhile (\<lambda>c. c \<notin> set delim) ?s)"
    using asm by (auto simp: strtok_r_def split: list.splits simp del: dropWhile_eq_Nil_conv)
  have "length rest = length (dropWhile (\<lambda>c. c \<notin> set delim) ?s) - 1"
    unfolding rest by (rule length_drop)
  moreover have "length (dropWhile (\<lambda>c. c \<notin> set delim) ?s) \<le> length ?s"
    by (rule length_dropWhile_le)
  moreover have "length ?s \<le> length s" by (rule length_dropWhile_le)
  moreover have "0 < length ?s" using ne unfolding length_greater_0_conv .
  ultimately show ?thesis by linarith
qed

function tokens :: "string \<Rightarrow> string \<Rightarrow> string list" where
  "tokens delim s =
     (case strtok_r delim s of None \<Rightarrow> [] | Some (tok, rest) \<Rightarrow> tok # tokens delim rest)"
  by pat_completeness auto
termination
  by (relation "measure (\<lambda>(delim, s). length s)") (auto intro: strtok_r_shorter)

declare tokens.simps [simp del]

section \<open>Numbers\<close>

fun digits_val :: "nat \<Rightarrow> string \<Rightarrow> nat" where
  "digits_val acc [] = acc"
| "digits_val acc (c # cs) = digits_val (10 * acc + digit_val c) cs"

abbreviation LLONG_MAX :: int where "LLONG_MAX \<equiv> 9223372036854775807"
abbreviation INT_MAX :: int where "INT_MAX \<equiv> 2147483647"

text \<open>
  \<^verbatim>\<open>strtoll(str, &end, 10)\<close>: the value, whether \<^verbatim>\<open>errno\<close> is \<^verbatim>\<open>ERANGE\<close>, and the rest of the
  string at \<^verbatim>\<open>end\<close>, which is the whole string when there is no number.
\<close>

definition strip_sign :: "string \<Rightarrow> string \<times> string" where
  "strip_sign s =
     (case s of [] \<Rightarrow> ([], [])
      | c # r \<Rightarrow> if c = CHR ''-'' \<or> c = CHR ''+'' then ([c], r) else ([], s))"

definition strtoll10 :: "string \<Rightarrow> int \<times> bool \<times> string" where
  "strtoll10 str =
     (let (sign, s) = strip_sign (dropWhile is_space str);
          digits = takeWhile is_digit s;
          rest = dropWhile is_digit s;
          v = int (digits_val 0 digits)
      in if digits = [] then (0, False, str)
         else if sign = ''-''
         then (if v > LLONG_MAX + 1 then (- LLONG_MAX - 1, True, rest) else (- v, False, rest))
         else (if v > LLONG_MAX then (LLONG_MAX, True, rest) else (v, False, rest)))"

text \<open>\<open>None\<close> stands for the return value \<^verbatim>\<open>-1\<close>, which leaves \<^verbatim>\<open>*endptr\<close> alone.\<close>

definition string_to_uint_ex :: "string \<Rightarrow> int \<Rightarrow> string option \<Rightarrow> (int \<times> string) option" where
  "string_to_uint_ex str max_val accepted_ending =
     (if str = [] then None
      else let (val, erange, endp) = strtoll10 str in
        if str = endp \<or> val < 0 \<or> val > max_val \<or> (val = LLONG_MAX \<and> erange) then None
        else if endp \<noteq> [] \<and>
          (case accepted_ending of None \<Rightarrow> True | Some cs \<Rightarrow> hd endp \<notin> set cs) then None
        else Some (val, endp))"

definition string_to_uint_upto :: "string \<Rightarrow> int \<Rightarrow> int" where
  "string_to_uint_upto str max_val =
     (case string_to_uint_ex str max_val None of None \<Rightarrow> - 1 | Some (val, _) \<Rightarrow> val)"

definition string_to_uint :: "string \<Rightarrow> int" where
  "string_to_uint str = string_to_uint_upto str INT_MAX"

definition string_to_ulonglong :: "string \<Rightarrow> int" where
  "string_to_ulonglong str = string_to_uint_upto str LLONG_MAX"

text \<open>The conversion \<^verbatim>\<open>%u\<close> of \<^verbatim>\<open>printf\<close>.\<close>

fun dec_string :: "nat \<Rightarrow> string" where
  "dec_string n =
     (if n < 10 then [char_of (48 + n)] else dec_string (n div 10) @ [char_of (48 + n mod 10)])"

declare dec_string.simps [simp del]

text \<open>The conversion \<^verbatim>\<open>%x\<close>.\<close>

definition hex_digit :: "nat \<Rightarrow> char" where
  "hex_digit d = char_of (if d < 10 then 48 + d else 87 + d)"

fun hex_string :: "nat \<Rightarrow> string" where
  "hex_string n =
     (if n < 16 then [hex_digit n] else hex_string (n div 16) @ [hex_digit (n mod 16)])"

declare hex_string.simps [simp del]

text \<open>Digits of a base up to 16.\<close>

definition xdigit_val :: "char \<Rightarrow> nat option" where
  "xdigit_val c =
     (if is_digit c then Some (ord c - 48)
      else if 97 \<le> ord c \<and> ord c \<le> 102 then Some (ord c - 87)
      else if 65 \<le> ord c \<and> ord c \<le> 70 then Some (ord c - 55) else None)"

definition base_digit :: "nat \<Rightarrow> char \<Rightarrow> bool" where
  "base_digit b c = (case xdigit_val c of None \<Rightarrow> False | Some v \<Rightarrow> v < b)"

definition base_val :: "nat \<Rightarrow> string \<Rightarrow> nat" where
  "base_val b ds = foldl (\<lambda>a c. b * a + (case xdigit_val c of None \<Rightarrow> 0 | Some v \<Rightarrow> v)) 0 ds"

lemma xdigit_val_hex_digit: "n < 16 \<Longrightarrow> xdigit_val (hex_digit n) = Some n"
  by (simp add: xdigit_val_def hex_digit_def is_digit_def)

lemma xdigit_not_special:
  "xdigit_val c = Some v \<Longrightarrow> \<not> is_space c \<and> c \<noteq> CHR ''-'' \<and> c \<noteq> CHR ''+'' \<and> c \<noteq> CHR '',''"
  by (auto simp: xdigit_val_def is_digit_def is_space_def ord_def split: if_splits)

lemma hex_string_digits: "list_all (base_digit 16) (hex_string n)"
proof (induction n rule: hex_string.induct)
  case (1 n)
  then show ?case
    by (cases "n < 16") (simp_all add: hex_string.simps [of n] base_digit_def xdigit_val_hex_digit)
qed

lemma hex_string_not_Nil [simp]: "hex_string n \<noteq> []"
  by (simp add: hex_string.simps [of n])

lemma base_val_append: "base_val b (xs @ [d]) = b * base_val b xs + (case xdigit_val d of None \<Rightarrow> 0 | Some v \<Rightarrow> v)"
  by (simp add: base_val_def)

lemma base_val_hex_string: "base_val 16 (hex_string n) = n"
proof (induction n rule: hex_string.induct)
  case (1 n)
  then show ?case
    by (cases "n < 16") (simp_all add: hex_string.simps [of n] base_val_append base_val_def xdigit_val_hex_digit)
qed

lemma dec_string_digits: "list_all is_digit (dec_string n)"
proof (induction n rule: dec_string.induct)
  case (1 n)
  then show ?case
    using mod_less_divisor [of 10 n]
    by (simp add: dec_string.simps [of n] is_digit_def del: mod_less_divisor)
qed

lemma dec_string_not_Nil [simp]: "dec_string n \<noteq> []"
  by (simp add: dec_string.simps [of n])

lemma digits_val_append: "digits_val a (xs @ ys) = digits_val (digits_val a xs) ys"
  by (induction xs arbitrary: a) simp_all

lemma digits_val_dec_string: "digits_val 0 (dec_string n) = n"
proof (induction n rule: dec_string.induct)
  case (1 n)
  then show ?case
    by (simp add: dec_string.simps [of n] digits_val_append digit_val_def)
qed

lemma digit_facts:
  "is_digit c \<Longrightarrow> \<not> is_space c" "is_digit c \<Longrightarrow> c \<noteq> CHR ''-''" "is_digit c \<Longrightarrow> c \<noteq> CHR ''+''"
  "is_digit c \<Longrightarrow> c \<noteq> CHR '','' "
  by (auto simp: char_eval)

lemma not_space_sign: "\<not> is_space (CHR ''-'')" "\<not> is_space (CHR ''+'')"
  by (simp_all add: char_eval)

text \<open>The syntax \<^verbatim>\<open>strtoll\<close> accepts: blanks, a sign or none, and digits.\<close>

definition number_syntax :: "string \<Rightarrow> string \<Rightarrow> string \<Rightarrow> string \<Rightarrow> bool" where
  "number_syntax ws sign ds rest \<longleftrightarrow> list_all is_space ws \<and> sign \<in> {[], ''+'', ''-''} \<and>
     ds \<noteq> [] \<and> list_all is_digit ds \<and> (rest = [] \<or> \<not> is_digit (hd rest))"

lemma takeWhile_digits:
  assumes "list_all is_digit ds" "rest = [] \<or> \<not> is_digit (hd rest)"
  shows "takeWhile is_digit (ds @ rest) = ds" "dropWhile is_digit (ds @ rest) = rest"
  using assms by (induction ds; cases rest; simp)+

definition signed_val :: "string \<Rightarrow> string \<Rightarrow> int" where
  "signed_val sign ds = (if sign = ''-'' then - int (digits_val 0 ds) else int (digits_val 0 ds))"

lemma strtoll10_number:
  assumes "number_syntax ws sign ds rest"
  shows "\<exists>v erange. strtoll10 (ws @ sign @ ds @ rest) = (v, erange, rest) \<and>
    (if \<bar>signed_val sign ds\<bar> \<le> LLONG_MAX then v = signed_val sign ds \<and> \<not> erange
     else v < 0 \<or> v = LLONG_MAX \<and> erange)"
proof -
  have ws: "list_all is_space ws" and sg: "sign \<in> {[], ''+'', ''-''}" and ds: "ds \<noteq> []"
    "list_all is_digit ds" "rest = [] \<or> \<not> is_digit (hd rest)"
    using assms by (simp_all add: number_syntax_def)
  have hd: "is_digit (hd ds)" using ds by (cases ds) simp_all
  have all: "\<forall>c \<in> set ws. is_space c" using ws by (simp add: list_all_iff)
  have ne: "\<not> is_space (hd (sign @ ds @ rest))"
    using sg hd ds(1) by (auto simp: not_space_sign digit_facts)
  have "dropWhile is_space (ws @ sign @ ds @ rest) = sign @ ds @ rest"
    using all ne ds(1) by (cases "sign @ ds @ rest") (simp_all add: dropWhile_append2)
  moreover have "strip_sign (sign @ ds @ rest) = (sign, ds @ rest)"
    using sg digit_facts(2,3) [OF hd] ds(1) by (cases ds) (auto simp: strip_sign_def)
  ultimately show ?thesis using ds
    by (simp add: strtoll10_def takeWhile_digits signed_val_def) blast
qed

lemma strtoll10_cases:
  obtains (none) "strtoll10 s = (0, False, s)"
  | (number) ws sign ds rest where "s = ws @ sign @ ds @ rest" "number_syntax ws sign ds rest"
proof -
  obtain sign u where su: "strip_sign (dropWhile is_space s) = (sign, u)" by fastforce
  let ?ws = "takeWhile is_space s" and ?ds = "takeWhile is_digit u"
  let ?rest = "dropWhile is_digit u"
  have sign: "dropWhile is_space s = sign @ u" "sign \<in> {[], ''+'', ''-''}"
    using su by (auto simp: strip_sign_def split: list.splits if_splits)
  have "s = ?ws @ sign @ ?ds @ ?rest"
    using takeWhile_dropWhile_id [of is_space s] unfolding sign(1) by simp
  moreover have "?ds \<noteq> [] \<Longrightarrow> number_syntax ?ws sign ?ds ?rest"
    using hd_dropWhile [of is_digit u] sign(2)
    by (auto simp: number_syntax_def list_all_iff dest: set_takeWhileD)
  moreover have "?ds = [] \<Longrightarrow> strtoll10 s = (0, False, s)"
    by (simp add: strtoll10_def su)
  ultimately show thesis using none number by metis
qed

lemma string_to_uint_ex_Some_iff:
  assumes "max_val \<le> LLONG_MAX" "0 \<le> max_val"
  shows "string_to_uint_ex s max_val None = Some (v, e) \<longleftrightarrow>
    (\<exists>ws sign ds. s = ws @ sign @ ds \<and> number_syntax ws sign ds [] \<and>
       v = signed_val sign ds \<and> 0 \<le> v \<and> v \<le> max_val \<and> e = [])" (is "?l \<longleftrightarrow> ?r")
proof
  assume ?l
  show ?r
  proof (cases s rule: strtoll10_cases)
    case none
    then show ?thesis using \<open>?l\<close> by (simp add: string_to_uint_ex_def split: if_splits)
  next
    case (number ws sign ds rest)
    then show ?thesis
      using \<open>?l\<close> strtoll10_number [OF number(2)] assms
      by (auto simp: string_to_uint_ex_def split: if_splits)
  qed
next
  assume ?r
  then obtain ws sign ds where s: "s = ws @ sign @ ds" "number_syntax ws sign ds []"
    and v: "v = signed_val sign ds" "0 \<le> v" "v \<le> max_val" "e = []" by blast
  then show ?l
    using strtoll10_number [OF s(2)] assms
    by (auto simp: string_to_uint_ex_def number_syntax_def)
qed

lemma string_to_uint_upto_iff:
  assumes "max_val \<le> LLONG_MAX" "0 \<le> max_val" "0 \<le> v"
  shows "string_to_uint_upto s max_val = v \<longleftrightarrow>
    (\<exists>ws sign ds. s = ws @ sign @ ds \<and> number_syntax ws sign ds [] \<and>
       v = signed_val sign ds \<and> v \<le> max_val)"
proof -
  have "string_to_uint_upto s max_val = v \<longleftrightarrow> string_to_uint_ex s max_val None = Some (v, [])"
  proof (cases "string_to_uint_ex s max_val None")
    case (Some r)
    obtain w e where r: "r = (w, e)" by fastforce
    then have "e = []" using string_to_uint_ex_Some_iff [OF assms(1,2), of s w e] Some by auto
    then show ?thesis using Some r by (simp add: string_to_uint_upto_def)
  qed (use assms(3) in \<open>simp add: string_to_uint_upto_def\<close>)
  then show ?thesis unfolding string_to_uint_ex_Some_iff [OF assms(1,2)] using assms(3) by simp
qed

lemma string_to_uint_range: "- 1 \<le> string_to_uint s \<and> string_to_uint s \<le> INT_MAX"
proof (cases "string_to_uint_ex s INT_MAX None")
  case (Some r)
  obtain w e where r: "r = (w, e)" by fastforce
  then show ?thesis using string_to_uint_ex_Some_iff [of INT_MAX s w e] Some
    by (auto simp: string_to_uint_def string_to_uint_upto_def)
qed (simp add: string_to_uint_def string_to_uint_upto_def)

section \<open>Properties\<close>

text \<open>\<^verbatim>\<open>string_to_uint\<close> returns a number \<open>v\<close> exactly for the strings made of blanks, an
  optional sign and digits that denote \<open>v\<close> with \<open>0 \<le> v \<le> INT_MAX\<close>, and \<open>-1\<close> for every other
  string: nothing may follow the digits, and a minus sign is accepted before zero only.\<close>

lemma string_to_uint_accepts:
  "string_to_uint s = v \<longleftrightarrow>
     (if 0 \<le> v
      then v \<le> INT_MAX \<and> (\<exists>ws sign ds. s = ws @ sign @ ds \<and> number_syntax ws sign ds [] \<and>
             v = signed_val sign ds)
      else v = - 1 \<and> \<not> (\<exists>ws sign ds. s = ws @ sign @ ds \<and> number_syntax ws sign ds [] \<and>
             signed_val sign ds \<in> {0..INT_MAX}))"
proof -
  have iff: "0 \<le> v \<Longrightarrow> string_to_uint s = v \<longleftrightarrow> v \<le> INT_MAX \<and> (\<exists>ws sign ds.
      s = ws @ sign @ ds \<and> number_syntax ws sign ds [] \<and> v = signed_val sign ds)" for v
    unfolding string_to_uint_def by (subst string_to_uint_upto_iff) auto
  have "string_to_uint s = - 1 \<longleftrightarrow> \<not> 0 \<le> string_to_uint s"
    using string_to_uint_range [of s] by linarith
  also have "\<dots> \<longleftrightarrow> \<not> (\<exists>ws sign ds. s = ws @ sign @ ds \<and> number_syntax ws sign ds [] \<and>
             signed_val sign ds \<in> {0..INT_MAX})"
    using iff by (metis atLeastAtMost_iff string_to_uint_range)
  finally show ?thesis
    using iff [of v] string_to_uint_range [of s] by (cases "0 \<le> v") auto
qed

text \<open>Every number up to \<open>INT_MAX\<close> survives being printed in decimal and parsed by
  \<^verbatim>\<open>string_to_uint\<close>, and a larger number is refused.\<close>

lemma string_to_uint_dec_string:
  "string_to_uint (dec_string n) = (if int n \<le> INT_MAX then int n else - 1)"
proof (cases "int n \<le> INT_MAX")
  case True
  have "number_syntax [] [] (dec_string n) []"
    by (simp add: number_syntax_def dec_string_digits)
  moreover have "signed_val [] (dec_string n) = int n"
    by (simp add: signed_val_def digits_val_dec_string)
  ultimately have "string_to_uint_upto (dec_string n) INT_MAX = int n"
    using True by (subst string_to_uint_upto_iff) (simp_all, metis append_Nil)
  then show ?thesis using True by (simp add: string_to_uint_def)
next
  case False
  have syn: "number_syntax [] [] (dec_string n) []"
    by (simp add: number_syntax_def dec_string_digits)
  have "string_to_uint_ex (dec_string n) INT_MAX None = None"
    using strtoll10_number [OF syn] False
    by (auto simp: string_to_uint_ex_def signed_val_def digits_val_dec_string split: if_splits)
  then show ?thesis using False by (simp add: string_to_uint_def string_to_uint_upto_def)
qed

end
