(* ===== verification/Sysent.thy ===== *)
theory Sysent
  imports C_String
begin

text \<open>
  The system call tables of \<^verbatim>\<open>src/src/sysent.h\<close> and the lookups of \<^verbatim>\<open>src/src/defs.h\<close> and
  \<^verbatim>\<open>src/src/util.c\<close> on them. The tables themselves are built per architecture
  (\<^verbatim>\<open>syscallent.h\<close>), so a record of type \<open>arch\<close> holds them as a parameter: one entry
  per supported personality of the designators, table sizes and tables, and the
  architecture's renumbering of system calls.
\<close>

section \<open>Tables\<close>

record sysent =
  nargs :: nat
  sys_flags :: u32
  sen :: nat
  sys_func :: bool
  sys_name :: "string option"

record arch =
  personality_designators :: "string list"
  nsyscall_vec :: "nat list"
  sysent_vec :: "sysent list list"
  shuffle_scno_pers :: "nat \<Rightarrow> nat \<Rightarrow> nat"
  needs_non_shuffled_check :: bool

abbreviation SUPPORTED_PERSONALITIES :: "'a arch_scheme \<Rightarrow> nat" where
  "SUPPORTED_PERSONALITIES A \<equiv> length (personality_designators A)"

abbreviation TRACE_FILE :: u32 where "TRACE_FILE \<equiv> 1"
abbreviation TRACE_IPC :: u32 where "TRACE_IPC \<equiv> 2"
abbreviation TRACE_NETWORK :: u32 where "TRACE_NETWORK \<equiv> 4"
abbreviation TRACE_PROCESS :: u32 where "TRACE_PROCESS \<equiv> 8"
abbreviation TRACE_SIGNAL :: u32 where "TRACE_SIGNAL \<equiv> 16"
abbreviation TRACE_DESC :: u32 where "TRACE_DESC \<equiv> 32"
abbreviation TRACE_MEMORY :: u32 where "TRACE_MEMORY \<equiv> 64"
abbreviation SYSCALL_NEVER_FAILS :: u32 where "SYSCALL_NEVER_FAILS \<equiv> 0x80"
abbreviation MEMORY_MAPPING_CHANGE :: u32 where "MEMORY_MAPPING_CHANGE \<equiv> 0x100"
abbreviation TRACE_INDIRECT_SUBCALL :: u32 where "TRACE_INDIRECT_SUBCALL \<equiv> 0x200"
abbreviation COMPAT_SYSCALL_TYPES :: u32 where "COMPAT_SYSCALL_TYPES \<equiv> 0x400"
abbreviation TRACE_STAT :: u32 where "TRACE_STAT \<equiv> 0x800"
abbreviation TRACE_LSTAT :: u32 where "TRACE_LSTAT \<equiv> 0x1000"
abbreviation TRACE_STATFS :: u32 where "TRACE_STATFS \<equiv> 0x2000"
abbreviation TRACE_FSTATFS :: u32 where "TRACE_FSTATFS \<equiv> 0x4000"
abbreviation TRACE_STATFS_LIKE :: u32 where "TRACE_STATFS_LIKE \<equiv> 0x8000"
abbreviation TRACE_FSTAT :: u32 where "TRACE_FSTAT \<equiv> 0x10000"
abbreviation TRACE_STAT_LIKE :: u32 where "TRACE_STAT_LIKE \<equiv> 0x20000"
abbreviation TRACE_PURE :: u32 where "TRACE_PURE \<equiv> 0x40000"
abbreviation TRACE_SECCOMP_DEFAULT :: u32 where "TRACE_SECCOMP_DEFAULT \<equiv> 0x80000"
abbreviation TRACE_CREDS :: u32 where "TRACE_CREDS \<equiv> 0x100000"
abbreviation TRACE_CLOCK :: u32 where "TRACE_CLOCK \<equiv> 0x200000"
abbreviation COMM_CHANGE :: u32 where "COMM_CHANGE \<equiv> 0x400000"

definition scno_pers_in_range :: "'a arch_scheme \<Rightarrow> nat \<Rightarrow> nat \<Rightarrow> bool" where
  "scno_pers_in_range A scno pers \<longleftrightarrow> scno < nsyscall_vec A ! pers"

definition scno_pers_is_valid :: "'a arch_scheme \<Rightarrow> nat \<Rightarrow> nat \<Rightarrow> bool" where
  "scno_pers_is_valid A scno pers \<longleftrightarrow>
     scno_pers_in_range A scno pers \<and> sys_func (sysent_vec A ! pers ! scno) \<and>
     sys_flags (sysent_vec A ! pers ! scno) AND TRACE_INDIRECT_SUBCALL = 0"

text \<open>The renumbering of \<^verbatim>\<open>src/src/linux/x86_64/shuffle_scno.c\<close>, on 64-bit numbers.\<close>

definition shuffle_scno_pers_x86_64 :: "nat \<Rightarrow> nat \<Rightarrow> nat" where
  "shuffle_scno_pers_x86_64 scno pers =
     (if pers = 2 then unat (word_of_nat scno XOR (0x40000000 :: u64)) else scno)"

section \<open>Lookup in tables of names\<close>

text \<open>
  \<^verbatim>\<open>struct xlat_data\<close> is a pair of a value and its name; a \<^verbatim>\<open>NULL\<close> result is \<open>None\<close>.
\<close>

type_synonym xlat_data = "u64 \<times> string"

definition find_xlat_val_ex :: "xlat_data list \<Rightarrow> string \<Rightarrow> bool \<Rightarrow> xlat_data option" where
  "find_xlat_val_ex items s case_sensitive =
     find (\<lambda>(val, str). if case_sensitive then str = s else strcasecmp_eq str s) items"

definition find_arg_val :: "string option \<Rightarrow> xlat_data list \<Rightarrow> u64 \<Rightarrow> u64 \<Rightarrow> u64" where
  "find_arg_val arg strs default_val not_found =
     (case arg of None \<Rightarrow> default_val
      | Some a \<Rightarrow> (case find_xlat_val_ex strs a False of Some (val, _) \<Rightarrow> val | None \<Rightarrow> not_found))"

definition scno_by_name :: "'a arch_scheme \<Rightarrow> string \<Rightarrow> nat \<Rightarrow> nat \<Rightarrow> nat option" where
  "scno_by_name A s p start =
     (if p \<ge> SUPPORTED_PERSONALITIES A then None
      else find (\<lambda>i. sys_name (sysent_vec A ! p ! i) = Some s) [start..<nsyscall_vec A ! p])"

lemma scno_by_name_Some:
  "scno_by_name A s p start = Some i \<Longrightarrow>
     start \<le> i \<and> i < nsyscall_vec A ! p \<and> sys_name (sysent_vec A ! p ! i) = Some s \<and>
     (\<forall>j. start \<le> j \<and> j < i \<longrightarrow> sys_name (sysent_vec A ! p ! j) \<noteq> Some s)"
  by (simp add: scno_by_name_def find_upt_Some split: if_splits)

lemma scno_by_name_None:
  "p < SUPPORTED_PERSONALITIES A \<Longrightarrow> scno_by_name A s p start = None \<longleftrightarrow>
     (\<forall>j. start \<le> j \<and> j < nsyscall_vec A ! p \<longrightarrow> sys_name (sysent_vec A ! p ! j) \<noteq> Some s)"
  by (auto simp: scno_by_name_def find_None_iff)

text \<open>A small table with two personalities, for evaluating the definitions.\<close>

definition entry :: "u32 \<Rightarrow> string \<Rightarrow> sysent" where
  "entry flags name = \<lparr>nargs = 3, sys_flags = flags, sen = 0, sys_func = True, sys_name = Some name\<rparr>"

definition small_arch :: arch where
  "small_arch =
     \<lparr>personality_designators = [''64'', ''32''],
      nsyscall_vec = [3, 2],
      sysent_vec = [[entry TRACE_DESC ''read'', entry TRACE_DESC ''write'', entry TRACE_FILE ''open''],
                    [entry TRACE_PROCESS ''fork'', entry TRACE_DESC ''read'']],
      shuffle_scno_pers = (\<lambda>scno pers. scno),
      needs_non_shuffled_check = False\<rparr>"

end
