(* ===== verification/Basic_Filters.thy ===== *)
theory Basic_Filters
  imports Number_Set Sysent
begin

text \<open>
  \<^verbatim>\<open>src/src/basic_filters.c\<close>: the parsers of \<^verbatim>\<open>-e\<close> specifications. They fill one number
  set per personality with system call numbers, or a single set with the numbers a
  callback finds for the tokens. The POSIX regular expression functions of the C
  library are a parameter \<open>regcomp\<close>: it yields the error text of \<^verbatim>\<open>regerror\<close> or the
  function \<^verbatim>\<open>regexec\<close> computes for the compiled pattern.
\<close>

section \<open>System call specifications\<close>

datatype regexec_rc = REG_MATCH | REG_NOMATCH | REG_FAIL string

type_synonym regcomp = "string \<Rightarrow> string + (string \<Rightarrow> regexec_rc)"

definition qualify_syscall_separate_personality ::
    "'a arch_scheme \<Rightarrow> string \<Rightarrow> die + (string \<times> nat) option" where
  "qualify_syscall_separate_personality A s =
     (case strrchr_split (CHR ''@'') s of None \<Rightarrow> Inr None
      | Some (before, after) \<Rightarrow>
          (case find (\<lambda>i. personality_designators A ! i = after) [0..<SUPPORTED_PERSONALITIES A] of
             Some i \<Rightarrow> Inr (Some (before, i))
           | None \<Rightarrow> Inl (Help (''incorrect personality designator '' @ quoted after @
               '' in qualification '' @ quoted s))))"

text \<open>
  \<^verbatim>\<open>string_to_uint\<close> returns an \<^verbatim>\<open>int\<close>, stored in an \<^verbatim>\<open>unsigned int\<close>; the shuffled number
  is cut to an \<^verbatim>\<open>unsigned int\<close> as well.
\<close>

definition qualify_syscall_number ::
    "'a arch_scheme \<Rightarrow> string \<Rightarrow> nat \<Rightarrow> number_set_array \<Rightarrow> bool \<times> number_set_array" where
  "qualify_syscall_number A str p ns =
     (let nr = nat (string_to_uint str mod 2 ^ 32);
          scno = shuffle_scno_pers A nr p mod 2 ^ 32
      in if scno_pers_is_valid A scno p then (True, add_number_to_set_array scno ns p)
         else if needs_non_shuffled_check A \<and> scno_pers_is_valid A nr p
         then (True, add_number_to_set_array nr ns p)
         else (False, ns))"

definition regerror_msg_and_die :: "string \<Rightarrow> string \<Rightarrow> string \<Rightarrow> die" where
  "regerror_msg_and_die err str pattern = Die (str @ '': '' @ pattern @ '': '' @ take 511 err)"

fun qualify_syscall_regex_loop ::
    "(nat \<Rightarrow> string option) \<Rightarrow> (string \<Rightarrow> regexec_rc) \<Rightarrow> string \<Rightarrow> nat \<Rightarrow> nat list \<Rightarrow> bool \<Rightarrow>
     number_set_array \<Rightarrow> die + bool \<times> number_set_array" where
  "qualify_syscall_regex_loop name regexec str p [] found ns = Inr (found, ns)"
| "qualify_syscall_regex_loop name regexec str p (i # is) found ns =
     (case name i of None \<Rightarrow> qualify_syscall_regex_loop name regexec str p is found ns
      | Some nm \<Rightarrow>
          (case regexec nm of
             REG_NOMATCH \<Rightarrow> qualify_syscall_regex_loop name regexec str p is found ns
           | REG_FAIL err \<Rightarrow> Inl (regerror_msg_and_die err ''regexec'' str)
           | REG_MATCH \<Rightarrow> qualify_syscall_regex_loop name regexec str p is True
                            (add_number_to_set_array i ns p)))"

definition qualify_syscall_regex ::
    "'a arch_scheme \<Rightarrow> regcomp \<Rightarrow> string \<Rightarrow> nat \<Rightarrow> number_set_array \<Rightarrow>
     die + bool \<times> number_set_array" where
  "qualify_syscall_regex A regcomp str p ns =
     (case regcomp str of Inl err \<Rightarrow> Inl (regerror_msg_and_die err ''regcomp'' str)
      | Inr regexec \<Rightarrow>
          qualify_syscall_regex_loop (\<lambda>i. sys_name (sysent_vec A ! p ! i)) regexec str p
            [0..<nsyscall_vec A ! p] False ns)"

definition syscall_class :: "(u32 \<times> string) list" where
  "syscall_class =
    [(TRACE_DESC, ''%desc''), (TRACE_FILE, ''%file''), (TRACE_MEMORY, ''%memory''),
     (TRACE_PROCESS, ''%process''), (TRACE_CREDS, ''%creds''), (TRACE_SIGNAL, ''%signal''),
     (TRACE_IPC, ''%ipc''), (TRACE_NETWORK, ''%net''), (TRACE_NETWORK, ''%network''),
     (TRACE_STAT, ''%stat''), (TRACE_LSTAT, ''%lstat''), (TRACE_FSTAT, ''%fstat''),
     (TRACE_STAT_LIKE, ''%%stat''), (TRACE_STATFS, ''%statfs''), (TRACE_FSTATFS, ''%fstatfs''),
     (TRACE_STATFS_LIKE, ''%%statfs''), (TRACE_PURE, ''%pure''), (TRACE_CLOCK, ''%clock''),
     (0, ''all''), (TRACE_DESC, ''desc''), (TRACE_FILE, ''file''), (TRACE_MEMORY, ''memory''),
     (TRACE_PROCESS, ''process''), (TRACE_SIGNAL, ''signal''), (TRACE_IPC, ''ipc''),
     (TRACE_NETWORK, ''network'')]"

definition syscall_in_class :: "'a arch_scheme \<Rightarrow> nat \<Rightarrow> u32 \<Rightarrow> nat \<Rightarrow> bool" where
  "syscall_in_class A p n i \<longleftrightarrow>
     sys_name (sysent_vec A ! p ! i) \<noteq> None \<and> sys_flags (sysent_vec A ! p ! i) AND n = n"

definition qualify_syscall_class ::
    "'a arch_scheme \<Rightarrow> string \<Rightarrow> nat \<Rightarrow> number_set_array \<Rightarrow> bool \<times> number_set_array" where
  "qualify_syscall_class A str p ns =
     (case find (\<lambda>(val, s). s = str) syscall_class of None \<Rightarrow> (False, ns)
      | Some (n, _) \<Rightarrow>
          (True, fold (\<lambda>i ns. if syscall_in_class A p n i
                              then add_number_to_set_array i ns p else ns)
                   [0..<nsyscall_vec A ! p] ns))"

function qualify_syscall_name_loop ::
    "'a arch_scheme \<Rightarrow> string \<Rightarrow> nat \<Rightarrow> nat \<Rightarrow> bool \<Rightarrow> number_set_array \<Rightarrow>
     bool \<times> number_set_array" where
  "qualify_syscall_name_loop A s p start found ns =
     (case scno_by_name A s p start of None \<Rightarrow> (found, ns)
      | Some scno \<Rightarrow>
          qualify_syscall_name_loop A s p (Suc scno) True (add_number_to_set_array scno ns p))"
  by pat_completeness auto
termination
  by (relation "measure (\<lambda>(A, s, p, start, _). nsyscall_vec A ! p - start)")
    (auto dest!: scno_by_name_Some)

declare qualify_syscall_name_loop.simps [simp del]

definition qualify_syscall_name ::
    "'a arch_scheme \<Rightarrow> string \<Rightarrow> nat \<Rightarrow> number_set_array \<Rightarrow> bool \<times> number_set_array" where
  "qualify_syscall_name A s p ns = qualify_syscall_name_loop A s p 0 False ns"

definition qualify_syscall_pers ::
    "'a arch_scheme \<Rightarrow> regcomp \<Rightarrow> string \<Rightarrow> nat \<Rightarrow> number_set_array \<Rightarrow>
     die + bool \<times> number_set_array" where
  "qualify_syscall_pers A regcomp token p ns =
     (if token \<noteq> [] \<and> is_digit (hd token) then Inr (qualify_syscall_number A token p ns)
      else if token \<noteq> [] \<and> hd token = CHR ''/'' then qualify_syscall_regex A regcomp (tl token) p ns
      else (case qualify_syscall_class A token p ns of
              (True, ns') \<Rightarrow> Inr (True, ns')
            | (False, ns') \<Rightarrow> Inr (qualify_syscall_name A token p ns')))"

fun qualify_syscall_all_pers ::
    "'a arch_scheme \<Rightarrow> regcomp \<Rightarrow> string \<Rightarrow> nat list \<Rightarrow> bool \<Rightarrow> number_set_array \<Rightarrow>
     die + bool \<times> number_set_array" where
  "qualify_syscall_all_pers A regcomp token [] rc ns = Inr (rc, ns)"
| "qualify_syscall_all_pers A regcomp token (p # ps) rc ns =
     rbind (qualify_syscall_pers A regcomp token p ns)
       (\<lambda>(b, ns'). qualify_syscall_all_pers A regcomp token ps (rc \<or> b) ns')"

definition qualify_syscall ::
    "'a arch_scheme \<Rightarrow> regcomp \<Rightarrow> string \<Rightarrow> number_set_array \<Rightarrow>
     die + bool \<times> number_set_array" where
  "qualify_syscall A regcomp token ns =
     (let rc = (token \<noteq> [] \<and> hd token = CHR ''?'');
          token = dropWhile (\<lambda>c. c = CHR ''?'') token
      in rbind (qualify_syscall_separate_personality A token)
           (\<lambda>sp. case sp of
              Some (str, p) \<Rightarrow>
                rbind (qualify_syscall_pers A regcomp str p ns) (\<lambda>(b, ns'). Inr (rc \<or> b, ns'))
            | None \<Rightarrow> qualify_syscall_all_pers A regcomp token
                       [0..<SUPPORTED_PERSONALITIES A] rc ns))"

fun qualify_syscall_loop ::
    "'a arch_scheme \<Rightarrow> regcomp \<Rightarrow> string list \<Rightarrow> bool \<Rightarrow> number_set_array \<Rightarrow>
     die + bool \<times> number_set_array" where
  "qualify_syscall_loop A regcomp [] done ns = Inr (done, ns)"
| "qualify_syscall_loop A regcomp (token # toks) done ns =
     rbind (qualify_syscall A regcomp token ns)
       (\<lambda>(done, ns'). if done then qualify_syscall_loop A regcomp toks done ns'
          else Inl (Die (''invalid system call '' @ quoted token)))"

fun invert_leading :: "nat \<Rightarrow> string \<Rightarrow> number_set_array \<Rightarrow> string \<times> number_set_array" where
  "invert_leading n [] ns = ([], ns)"
| "invert_leading n (c # s) ns =
     (if c = CHR ''!'' then invert_leading n s (invert_number_set_array ns n) else (c # s, ns))"

definition qualify_syscall_tokens ::
    "'a arch_scheme \<Rightarrow> regcomp \<Rightarrow> string \<Rightarrow> number_set_array \<Rightarrow> die + number_set_array" where
  "qualify_syscall_tokens A regcomp str ns =
     (let ns = clear_number_set_array ns (SUPPORTED_PERSONALITIES A);
          (s, ns) = invert_leading (SUPPORTED_PERSONALITIES A) str ns
      in if s = ''none'' then Inr ns
         else if s = ''all'' then Inr (invert_number_set_array ns (SUPPORTED_PERSONALITIES A))
         else rbind (qualify_syscall_loop A regcomp (tokens '','' s) False ns)
           (\<lambda>(done, ns). if done then Inr ns
              else Inl (Die (''invalid system call '' @ quoted str))))"

section \<open>Number specifications\<close>

fun qualify_tokens_loop ::
    "(string \<Rightarrow> int) \<Rightarrow> string \<Rightarrow> string list \<Rightarrow> int \<Rightarrow> number_set_array \<Rightarrow>
     die + int \<times> number_set_array" where
  "qualify_tokens_loop func name [] number ns = Inr (number, ns)"
| "qualify_tokens_loop func name (token # toks) number ns =
     (let number = func token
      in if number < 0 then Inl (Die (''invalid '' @ name @ '' '' @ quoted token))
         else qualify_tokens_loop func name toks number
                (ns[0 := add_number_to_set (nat number) (ns ! 0)]))"

definition qualify_tokens ::
    "string \<Rightarrow> number_set_array \<Rightarrow> (string \<Rightarrow> int) \<Rightarrow> string \<Rightarrow> die + number_set_array" where
  "qualify_tokens str ns func name =
     (let ns = clear_number_set_array ns 1;
          (s, ns) = invert_leading 1 str ns
      in if s = ''none'' then Inr ns
         else if s = ''all'' then Inr (invert_number_set_array ns 1)
         else rbind (qualify_tokens_loop func name (tokens '','' s) (- 1) ns)
           (\<lambda>(number, ns). if number < 0 then Inl (Die (''invalid '' @ name @ '' '' @ quoted str))
              else Inr ns))"

section \<open>Growing arrays of sets\<close>

text \<open>\<open>grown S ns ns'\<close>: the array \<open>ns'\<close> is \<open>ns\<close> with the numbers \<open>S p\<close> added to set \<open>p\<close>.\<close>

definition nsa_wf :: "nat \<Rightarrow> number_set_array \<Rightarrow> bool" where
  "nsa_wf k ns \<longleftrightarrow> length ns = k \<and> list_all ns_wf ns"

definition grown :: "(nat \<Rightarrow> nat set) \<Rightarrow> number_set_array \<Rightarrow> number_set_array \<Rightarrow> bool" where
  "grown S ns ns' \<longleftrightarrow> length ns' = length ns \<and>
     (\<forall>p < length ns. ns_wf (ns ! p) \<longrightarrow> ns_wf (ns' ! p) \<and>
        ns_bits (ns' ! p) = ns_bits (ns ! p) \<union> S p \<and> ns_not (ns' ! p) = ns_not (ns ! p))"

definition at_pers :: "nat \<Rightarrow> nat set \<Rightarrow> nat \<Rightarrow> nat set" where
  "at_pers p N = (\<lambda>q. if q = p then N else {})"

lemma grown_refl: "grown (\<lambda>_. {}) ns ns"
  by (simp add: grown_def)

lemma grown_trans:
  "grown S ns ns' \<Longrightarrow> grown T ns' ns'' \<Longrightarrow> grown (\<lambda>p. S p \<union> T p) ns ns''"
  by (auto simp: grown_def)

lemma grown_add: "grown (at_pers p {n}) ns (add_number_to_set_array n ns p)"
  by (auto simp: grown_def at_pers_def add_number_to_set_array_def nth_list_update)

lemma grown_add_trans:
  assumes "grown (at_pers p N) (add_number_to_set_array n ns p) ns'"
  shows "grown (at_pers p (insert n N)) ns ns'"
proof -
  have "(\<lambda>q. at_pers p {n} q \<union> at_pers p N q) = at_pers p (insert n N)"
    by (rule ext) (simp add: at_pers_def)
  with grown_trans [OF grown_add assms] show ?thesis by simp
qed

lemma grown_at_empty: "grown (at_pers p {}) ns ns"
  by (simp add: grown_def at_pers_def)

section \<open>What a specification denotes\<close>

definition number_denot :: "'a arch_scheme \<Rightarrow> string \<Rightarrow> nat \<Rightarrow> nat set" where
  "number_denot A str p =
     (let nr = nat (string_to_uint str mod 2 ^ 32);
          scno = shuffle_scno_pers A nr p mod 2 ^ 32
      in if scno_pers_is_valid A scno p then {scno}
         else if needs_non_shuffled_check A \<and> scno_pers_is_valid A nr p then {nr} else {})"

definition regex_matches :: "regcomp \<Rightarrow> string \<Rightarrow> string \<Rightarrow> bool" where
  "regex_matches regcomp str nm \<longleftrightarrow> (\<exists>regexec. regcomp str = Inr regexec \<and> regexec nm = REG_MATCH)"

definition pers_denot :: "'a arch_scheme \<Rightarrow> regcomp \<Rightarrow> string \<Rightarrow> nat \<Rightarrow> nat set" where
  "pers_denot A regcomp token p =
     (if token \<noteq> [] \<and> is_digit (hd token) then number_denot A token p
      else if token \<noteq> [] \<and> hd token = CHR ''/''
      then {i. i < nsyscall_vec A ! p \<and>
               (\<exists>nm. sys_name (sysent_vec A ! p ! i) = Some nm \<and> regex_matches regcomp (tl token) nm)}
      else (case find (\<lambda>(val, s). s = token) syscall_class of
              Some (n, _) \<Rightarrow> {i. i < nsyscall_vec A ! p \<and> syscall_in_class A p n i}
            | None \<Rightarrow> {i. i < nsyscall_vec A ! p \<and> sys_name (sysent_vec A ! p ! i) = Some token}))"

definition token_denot :: "'a arch_scheme \<Rightarrow> regcomp \<Rightarrow> string \<Rightarrow> nat \<Rightarrow> nat set" where
  "token_denot A regcomp token =
     (let token = dropWhile (\<lambda>c. c = CHR ''?'') token
      in case qualify_syscall_separate_personality A token of
           Inr (Some (str, p)) \<Rightarrow> at_pers p (pers_denot A regcomp str p)
         | _ \<Rightarrow> (\<lambda>p. if p < SUPPORTED_PERSONALITIES A then pers_denot A regcomp token p else {}))"

lemma qualify_syscall_number_grown:
  "qualify_syscall_number A str p ns = (b, ns') \<Longrightarrow> grown (at_pers p (number_denot A str p)) ns ns'"
  by (auto simp: qualify_syscall_number_def number_denot_def Let_def grown_add grown_at_empty
      split: if_splits)

lemma qualify_syscall_regex_loop_grown:
  "qualify_syscall_regex_loop name regexec str p is found ns = Inr (b, ns') \<Longrightarrow>
     grown (at_pers p {i \<in> set is. \<exists>nm. name i = Some nm \<and> regexec nm = REG_MATCH}) ns ns'"
proof (induction "is" arbitrary: found ns)
  case (Cons i "is")
  let ?M = "\<lambda>is. {i \<in> set is. \<exists>nm. name i = Some nm \<and> regexec nm = REG_MATCH}"
  show ?case
  proof (cases "\<exists>nm. name i = Some nm \<and> regexec nm = REG_MATCH")
    case True
    then have "grown (at_pers p (insert i (?M is))) ns ns'"
      using Cons by (auto intro!: grown_add_trans)
    moreover have "insert i (?M is) = ?M (i # is)" using True by auto
    ultimately show ?thesis by simp
  next
    case False
    then have "grown (at_pers p (?M is)) ns ns'"
      using Cons by (auto split: option.splits regexec_rc.splits)
    moreover have "?M is = ?M (i # is)" using False by auto
    ultimately show ?thesis by simp
  qed
qed (simp add: grown_at_empty)

lemma fold_add_grown:
  "grown (at_pers p {i \<in> set is. P i}) ns
     (fold (\<lambda>i ns. if P i then add_number_to_set_array i ns p else ns) is ns)"
proof (induction "is" arbitrary: ns)
  case (Cons i "is")
  have "{j \<in> set (i # is). P j} = (if P i then insert i {j \<in> set is. P j} else {j \<in> set is. P j})"
    by auto
  then show ?case using Cons by (auto intro: grown_add_trans)
qed (simp add: grown_at_empty)

lemma qualify_syscall_name_loop_grown:
  assumes "p < SUPPORTED_PERSONALITIES A"
  shows "qualify_syscall_name_loop A s p start found ns = (b, ns') \<Longrightarrow>
    grown (at_pers p {i. start \<le> i \<and> i < nsyscall_vec A ! p \<and>
      sys_name (sysent_vec A ! p ! i) = Some s}) ns ns'"
  using assms
proof (induction A s p start found ns rule: qualify_syscall_name_loop.induct)
  case (1 A s p start found ns)
  let ?N = "\<lambda>start. {i. start \<le> i \<and> i < nsyscall_vec A ! p \<and> sys_name (sysent_vec A ! p ! i) = Some s}"
  show ?case
  proof (cases "scno_by_name A s p start")
    case None
    then have e: "?N start = {}" using scno_by_name_None [OF "1.prems"(2)] by fastforce
    show ?thesis unfolding e using 1 None
      by (simp add: qualify_syscall_name_loop.simps [of A s p start] grown_at_empty)
  next
    case (Some i)
    have e: "?N start = insert i (?N (Suc i))"
      using scno_by_name_Some [OF Some] by (force simp: not_less_eq_eq)
    show ?thesis unfolding e using 1 Some
      by (simp add: qualify_syscall_name_loop.simps [of A s p start] grown_add_trans)
  qed
qed

lemma qualify_syscall_pers_grown:
  assumes "p < SUPPORTED_PERSONALITIES A"
    and "qualify_syscall_pers A regcomp token p ns = Inr (b, ns')"
  shows "grown (at_pers p (pers_denot A regcomp token p)) ns ns'"
proof -
  consider (num) "token \<noteq> [] \<and> is_digit (hd token)"
    | (re) "\<not> (token \<noteq> [] \<and> is_digit (hd token))" "token \<noteq> [] \<and> hd token = CHR ''/''"
    | (nam) "\<not> (token \<noteq> [] \<and> is_digit (hd token))" "\<not> (token \<noteq> [] \<and> hd token = CHR ''/'')"
    by blast
  then show ?thesis
  proof cases
    case num
    then show ?thesis using assms(2) qualify_syscall_number_grown [of A token p ns b ns']
      by (simp add: qualify_syscall_pers_def pers_denot_def)
  next
    case re
    then obtain regexec where r: "regcomp (tl token) = Inr regexec"
      and l: "qualify_syscall_regex_loop (\<lambda>i. sys_name (sysent_vec A ! p ! i)) regexec (tl token) p
            [0..<nsyscall_vec A ! p] False ns = Inr (b, ns')"
      using assms(2)
      by (auto simp: qualify_syscall_pers_def qualify_syscall_regex_def split: sum.splits)
    show ?thesis using qualify_syscall_regex_loop_grown [OF l] re r
      by (simp add: pers_denot_def regex_matches_def)
  next
    case nam
    show ?thesis
    proof (cases "find (\<lambda>(val, s). s = token) syscall_class")
      case None
      have "qualify_syscall_pers A regcomp token p ns = Inr (qualify_syscall_name A token p ns)"
        using nam None unfolding qualify_syscall_pers_def qualify_syscall_class_def by auto
      moreover have "pers_denot A regcomp token p =
          {i. i < nsyscall_vec A ! p \<and> sys_name (sysent_vec A ! p ! i) = Some token}"
        using nam None unfolding pers_denot_def by auto
      ultimately show ?thesis
        using assms(2) qualify_syscall_name_loop_grown [OF assms(1), of token 0 False ns b ns']
        by (simp add: qualify_syscall_name_def)
    next
      case (Some c)
      obtain n nm where c: "c = (n, nm)" by fastforce
      let ?f = "fold (\<lambda>i ns. if syscall_in_class A p n i then add_number_to_set_array i ns p else ns)
                   [0..<nsyscall_vec A ! p] ns"
      have "qualify_syscall_pers A regcomp token p ns = Inr (True, ?f)"
        using nam Some c unfolding qualify_syscall_pers_def qualify_syscall_class_def by auto
      moreover have "pers_denot A regcomp token p = {i. i < nsyscall_vec A ! p \<and> syscall_in_class A p n i}"
        using nam Some c unfolding pers_denot_def by auto
      ultimately show ?thesis
        using assms(2) fold_add_grown [of p "[0..<nsyscall_vec A ! p]" "syscall_in_class A p n" ns]
        by simp
    qed
  qed
qed

lemma qualify_syscall_all_pers_grown:
  assumes "qualify_syscall_all_pers A regcomp token ps rc ns = Inr (b, ns')"
    and "\<forall>p \<in> set ps. p < SUPPORTED_PERSONALITIES A"
  shows "grown (\<lambda>p. if p \<in> set ps then pers_denot A regcomp token p else {}) ns ns'"
  using assms
proof (induction ps arbitrary: rc ns)
  case (Cons p ps)
  then obtain b1 ns1 where s: "qualify_syscall_pers A regcomp token p ns = Inr (b1, ns1)"
    "qualify_syscall_all_pers A regcomp token ps (rc \<or> b1) ns1 = Inr (b, ns')"
    by (auto simp: rbind_Inr_iff)
  have p: "p < SUPPORTED_PERSONALITIES A" using Cons.prems by simp
  from grown_trans [OF qualify_syscall_pers_grown [OF p s(1)] Cons.IH [OF s(2)]] Cons.prems(2)
  have "grown (\<lambda>q. at_pers p (pers_denot A regcomp token p) q \<union>
      (if q \<in> set ps then pers_denot A regcomp token q else {})) ns ns'" by simp
  moreover have "(\<lambda>q. at_pers p (pers_denot A regcomp token p) q \<union>
      (if q \<in> set ps then pers_denot A regcomp token q else {})) =
      (\<lambda>q. if q \<in> set (p # ps) then pers_denot A regcomp token q else {})"
    by (rule ext) (auto simp: at_pers_def)
  ultimately show ?case by simp
qed (simp add: grown_refl)

lemma separate_personality_less:
  "qualify_syscall_separate_personality A s = Inr (Some (str, p)) \<Longrightarrow> p < SUPPORTED_PERSONALITIES A"
  by (auto simp: qualify_syscall_separate_personality_def find_upt_Some split: option.splits)

lemma qualify_syscall_grown:
  assumes "qualify_syscall A regcomp token ns = Inr (b, ns')"
  shows "grown (token_denot A regcomp token) ns ns'"
proof -
  define tok where "tok = dropWhile (\<lambda>c. c = CHR ''?'') token"
  obtain sp where sp: "qualify_syscall_separate_personality A tok = Inr sp"
    using assms by (auto simp: qualify_syscall_def Let_def rbind_Inr_iff tok_def)
  show ?thesis
  proof (cases sp)
    case None
    have "(\<lambda>p. if p \<in> set [0..<SUPPORTED_PERSONALITIES A] then pers_denot A regcomp tok p else {}) =
        token_denot A regcomp token"
      using sp None by (simp add: token_denot_def tok_def [symmetric])
    then show ?thesis
      using assms sp None qualify_syscall_all_pers_grown
        [of A regcomp tok "[0..<SUPPORTED_PERSONALITIES A]" _ ns b ns']
      by (simp add: qualify_syscall_def Let_def tok_def [symmetric])
  next
    case (Some strp)
    obtain str p where strp: "strp = (str, p)" by fastforce
    have "p < SUPPORTED_PERSONALITIES A" using separate_personality_less sp Some strp by blast
    moreover obtain b' where "qualify_syscall_pers A regcomp str p ns = Inr (b', ns')"
      using assms sp Some strp by (auto simp: qualify_syscall_def Let_def tok_def [symmetric] rbind_Inr_iff)
    ultimately have "grown (at_pers p (pers_denot A regcomp str p)) ns ns'"
      by (rule qualify_syscall_pers_grown)
    then show ?thesis using sp Some strp by (simp add: token_denot_def tok_def [symmetric])
  qed
qed

lemma qualify_syscall_loop_grown:
  "qualify_syscall_loop A regcomp toks done0 ns = Inr (b, ns') \<Longrightarrow>
     grown (\<lambda>p. \<Union>tok \<in> set toks. token_denot A regcomp tok p) ns ns'"
proof (induction toks arbitrary: done0 ns)
  case (Cons tok toks)
  then obtain ns1 where s: "qualify_syscall A regcomp tok ns = Inr (True, ns1)"
    "qualify_syscall_loop A regcomp toks True ns1 = Inr (b, ns')"
    by (auto simp: rbind_Inr_iff split: if_splits)
  show ?case using grown_trans [OF qualify_syscall_grown [OF s(1)] Cons.IH [OF s(2)]] by simp
qed (simp add: grown_refl)

lemma length_invert_array [simp]: "length (invert_number_set_array ns n) = length ns"
  by (simp add: invert_number_set_array_def)

lemma nth_invert_array:
  "p < n \<Longrightarrow> p < length ns \<Longrightarrow> invert_number_set_array ns n ! p = invert_number_set (ns ! p)"
  by (simp add: invert_number_set_array_def nth_append)

lemma length_clear_array [simp]: "length (clear_number_set_array ns n) = length ns"
  by (simp add: clear_number_set_array_def)

lemma nth_clear_array:
  "p < n \<Longrightarrow> p < length ns \<Longrightarrow> clear_number_set_array ns n ! p = clear_number_set (ns ! p)"
  by (simp add: clear_number_set_array_def nth_append)

definition spec_body :: "string \<Rightarrow> string" where
  "spec_body str = dropWhile (\<lambda>c. c = CHR ''!'') str"

definition spec_neg :: "string \<Rightarrow> bool" where
  "spec_neg str \<longleftrightarrow> odd (length (takeWhile (\<lambda>c. c = CHR ''!'') str))"

lemma invert_leading_spec:
  assumes "invert_leading n str ns = (s, ns')" "p < n" "p < length ns"
  shows "s = spec_body str \<and> length ns' = length ns \<and> ns_bits (ns' ! p) = ns_bits (ns ! p) \<and>
    ns_wf (ns' ! p) = ns_wf (ns ! p) \<and> ns_not (ns' ! p) = (spec_neg str \<noteq> ns_not (ns ! p))"
  using assms
  by (induction str arbitrary: ns)
    (auto simp: spec_body_def spec_neg_def nth_invert_array split: if_splits)

lemma cleared_and_inverted:
  assumes "invert_leading n str (clear_number_set_array ns n) = (s, ns')" "nsa_wf n ns" "p < n"
  shows "s = spec_body str \<and> length ns' = n \<and> ns_bits (ns' ! p) = {} \<and> ns_wf (ns' ! p) \<and>
    ns_not (ns' ! p) = spec_neg str"
  using invert_leading_spec [OF assms(1,3)] assms(2,3)
  by (simp add: nsa_wf_def list_all_length nth_clear_array)

text \<open>Whether the specification \<open>str\<close> selects number \<open>n\<close>, given what its tokens denote.\<close>

definition spec_selects :: "string \<Rightarrow> (string \<Rightarrow> nat set) \<Rightarrow> nat \<Rightarrow> bool" where
  "spec_selects str denot n \<longleftrightarrow>
     (spec_body str \<noteq> ''none'' \<and>
      (spec_body str = ''all'' \<or> (\<exists>tok \<in> set (tokens '','' (spec_body str)). n \<in> denot tok)))
     \<noteq> spec_neg str"

lemma spec_selects_special:
  "spec_body str = ''none'' \<Longrightarrow> spec_selects str denot n = spec_neg str"
  "spec_body str = ''all'' \<Longrightarrow> spec_selects str denot n = (\<not> spec_neg str)"
  "spec_body str \<notin> {''none'', ''all''} \<Longrightarrow> spec_selects str denot n =
     ((\<exists>tok \<in> set (tokens '','' (spec_body str)). n \<in> denot tok) \<noteq> spec_neg str)"
  by (auto simp: spec_selects_def)

lemma qualify_syscall_tokens_step:
  assumes "nsa_wf (SUPPORTED_PERSONALITIES A) ns" "p < SUPPORTED_PERSONALITIES A"
    and "qualify_syscall_tokens A regcomp str ns = Inr ns'"
  shows "length ns' = SUPPORTED_PERSONALITIES A \<and> ns_wf (ns' ! p) \<and>
    (ns_test n (ns' ! p) \<longleftrightarrow> spec_selects str (\<lambda>tok. token_denot A regcomp tok p) n)"
proof -
  let ?k = "SUPPORTED_PERSONALITIES A"
  obtain s ns1 where l: "invert_leading ?k str (clear_number_set_array ns ?k) = (s, ns1)"
    by fastforce
  note c = cleared_and_inverted [OF l assms(1,2)]
  consider (none) "s = ''none''" | (all) "s = ''all''" | (toks) "s \<notin> {''none'', ''all''}" by blast
  then show ?thesis
  proof cases
    case none
    then have "ns' = ns1" using assms(3) l by (simp add: qualify_syscall_tokens_def)
    then show ?thesis using c none by (simp add: ns_test_bits spec_selects_special)
  next
    case all
    then have "ns' = invert_number_set_array ns1 ?k"
      using assms(3) l by (simp add: qualify_syscall_tokens_def)
    then show ?thesis
      using c all assms(2) by (simp add: ns_test_bits spec_selects_special nth_invert_array)
  next
    case toks
    then obtain b where "qualify_syscall_loop A regcomp (tokens '','' s) False ns1 = Inr (b, ns')"
      using assms(3) l by (auto simp: qualify_syscall_tokens_def rbind_Inr_iff split: if_splits)
    from qualify_syscall_loop_grown [OF this] toks c assms(2)
    show ?thesis by (auto simp: grown_def ns_test_bits spec_selects_special)
  qed
qed

text \<open>Which tokens a number specification fails on.\<close>

lemma qualify_tokens_loop_result:
  assumes "ns_wf (ns ! 0)" "length ns = 1"
  shows "qualify_tokens_loop func name toks number ns =
    (case find (\<lambda>t. func t < 0) toks of
       Some t \<Rightarrow> Inl (Die (''invalid '' @ name @ '' '' @ quoted t))
     | None \<Rightarrow> Inr (if toks = [] then number else func (last toks),
                    [fold add_number_to_set (map (nat \<circ> func) toks) (ns ! 0)]))"
  using assms
proof (induction toks arbitrary: number ns)
  case Nil
  then show ?case by (cases ns) simp_all
next
  case (Cons t toks)
  then show ?case by (auto simp: Let_def split: option.splits)
qed

lemma qualify_tokens_special:
  assumes "nsa_wf 1 ns" "spec_body str \<in> {''none'', ''all''}"
  shows "\<exists>ns'. qualify_tokens str ns func name = Inr ns'"
proof -
  obtain s ns1 where l: "invert_leading 1 str (clear_number_set_array ns 1) = (s, ns1)"
    by fastforce
  show ?thesis
    using cleared_and_inverted [OF l assms(1), of 0] l assms(2) by (auto simp: qualify_tokens_def)
qed

lemma qualify_tokens_eq:
  assumes "nsa_wf 1 ns" "spec_body str \<notin> {''none'', ''all''}"
  shows "qualify_tokens str ns func name =
    (let toks = tokens '','' (spec_body str) in
     if toks = [] then Inl (Die (''invalid '' @ name @ '' '' @ quoted str))
     else case find (\<lambda>t. func t < 0) toks of
       Some t \<Rightarrow> Inl (Die (''invalid '' @ name @ '' '' @ quoted t))
     | None \<Rightarrow> Inr [fold add_number_to_set (map (nat \<circ> func) toks)
          (snd (invert_leading 1 str (clear_number_set_array ns 1)) ! 0)])"
proof -
  obtain s ns1 where l: "invert_leading 1 str (clear_number_set_array ns 1) = (s, ns1)"
    by fastforce
  note c = cleared_and_inverted [OF l assms(1), of 0]
  have "\<not> func (last toks) < 0" if "find (\<lambda>t. func t < 0) toks = None" "toks \<noteq> []" for toks
    using that by (simp add: find_None_iff)
  then show ?thesis using c l assms(2)
    by (auto simp: qualify_tokens_def Let_def qualify_tokens_loop_result split: option.splits)
qed

lemmas string_eval = tokens.simps strtok_r_def strrchr_split_def strchr_split_def
  string_to_uint_def string_to_uint_upto_def string_to_uint_ex_def strtoll10_def char_eval
  strip_sign_def

lemmas syscall_spec_eval = qualify_syscall_tokens_def clear_number_set_array_def
  invert_number_set_array_def qualify_syscall_def qualify_syscall_separate_personality_def
  qualify_syscall_pers_def qualify_syscall_class_def syscall_class_def qualify_syscall_name_def
  qualify_syscall_name_loop.simps scno_by_name_def add_number_to_set_array_def
  qualify_syscall_number_def scno_pers_is_valid_def scno_pers_in_range_def

section \<open>Properties\<close>

text \<open>C7: When a system call specification is accepted, the set of each personality selects
  exactly the numbers the specification denotes there, whatever the sets held before: the
  union over the tokens of the number, the matches of the regular expression, the members
  of the class or the calls of that name (restricted to the personality of an \<^verbatim>\<open>@\<close> suffix),
  inverted once per leading exclamation mark.\<close>

theorem qualify_syscall_tokens_correct:
  assumes "nsa_wf (SUPPORTED_PERSONALITIES A) ns" "p < SUPPORTED_PERSONALITIES A"
    and "qualify_syscall_tokens A regcomp str ns = Inr ns'"
  shows "is_number_in_set_array n (Some ns') p
    \<longleftrightarrow> spec_selects str (\<lambda>tok. token_denot A regcomp tok p) n"
  using qualify_syscall_tokens_step [OF assms] by (simp add: is_number_in_set_array_def)

theorem qualify_syscall_tokens_correct_witness:
  "\<exists>ns'. qualify_syscall_tokens small_arch (\<lambda>_. Inl ''none'') ''!write@64,1@32''
      [empty_number_set, empty_number_set] = Inr ns' \<and>
    is_number_in_set_array 1 (Some ns') 0 =
      spec_selects ''!write@64,1@32''
        (\<lambda>tok. token_denot small_arch (\<lambda>_. Inl ''none'') tok 0) 1"
proof -
  let ?w = "add_number_to_set 1 (invert_number_set (clear_number_set empty_number_set))"
  have wf: "nsa_wf (SUPPORTED_PERSONALITIES small_arch) [empty_number_set, empty_number_set]"
    by (simp add: nsa_wf_def small_arch_def)
  have r: "qualify_syscall_tokens small_arch (\<lambda>_. Inl ''none'') ''!write@64,1@32''
      [empty_number_set, empty_number_set] = Inr [?w, ?w]"
    by (simp add: string_eval syscall_spec_eval small_arch_def entry_def upt_rec)
  show ?thesis
    using qualify_syscall_tokens_correct [OF wf _ r, of 0 1] r by (simp add: small_arch_def)
qed

text \<open>C34: A number specification with a valid token list is accepted, and the resulting set
  selects exactly the numbers of its tokens, or, after an odd number of leading exclamation
  marks, exactly the other ones; \<^verbatim>\<open>none\<close> selects nothing and \<^verbatim>\<open>all\<close> everything.\<close>

theorem qualify_tokens_correct:
  assumes "nsa_wf 1 ns"
    and "spec_body str \<in> {''none'', ''all''} \<or> tokens '','' (spec_body str) \<noteq> [] \<and>
      (\<forall>tok \<in> set (tokens '','' (spec_body str)). 0 \<le> func tok)"
  shows "\<exists>ns'. qualify_tokens str ns func name = Inr ns' \<and> nsa_wf 1 ns' \<and>
    (\<forall>n. is_number_in_set n (Some ns') \<longleftrightarrow> spec_selects str (\<lambda>tok. {nat (func tok)}) n)"
proof -
  obtain s ns1 where l: "invert_leading 1 str (clear_number_set_array ns 1) = (s, ns1)"
    by fastforce
  note c = cleared_and_inverted [OF l assms(1), of 0]
  obtain t where t: "ns1 = [t]" using c by (cases ns1) auto
  consider (none) "s = ''none''" | (all) "s = ''all''" | (toks) "s \<notin> {''none'', ''all''}" by blast
  then show ?thesis
  proof cases
    case none
    then show ?thesis using c l t
      by (simp add: qualify_tokens_def is_number_in_set_def ns_test_bits spec_selects_special nsa_wf_def)
  next
    case all
    then show ?thesis using c l t
      by (simp add: qualify_tokens_def is_number_in_set_def ns_test_bits spec_selects_special
          nsa_wf_def invert_number_set_array_def)
  next
    case toks
    let ?toks = "tokens '','' (spec_body str)"
    have "find (\<lambda>t. func t < 0) ?toks = None" "?toks \<noteq> []"
      using assms(2) toks c by (auto simp: find_None_iff not_less)
    moreover have "ns_test n (fold add_number_to_set (map (nat \<circ> func) ?toks) t)
        \<longleftrightarrow> spec_selects str (\<lambda>tok. {nat (func tok)}) n" for n
      using ns.fold_add [of t "map (nat \<circ> func) ?toks"] c t toks
      by (auto simp: ns_test_bits spec_selects_special)
    ultimately show ?thesis
      using toks c l t ns.fold_add [of t "map (nat \<circ> func) ?toks"]
      by (simp add: qualify_tokens_eq [OF assms(1)] is_number_in_set_def nsa_wf_def)
  qed
qed

theorem qualify_tokens_correct_witness:
  "\<exists>ns'. qualify_tokens ''!1,2'' [empty_number_set] string_to_uint ''descriptor'' = Inr ns' \<and>
     nsa_wf 1 ns' \<and> (\<forall>n. is_number_in_set n (Some ns') \<longleftrightarrow>
       spec_selects ''!1,2'' (\<lambda>tok. {nat (string_to_uint tok)}) n)"
  by (rule qualify_tokens_correct) (simp_all add: nsa_wf_def spec_body_def string_eval)

text \<open>A number specification other than \<^verbatim>\<open>none\<close> and \<^verbatim>\<open>all\<close> is refused exactly when it has no
  token or a token the callback does not know; the message names the first such token, or
  the whole specification when there is no token.\<close>

lemma qualify_tokens_error:
  assumes "nsa_wf 1 ns"
  shows "qualify_tokens str ns func name = Inl e \<longleftrightarrow>
    spec_body str \<notin> {''none'', ''all''} \<and>
    (case find (\<lambda>t. func t < 0) (tokens '','' (spec_body str)) of
       Some t \<Rightarrow> e = Die (''invalid '' @ name @ '' '' @ quoted t)
     | None \<Rightarrow> tokens '','' (spec_body str) = [] \<and>
               e = Die (''invalid '' @ name @ '' '' @ quoted str))"
proof (cases "spec_body str \<in> {''none'', ''all''}")
  case True
  then show ?thesis
    using qualify_tokens_special [OF assms True, of func name] by auto
next
  case False
  then show ?thesis by (auto simp: qualify_tokens_eq [OF assms False] Let_def split: option.splits)
qed

end
