(* ===== verification/Time_Util.thy ===== *)
theory Time_Util
  imports Sysent
begin

text \<open>
  The arithmetic helpers of \<^verbatim>\<open>src/src/util.c\<close>: time specifications and their parser,
  the decimal logarithm and the search for set bits. \<^verbatim>\<open>time_t\<close> and \<^verbatim>\<open>long\<close> values are
  integers; the conversions to and from \<^verbatim>\<open>uint64_t\<close> that \<^verbatim>\<open>ts_div\<close> makes are written out.
\<close>

section \<open>Time values\<close>

record timespec =
  tv_sec :: int
  tv_nsec :: int

definition ts_nz :: "timespec \<Rightarrow> bool" where
  "ts_nz a \<longleftrightarrow> tv_sec a \<noteq> 0 \<or> tv_nsec a \<noteq> 0"

definition ts_cmp :: "timespec \<Rightarrow> timespec \<Rightarrow> int" where
  "ts_cmp a b =
     (if tv_sec a < tv_sec b \<or> (tv_sec a = tv_sec b \<and> tv_nsec a < tv_nsec b) then - 1
      else if tv_sec a > tv_sec b \<or> (tv_sec a = tv_sec b \<and> tv_nsec a > tv_nsec b) then 1
      else 0)"

definition ts_add :: "timespec \<Rightarrow> timespec \<Rightarrow> timespec" where
  "ts_add a b =
     (let tv = \<lparr>tv_sec = tv_sec a + tv_sec b, tv_nsec = tv_nsec a + tv_nsec b\<rparr>
      in if tv_nsec tv \<ge> 1000000000
         then \<lparr>tv_sec = tv_sec tv + 1, tv_nsec = tv_nsec tv - 1000000000\<rparr> else tv)"

definition ts_sub :: "timespec \<Rightarrow> timespec \<Rightarrow> timespec" where
  "ts_sub a b =
     (let tv = \<lparr>tv_sec = tv_sec a - tv_sec b, tv_nsec = tv_nsec a - tv_nsec b\<rparr>
      in if tv_nsec tv < 0
         then \<lparr>tv_sec = tv_sec tv - 1, tv_nsec = tv_nsec tv + 1000000000\<rparr> else tv)"

definition to_s64 :: "int \<Rightarrow> int" where
  "to_s64 x = (x + 2 ^ 63) mod 2 ^ 64 - 2 ^ 63"

definition ts_div :: "timespec \<Rightarrow> int \<Rightarrow> timespec" where
  "ts_div a n =
     (let sec = tv_sec a mod 2 ^ 64;
          nsec = to_s64 (((sec mod n * 1000000000) + tv_nsec a + n div 2) mod 2 ^ 64 div n)
      in \<lparr>tv_sec = to_s64 (sec div n + nsec div 1000000000), tv_nsec = nsec mod 1000000000\<rparr>)"

definition ts_min :: "timespec \<Rightarrow> timespec \<Rightarrow> timespec" where
  "ts_min a b = (if ts_cmp a b < 0 then a else b)"

definition ts_max :: "timespec \<Rightarrow> timespec \<Rightarrow> timespec" where
  "ts_max a b = (if ts_cmp a b > 0 then a else b)"

section \<open>Parsing of time values\<close>

definition timescale_units :: "xlat_data list" where
  "timescale_units =
     [(1000000000 OR push_bit 32 0, ''s''), (1000000 OR push_bit 32 3, ''ms''),
      (1000 OR push_bit 32 6, ''us''), (1 OR push_bit 32 9, ''ns'')]"

text \<open>The scale and, when it is found, the width; the scale is an \<^verbatim>\<open>int\<close>.\<close>

definition str2timescale_ex :: "string option \<Rightarrow> int \<Rightarrow> int \<Rightarrow> int \<times> nat option" where
  "str2timescale_ex arg empty_dflt null_dflt =
     (case arg of None \<Rightarrow> (null_dflt, None)
      | Some a \<Rightarrow>
          if a = [] then (empty_dflt, None)
          else let res = find_arg_val (Some a) timescale_units (word_of_int null_dflt) (- 1)
            in (sint (ucast res :: u32), if res \<noteq> - 1 then Some (unat (drop_bit 32 res)) else None))"

text \<open>
  \<^verbatim>\<open>parse_ts\<close>. A specification with a sign, a point or an exponent goes through
  \<^verbatim>\<open>strtod\<close> and arithmetic on \<^verbatim>\<open>double\<close>: this branch is the argument \<open>float_ts\<close>, which
  yields the value for a scale and the position after the number, or \<open>None\<close> when the number
  is refused.
\<close>

definition parse_ts ::
    "(string \<Rightarrow> ((int \<Rightarrow> timespec) \<times> string) option) \<Rightarrow> string \<Rightarrow> timespec option" where
  "parse_ts float_ts s =
     (let float_len = length (takeWhile (\<lambda>c. c \<in> set ''eE.-+0123456789'') s);
          int_len = length (takeWhile (\<lambda>c. c \<in> set ''+0123456789'') s)
      in if float_len > int_len then
           (case float_ts s of None \<Rightarrow> None
            | Some (f, endptr) \<Rightarrow>
                let scale = fst (str2timescale_ex (Some endptr) 1000 (- 1))
                in if scale \<le> 0 then None else Some (f scale))
         else
           (case string_to_uint_ex s LLONG_MAX (Some ''smun'') of None \<Rightarrow> None
            | Some (int_val, endptr) \<Rightarrow>
                let scale = fst (str2timescale_ex (Some endptr) 1000 (- 1))
                in if scale \<le> 0 then None
                   else Some \<lparr>tv_sec = int_val div (1000000000 div scale),
                              tv_nsec = (int_val mod (1000000000 div scale)) * scale\<rparr>))"

section \<open>Logarithm and bits\<close>

definition ilog10_iter :: "nat \<Rightarrow> nat \<Rightarrow> nat \<times> nat \<Rightarrow> nat \<times> nat" where
  "ilog10_iter d pow = (\<lambda>(val, ret). if val \<ge> d then (val div d, ret + pow) else (val, ret))"

definition ilog10 :: "nat \<Rightarrow> nat" where
  "ilog10 val =
     snd (ilog10_iter 10 1 (ilog10_iter 100 2 (ilog10_iter 10000 4
       (ilog10_iter 100000000 8 (ilog10_iter 10000000000000000 16 (val, 0))))))"

text \<open>
  \<^verbatim>\<open>next_set_bit\<close> on a little-endian machine, where \<^verbatim>\<open>pos ^ pos_xor_mask\<close> is \<^verbatim>\<open>pos\<close>: the inner
  loop walks one byte and tells whether it found a bit, ran past the limit or reached
  the end of the byte.
\<close>

datatype byte_scan = Found nat | Past | Next nat

function scan_byte :: "u8 \<Rightarrow> u8 \<Rightarrow> nat \<Rightarrow> nat \<Rightarrow> byte_scan" where
  "scan_byte cur_byte bitmask cur_bit size_bits =
     (if cur_byte AND bitmask \<noteq> 0 then Found cur_bit
      else if cur_bit + 1 \<ge> size_bits then Past
      else if push_bit 1 bitmask = 0 then Next (cur_bit + 1)
      else scan_byte cur_byte (push_bit 1 bitmask) (cur_bit + 1) size_bits)"
  by pat_completeness auto
termination
  by (relation "measure (\<lambda>(b, m, cur, size). size - cur)") auto

declare scan_byte.simps [simp del]

lemma scan_byte_Next: "scan_byte b m cur lim = Next n \<Longrightarrow> cur < n \<and> n < lim"
proof (induction b m cur lim rule: scan_byte.induct)
  case (1 b m cur lim)
  then show ?case
    using scan_byte.simps [of b m cur lim] by (auto split: if_splits)
qed

function next_set_bit_loop :: "u8 list \<Rightarrow> nat \<Rightarrow> nat \<Rightarrow> nat \<Rightarrow> nat option" where
  "next_set_bit_loop array pos cur_bit size_bits =
     (if cur_bit \<ge> size_bits then None
      else if array ! pos = 0
      then next_set_bit_loop array (pos + 1) (8 * ((cur_bit + 8) div 8)) size_bits
      else case scan_byte (array ! pos) (push_bit (cur_bit mod 8) 1) cur_bit size_bits of
             Found i \<Rightarrow> Some i
           | Past \<Rightarrow> None
           | Next cur \<Rightarrow> next_set_bit_loop array (pos + 1) cur size_bits)"
  by pat_completeness auto
termination
  by (relation "measure (\<lambda>(a, pos, cur, size). size - cur)") (auto dest!: scan_byte_Next)

declare next_set_bit_loop.simps [simp del]

definition next_set_bit :: "u8 list \<Rightarrow> nat \<Rightarrow> nat \<Rightarrow> nat option" where
  "next_set_bit bit_array cur_bit size_bits =
     next_set_bit_loop bit_array (cur_bit div 8) cur_bit size_bits"

section \<open>Facts\<close>

lemma push_bit_mask_0: "j < 8 \<Longrightarrow> push_bit 1 (2 ^ j :: u8) = 0 \<longleftrightarrow> j = 7"
proof -
  assume "j < 8"
  have "push_bit 1 (2 ^ j :: u8) = 2 ^ Suc j" by (simp add: push_bit_eq_mult)
  also have "\<dots> = 0 \<longleftrightarrow> 8 \<le> Suc j" unfolding exp_eq_zero_iff by simp
  finally show ?thesis using \<open>j < 8\<close> by linarith
qed

lemma find_upt_rec:
  "find P [a..<b] = (if a < b then if P a then Some a else find P [Suc a..<b] else None)"
  by (simp add: upt_conv_Cons)

lemma find_upt_skip:
  assumes "a \<le> c" "\<And>i. a \<le> i \<Longrightarrow> i < c \<Longrightarrow> i < b \<Longrightarrow> \<not> P i"
  shows "find P [a..<b] = find P [c..<b]"
proof (cases "find P [c..<b]")
  case None
  then have "find P [a..<b] = None"
    using assms(2) unfolding find_upt_None by (meson not_le)
  with None show ?thesis by simp
next
  case (Some i)
  then have "find P [a..<b] = Some i"
    using assms unfolding find_upt_Some by (meson le_trans not_le less_trans)
  with Some show ?thesis by simp
qed

lemma scan_byte_find:
  assumes "j < 8" "cur < lim" "m = min 8 (j + (lim - cur))"
  shows "scan_byte b (2 ^ j) cur lim =
    (case find (bit b) [j..<m] of
       Some k \<Rightarrow> Found (cur + (k - j))
     | None \<Rightarrow> if lim \<le> cur + (8 - j) then Past else Next (cur + (8 - j)))"
  using assms
proof (induction "8 - j" arbitrary: j cur)
  case (Suc d)
  have step: "scan_byte b (2 ^ j) cur lim =
      (if bit b j then Found cur else if lim \<le> Suc cur then Past
       else if j = 7 then Next (Suc cur) else scan_byte b (2 ^ Suc j) (Suc cur) lim)"
    using Suc.prems push_bit_mask_0 [of j]
    by (subst scan_byte.simps) (simp add: and_exp_neq_0 push_bit_eq_mult mult.commute)
  have "j < m" using Suc.prems by linarith
  consider (hit) "bit b j" | (past) "\<not> bit b j" "lim \<le> Suc cur"
    | (last) "\<not> bit b j" "Suc cur < lim" "j = 7" | (rec) "\<not> bit b j" "Suc cur < lim" "j < 7"
    using Suc.prems by linarith
  then show ?case
  proof cases
    case hit
    then show ?thesis using step \<open>j < m\<close> by (simp add: find_upt_rec [of _ j])
  next
    case past
    then have "\<not> Suc j < m" using Suc.prems by linarith
    then show ?thesis
      using past step \<open>j < m\<close> Suc.prems by (simp add: find_upt_rec [of _ j] find_upt_rec [of _ "Suc j"])
  next
    case last
    then have "\<not> Suc j < m" using Suc.prems by linarith
    then show ?thesis
      using last step \<open>j < m\<close> Suc.prems by (simp add: find_upt_rec [of _ j] find_upt_rec [of _ "Suc j"])
  next
    case rec
    have "m = min 8 (Suc j + (lim - Suc cur))" "d = 8 - Suc j" "Suc j < 8"
      using rec Suc by linarith+
    then have ih: "scan_byte b (2 ^ Suc j) (Suc cur) lim = (case find (bit b) [Suc j..<m] of
         Some k \<Rightarrow> Found (Suc cur + (k - Suc j))
       | None \<Rightarrow> if lim \<le> Suc cur + (8 - Suc j) then Past else Next (Suc cur + (8 - Suc j)))"
      using rec by (intro Suc.hyps(1))
    have eq: "scan_byte b (2 ^ j) cur lim = scan_byte b (2 ^ Suc j) (Suc cur) lim"
      "find (bit b) [j..<m] = find (bit b) [Suc j..<m]"
      using step rec \<open>j < m\<close> find_upt_rec [of "bit b" j m] by simp_all
    show ?thesis
    proof (cases "find (bit b) [Suc j..<m]")
      case None
      moreover have "Suc cur + (8 - Suc j) = cur + (8 - j)" using rec by linarith
      ultimately show ?thesis unfolding eq ih by (simp only: option.case)
    next
      case (Some k)
      then have "Suc j \<le> k" by (simp only: find_upt_Some)
      then show ?thesis unfolding eq ih using Some by simp
    qed
  qed
qed simp

lemma find_shift:
  assumes "\<And>i. i < d \<Longrightarrow> P (a + i) = Q (b + i)"
  shows "find P [a..<a + d] = map_option (\<lambda>k. a + (k - b)) (find Q [b..<b + d])"
  using assms
proof (induction d arbitrary: a b)
  case (Suc d)
  have pq: "P a = Q b" using Suc.prems [of 0] by simp
  have ih: "find P [Suc a..<Suc a + d] =
      map_option (\<lambda>k. Suc a + (k - Suc b)) (find Q [Suc b..<Suc b + d])"
    by (rule Suc.IH) (use Suc.prems [of "Suc _"] in simp)
  have k: "Suc a + (k - Suc b) = a + (k - b)" if "find Q [Suc b..<Suc b + d] = Some k" for k
  proof -
    have "Suc b \<le> k" using that unfolding find_upt_Some by blast
    then show ?thesis by linarith
  qed
  have rec: "find P [a..<a + Suc d] = (if P a then Some a else find P [Suc a..<Suc a + d])"
    "find Q [b..<b + Suc d] = (if Q b then Some b else find Q [Suc b..<Suc b + d])"
    using find_upt_rec [of P a "a + Suc d"] find_upt_rec [of Q b "b + Suc d"]
    by (simp_all del: upt_Suc)
  show ?case unfolding rec ih pq
    by (cases "Q b"; cases "find Q [Suc b..<Suc b + d]")
      (simp_all only: if_True if_False option.map k diff_self_eq_0 add_0_right)
qed simp

lemma byte_bit:
  assumes "8 * pos + j + i < 8 * pos + 8"
  shows "bit (a ! ((8 * pos + j + i) div 8)) ((8 * pos + j + i) mod 8) = bit (a ! pos) (j + i)"
proof -
  have "(8 * pos + j + i) div 8 = pos" using assms by (intro div_nat_eqI) simp_all
  moreover have "(8 * pos + j + i) mod 8 = j + i" using assms by (simp add: add.assoc)
  ultimately show ?thesis by simp
qed

lemma next_set_bit_loop_step:
  assumes "cur = 8 * pos + j" "j < 8" "cur < lim" "d = min (8 - j) (lim - cur)"
  shows "next_set_bit_loop a pos cur lim =
    (case find (\<lambda>i. bit (a ! (i div 8)) (i mod 8)) [cur..<cur + d] of
       Some i \<Rightarrow> Some i
     | None \<Rightarrow> if lim \<le> 8 * pos + 8 then None
               else next_set_bit_loop a (pos + 1) (8 * pos + 8) lim)"
proof -
  let ?P = "\<lambda>i. bit (a ! (i div 8)) (i mod 8)"
  have shift: "find ?P [cur..<cur + d] = map_option (\<lambda>k. cur + (k - j)) (find (bit (a ! pos)) [j..<j + d])"
    unfolding assms(1) by (rule find_shift) (rule byte_bit, use assms in linarith)
  show ?thesis
  proof (cases "a ! pos = 0")
    case True
    then have none: "find (bit (a ! pos)) [j..<j + d] = None" by (simp add: find_upt_None)
    have "cur + 8 = 8 * (pos + 1) + j" using assms(1) by simp
    then have nxt: "8 * ((cur + 8) div 8) = 8 * pos + 8"
      using assms(2) by (simp add: div_nat_eqI [of 8 "pos + 1"])
    show ?thesis unfolding shift none using True assms(3)
      by (subst next_set_bit_loop.simps)
        (simp add: nxt, simp add: next_set_bit_loop.simps [of a "Suc pos" "8 * pos + 8"])
  next
    case False
    have m: "j + d = min 8 (j + (lim - cur))" using assms by linarith
    have "cur mod 8 = j" using assms by simp
    then show ?thesis unfolding shift using False assms scan_byte_find [OF assms(2,3) m, of "a ! pos"]
      by (subst next_set_bit_loop.simps) (simp split: option.split)
  qed
qed

lemma next_set_bit_loop_find:
  "pos = cur div 8 \<Longrightarrow>
     next_set_bit_loop a pos cur lim = find (\<lambda>i. bit (a ! (i div 8)) (i mod 8)) [cur..<lim]"
proof (induction "lim - cur" arbitrary: cur pos rule: less_induct)
  case less
  let ?P = "\<lambda>i. bit (a ! (i div 8)) (i mod 8)"
  show ?case
  proof (cases "cur < lim")
    case True
    define j d where "j = cur mod 8" and "d = min (8 - j) (lim - cur)"
    have cur: "cur = 8 * pos + j" "j < 8" using less.prems by (simp_all add: j_def)
    note step = next_set_bit_loop_step [OF cur True d_def, of a]
    have far: "next_set_bit_loop a (pos + 1) (8 * pos + 8) lim = find ?P [8 * pos + 8..<lim]"
      using cur True by (intro less.hyps) simp_all
    show ?thesis
    proof (cases "find ?P [cur..<cur + d]")
      case None
      then have "find ?P [cur..<lim] = find ?P [8 * pos + 8..<lim]"
        using cur(2) by (intro find_upt_skip) (auto simp: find_upt_None cur(1) d_def)
      then show ?thesis using step far None by simp
    next
      case (Some i)
      then have "find ?P [cur..<lim] = Some i" by (auto simp: find_upt_Some d_def)
      then show ?thesis using step Some by simp
    qed
  qed (simp add: next_set_bit_loop.simps [of a pos])
qed

definition ts_wf :: "timespec \<Rightarrow> bool" where
  "ts_wf a \<longleftrightarrow> 0 \<le> tv_nsec a \<and> tv_nsec a < 1000000000"

definition ts_ns :: "timespec \<Rightarrow> int" where
  "ts_ns a = tv_sec a * 1000000000 + tv_nsec a"

lemma to_s64_id: "0 \<le> x \<Longrightarrow> x < 2 ^ 63 \<Longrightarrow> to_s64 x = x"
  by (simp add: to_s64_def)

lemma ilog10_iter_bounds:
  assumes "10 ^ k * v \<le> val" "val < 10 ^ k * (v + 1)" "d = 10 ^ p" "(v', k') = ilog10_iter d p (v, k)"
  shows "10 ^ k' * v' \<le> val \<and> val < 10 ^ k' * (v' + 1)"
proof (cases "d \<le> v")
  case True
  then have v': "v' = v div d" "k' = k + p" using assms(4) by (simp_all add: ilog10_iter_def)
  have "d * v' \<le> v" "v + 1 \<le> d * (v' + 1)"
    using assms(3) by (simp_all add: v' dividend_less_times_div mult.commute Suc_leI)
  then have "10 ^ k * (d * v') \<le> 10 ^ k * v" "10 ^ k * (v + 1) \<le> 10 ^ k * (d * (v' + 1))"
    by (meson mult_le_mono2)+
  moreover have "10 ^ k' * v' = 10 ^ k * (d * v')" "10 ^ k' * (v' + 1) = 10 ^ k * (d * (v' + 1))"
    using v'(2) assms(3) by (simp_all add: power_add algebra_simps)
  ultimately show ?thesis using assms(1,2) by linarith
next
  case False
  then show ?thesis using assms by (simp add: ilog10_iter_def)
qed

lemma ilog10_iter_less:
  "v < d * d \<Longrightarrow> (v', k') = ilog10_iter d p (v, k) \<Longrightarrow> v' < d \<and> (1 \<le> v \<longrightarrow> 1 \<le> v')"
  by (cases "d = 0") (auto simp: ilog10_iter_def less_mult_imp_div_less div_greater_zero_iff
      Suc_le_eq split: if_splits)

lemma ilog10_pow:
  assumes "0 < val" "val < 2 ^ 64"
  shows "10 ^ ilog10 val \<le> val \<and> val < 10 ^ (ilog10 val + 1)"
proof -
  obtain v1 k1 where 1: "(v1, k1) = ilog10_iter 10000000000000000 16 (val, 0)" by (metis surj_pair)
  obtain v2 k2 where 2: "(v2, k2) = ilog10_iter 100000000 8 (v1, k1)" by (metis surj_pair)
  obtain v3 k3 where 3: "(v3, k3) = ilog10_iter 10000 4 (v2, k2)" by (metis surj_pair)
  obtain v4 k4 where 4: "(v4, k4) = ilog10_iter 100 2 (v3, k3)" by (metis surj_pair)
  obtain v5 k5 where 5: "(v5, k5) = ilog10_iter 10 1 (v4, k4)" by (metis surj_pair)
  have k: "ilog10 val = k5"
    unfolding ilog10_def 1 [symmetric] 2 [symmetric] 3 [symmetric] 4 [symmetric] 5 [symmetric] by simp
  have l1: "v1 < 10000000000000000 \<and> (1 \<le> val \<longrightarrow> 1 \<le> v1)"
    by (rule ilog10_iter_less [OF _ 1]) (use assms in simp)
  then have l2: "v2 < 100000000 \<and> (1 \<le> v1 \<longrightarrow> 1 \<le> v2)" by (intro ilog10_iter_less [OF _ 2]) simp
  then have l3: "v3 < 10000 \<and> (1 \<le> v2 \<longrightarrow> 1 \<le> v3)" by (intro ilog10_iter_less [OF _ 3]) simp
  then have l4: "v4 < 100 \<and> (1 \<le> v3 \<longrightarrow> 1 \<le> v4)" by (intro ilog10_iter_less [OF _ 4]) simp
  then have l5: "v5 < 10 \<and> (1 \<le> v4 \<longrightarrow> 1 \<le> v5)" by (intro ilog10_iter_less [OF _ 5]) simp
  have b1: "10 ^ k1 * v1 \<le> val \<and> val < 10 ^ k1 * (v1 + 1)"
    by (rule ilog10_iter_bounds [OF _ _ _ 1]) simp_all
  then have b2: "10 ^ k2 * v2 \<le> val \<and> val < 10 ^ k2 * (v2 + 1)"
    by (intro ilog10_iter_bounds [OF _ _ _ 2]) simp_all
  then have b3: "10 ^ k3 * v3 \<le> val \<and> val < 10 ^ k3 * (v3 + 1)"
    by (intro ilog10_iter_bounds [OF _ _ _ 3]) simp_all
  then have b4: "10 ^ k4 * v4 \<le> val \<and> val < 10 ^ k4 * (v4 + 1)"
    by (intro ilog10_iter_bounds [OF _ _ _ 4]) simp_all
  then have b5: "10 ^ k5 * v5 \<le> val \<and> val < 10 ^ k5 * (v5 + 1)"
    by (intro ilog10_iter_bounds [OF _ _ _ 5]) simp_all
  have "1 \<le> v5" "v5 + 1 \<le> 10" using assms(1) l1 l2 l3 l4 l5 by auto
  then have "10 ^ k5 * 1 \<le> 10 ^ k5 * v5" "10 ^ k5 * (v5 + 1) \<le> 10 ^ k5 * 10"
    by (meson mult_le_mono2)+
  moreover have "10 ^ (k5 + 1) = 10 ^ k5 * (10 :: nat)" by simp
  ultimately show ?thesis using b5 unfolding k by linarith
qed

lemma div_mod_divide: "0 < n \<Longrightarrow> s div n * K + (s mod n * K + r) div n = (s * K + r) div n" for s :: int
proof -
  assume "0 < n"
  have "s * K + r = (s mod n + n * (s div n)) * K + r" by simp
  also have "\<dots> = (s mod n * K + r) + n * (s div n * K)" by (simp only: algebra_simps)
  finally have e: "s * K + r = (s mod n * K + r) + n * (s div n * K)" .
  show ?thesis unfolding e using \<open>0 < n\<close> by (simp only: div_mult_self2)
qed

lemma int_div_less: "0 < n \<Longrightarrow> t < n * k \<Longrightarrow> t div n < k" for n :: int
  using pos_mod_sign [of n t] mult_div_mod_eq [of n t] mult_left_mono [of k "t div n" n]
  by linarith

lemma ts_div_ns:
  assumes "ts_wf a" "0 \<le> tv_sec a" "tv_sec a < 2 ^ 62" "0 < n" "n \<le> 10000000000"
  shows "ts_wf (ts_div a n) \<and> ts_ns (ts_div a n) = (ts_ns a + n div 2) div n"
proof -
  let ?t = "tv_sec a mod n * 1000000000 + tv_nsec a + n div 2"
  have mod: "tv_sec a mod n \<le> n - 1" "0 \<le> tv_sec a mod n" using assms(4) by simp_all
  have t: "0 \<le> ?t" "?t < n * 1000000001"
    using mod assms(1,4) unfolding ts_wf_def by (simp_all, linarith)
  then have "?t < 2 ^ 64" using assms(5) by simp
  then have wrap: "?t mod 2 ^ 64 = ?t" "tv_sec a mod 2 ^ 64 = tv_sec a" using t assms(2,3) by simp_all
  have q: "0 \<le> ?t div n" "?t div n < 1000000001"
    using t assms(4) int_div_less [of n ?t 1000000001] by (simp_all add: pos_imp_zdiv_nonneg_iff)
  have s: "0 \<le> tv_sec a div n" "tv_sec a div n \<le> tv_sec a"
    using assms(2,4) zdiv_mono2 [of "tv_sec a" 1 n] by (simp_all add: pos_imp_zdiv_nonneg_iff)
  have nsec: "to_s64 (?t div n) = ?t div n" using q by (intro to_s64_id) simp_all
  have "0 \<le> tv_sec a div n + ?t div n div 1000000000"
    "tv_sec a div n + ?t div n div 1000000000 < 2 ^ 63" using q s assms(3) by simp_all
  then have sec: "to_s64 (tv_sec a div n + ?t div n div 1000000000)
      = tv_sec a div n + ?t div n div 1000000000"
    by (rule to_s64_id)
  have "ts_div a n = \<lparr>tv_sec = tv_sec a div n + ?t div n div 1000000000,
      tv_nsec = ?t div n mod 1000000000\<rparr>"
    by (simp only: ts_div_def Let_def wrap nsec sec)
  then show ?thesis
    using div_mod_divide [OF assms(4), of "tv_sec a" 1000000000 "tv_nsec a + n div 2"]
    by (simp add: ts_wf_def ts_ns_def algebra_simps)
qed

lemma takeWhile_dec_string:
  assumes "set ''0123456789'' \<subseteq> set cs" "rest = [] \<or> hd rest \<notin> set cs"
  shows "takeWhile (\<lambda>c. c \<in> set cs) (dec_string n @ rest) = dec_string n"
proof -
  have "c \<in> set ''0123456789''" if "is_digit c" for c
  proof -
    have "ord c \<in> {48, 49, 50, 51, 52, 53, 54, 55, 56, 57}"
      using that unfolding is_digit_def insert_iff empty_iff by presburger
    then have "c \<in> char_of ` {48, 49, 50, 51, 52, 53, 54, 55, 56, 57 :: nat}"
      unfolding ord_def by (metis char_of_char imageI)
    then show ?thesis by (simp add: char_of_def bit_0)
  qed
  then have "\<forall>c \<in> set (dec_string n). c \<in> set cs"
    using dec_string_digits [of n] assms(1) unfolding list_all_iff by blast
  then show ?thesis using assms(2) by (cases rest) (simp_all add: takeWhile_append2)
qed

lemma string_to_uint_ex_dec_string:
  assumes "int n \<le> max_val" "max_val \<le> LLONG_MAX" "rest = [] \<or> \<not> is_digit (hd rest)"
    "rest = [] \<or> hd rest \<in> set cs"
  shows "string_to_uint_ex (dec_string n @ rest) max_val (Some cs) = Some (int n, rest)"
proof -
  have "number_syntax [] [] (dec_string n) rest"
    using assms(3) by (simp add: number_syntax_def dec_string_digits)
  from strtoll10_number [OF this] have "strtoll10 (dec_string n @ rest) = (int n, False, rest)"
    using assms by (auto simp: signed_val_def digits_val_dec_string)
  then show ?thesis using assms by (auto simp: string_to_uint_ex_def)
qed

lemma str2timescale_units:
  "fst (str2timescale_ex (Some []) 1000 (- 1)) = 1000"
  "fst (str2timescale_ex (Some ''s'') 1000 (- 1)) = 1000000000"
  "fst (str2timescale_ex (Some ''ms'') 1000 (- 1)) = 1000000"
  "fst (str2timescale_ex (Some ''us'') 1000 (- 1)) = 1000"
  "fst (str2timescale_ex (Some ''ns'') 1000 (- 1)) = 1"
  by (simp_all add: str2timescale_ex_def find_arg_val_def find_xlat_val_ex_def timescale_units_def
      strcasecmp_eq_def to_lower_def ord_def)

section \<open>Properties\<close>

text \<open>On normalised time values (nanoseconds between 0 and 999999999), addition and
  subtraction are exact and give normalised values, and \<^verbatim>\<open>ts_cmp\<close> is the sign of the
  difference.\<close>

lemma ts_arith_exact:
  assumes "ts_wf a" "ts_wf b"
  shows "ts_wf (ts_add a b) \<and> ts_ns (ts_add a b) = ts_ns a + ts_ns b \<and>
    ts_wf (ts_sub a b) \<and> ts_ns (ts_sub a b) = ts_ns a - ts_ns b \<and>
    ts_cmp a b = sgn (ts_ns a - ts_ns b)"
proof -
  have "ts_wf (ts_add a b)" "ts_ns (ts_add a b) = ts_ns a + ts_ns b"
    "ts_wf (ts_sub a b)" "ts_ns (ts_sub a b) = ts_ns a - ts_ns b"
    using assms by (auto simp: ts_wf_def ts_ns_def ts_add_def ts_sub_def Let_def)
  moreover have "ts_cmp a b = sgn (ts_ns a - ts_ns b)"
    using assms by (auto simp: ts_wf_def ts_ns_def ts_cmp_def sgn_if)
  ultimately show ?thesis by simp
qed

text \<open>Dividing a normalised non-negative time by a count up to \<open>10 ^ 10\<close> gives the
  normalised time nearest to the quotient (halves are rounded up); the 64-bit products
  inside do not wrap in this range.\<close>

lemma ts_div_nearest:
  assumes "ts_wf a" "0 \<le> tv_sec a" "tv_sec a < 2 ^ 62" "0 < n" "n \<le> 10000000000"
  shows "ts_wf (ts_div a n) \<and> 2 * \<bar>n * ts_ns (ts_div a n) - ts_ns a\<bar> \<le> n"
proof -
  define h r q where "h = n div 2" and "r = (ts_ns a + h) mod n" and "q = (ts_ns a + h) div n"
  have "n * q + r = ts_ns a + h" by (simp add: q_def r_def)
  moreover have "0 \<le> r" "r < n" "2 * h \<le> n" "n \<le> 2 * h + 1" using assms(4) by (simp_all add: r_def h_def)
  ultimately have "2 * \<bar>n * q - ts_ns a\<bar> \<le> n" by (auto simp: abs_if)
  then show ?thesis using ts_div_ns [OF assms] by (simp add: q_def h_def)
qed

text \<open>A decimal number with one of the units \<^verbatim>\<open>s\<close>, \<^verbatim>\<open>ms\<close>, \<^verbatim>\<open>us\<close>, \<^verbatim>\<open>ns\<close> or none (microseconds) is
  parsed without loss into a normalised time value.\<close>

lemma parse_ts_integer:
  assumes "int n \<le> LLONG_MAX"
    and "(unit, scale) \<in> {([], 1000), (''s'', 1000000000), (''ms'', 1000000), (''us'', 1000), (''ns'', 1)}"
  shows "\<exists>t. parse_ts float_ts (dec_string n @ unit) = Some t \<and> ts_wf t \<and> ts_ns t = int n * scale"
proof -
  have u: "unit = [] \<or> \<not> is_digit (hd unit)" "unit = [] \<or> hd unit \<in> set ''smun''"
    "unit = [] \<or> hd unit \<notin> set ''eE.-+0123456789''" "unit = [] \<or> hd unit \<notin> set ''+0123456789''"
    using assms(2) by (auto simp: is_digit_def ord_def)
  have sc: "fst (str2timescale_ex (Some unit) 1000 (- 1)) = scale"
    using assms(2) str2timescale_units by auto
  have len: "length (takeWhile (\<lambda>c. c \<in> set ''eE.-+0123456789'') (dec_string n @ unit)) = length (dec_string n)"
    "length (takeWhile (\<lambda>c. c \<in> set ''+0123456789'') (dec_string n @ unit)) = length (dec_string n)"
    using u(3,4) by (subst takeWhile_dec_string; simp)+
  let ?d = "1000000000 div scale"
  have "parse_ts float_ts (dec_string n @ unit) =
      Some \<lparr>tv_sec = int n div ?d, tv_nsec = int n mod ?d * scale\<rparr>"
    using sc assms(2) unfolding parse_ts_def len Let_def
    by (subst string_to_uint_ex_dec_string [OF assms(1) order_refl u(1,2)]) auto
  moreover have d: "?d * scale = 1000000000" "0 < scale" "0 < ?d" using assms(2) by auto
  have "int n mod ?d * scale < ?d * scale" using d by (intro mult_strict_right_mono) simp_all
  moreover have "int n div ?d * (?d * scale) + int n mod ?d * scale = int n * scale"
    by (metis distrib_right div_mult_mod_eq mult.assoc)
  ultimately show ?thesis using d by (simp add: ts_wf_def ts_ns_def)
qed

text \<open>\<^verbatim>\<open>ilog10\<close> of a positive 64-bit number is the exponent of its leading decimal digit.\<close>

lemma ilog10_correct:
  assumes "0 < val" "val < 2 ^ 64"
  shows "10 ^ ilog10 val \<le> val \<and> val < 10 ^ (ilog10 val + 1)"
  using assms by (rule ilog10_pow)

text \<open>The byte-skipping search of \<^verbatim>\<open>next_set_bit\<close> returns the first set bit at or after the
  start and below the limit, and none exactly when there is no such bit.\<close>

lemma next_set_bit_first:
  "next_set_bit a cur lim = find (\<lambda>i. bit (a ! (i div 8)) (i mod 8)) [cur..<lim]"
  by (simp add: next_set_bit_def next_set_bit_loop_find)

end
