(* ===== verification/Inject_Tables.thy ===== *)
theory Inject_Tables
  imports Time_Util
begin

text \<open>
  The tables that injection options index: return values (\<^verbatim>\<open>src/src/retval.c\<close>), delays
  (the data of \<^verbatim>\<open>src/src/delay.c\<close>) and pokes (the data of \<^verbatim>\<open>src/src/poke.c\<close>), all grown by
  \<^verbatim>\<open>xgrowarray\<close> of \<^verbatim>\<open>src/src/xmalloc.c\<close>. A table is its arena, whose length is the
  capacity, and the number of used entries. Indices are 16 bits wide.
\<close>

section \<open>Growing arenas\<close>

text \<open>
  The new capacity \<^verbatim>\<open>xgrowarray\<close> computes, with 8-byte \<^verbatim>\<open>long\<close>; a \<^verbatim>\<open>NULL\<close> pointer is the
  empty arena. The sum cannot wrap below \<open>2 ^ 63\<close> elements.
\<close>

definition grow_capacity :: "nat \<Rightarrow> nat \<Rightarrow> nat" where
  "grow_capacity nmemb memb_size =
     (if nmemb = 0 then (64 * 8 div 4 + memb_size - 1) div memb_size else nmemb + (nmemb div 2 + 1))"

lemma grow_capacity_greater: "0 < memb_size \<Longrightarrow> nmemb < grow_capacity nmemb memb_size"
  by (simp add: grow_capacity_def div_greater_zero_iff)

record 'a table =
  arena :: "'a list"
  used :: nat

definition expand_vec :: "'a \<Rightarrow> nat \<Rightarrow> 'a table \<Rightarrow> 'a table" where
  "expand_vec zero memb_size t =
     t\<lparr>arena := arena t @
         replicate (grow_capacity (length (arena t)) memb_size - length (arena t)) zero\<rparr>"

definition table_wf :: "'a table \<Rightarrow> bool" where
  "table_wf t \<longleftrightarrow> used t \<le> length (arena t) \<and> used t \<le> 2 ^ 16"

definition empty_table :: "'a table" where
  "empty_table = \<lparr>arena = [], used = 0\<rparr>"

text \<open>The slot allocation the three tables share: the index, and the table with the slot.\<close>

definition alloc_slot :: "string \<Rightarrow> 'a \<Rightarrow> nat \<Rightarrow> 'a table \<Rightarrow> die + nat \<times> 'a table" where
  "alloc_slot msg zero memb_size t =
     (let idx = used t mod 2 ^ 16
      in if idx < used t then Inl (Die msg)
         else let t = (if used t = length (arena t) then expand_vec zero memb_size t else t)
           in Inr (idx, t\<lparr>used := used t + 1\<rparr>))"

section \<open>Return values\<close>

type_synonym retval_table = "u64 table"

definition retval_new :: "u64 \<Rightarrow> retval_table \<Rightarrow> die + nat \<times> retval_table" where
  "retval_new rval t =
     rbind (alloc_slot ''retval_new: retval index overflow'' 0 8 t)
       (\<lambda>(idx, t). Inr (idx, t\<lparr>arena := (arena t)[idx := rval]\<rparr>))"

definition retval_get :: "nat \<Rightarrow> retval_table \<Rightarrow> die + u64" where
  "retval_get rval_idx t =
     (if rval_idx \<ge> used t then Inl (Die ''retval_get: rval_idx >= retval_vec_size'')
      else Inr (arena t ! rval_idx))"

section \<open>Delays\<close>

record inject_delay_data =
  ts_enter :: timespec
  ts_exit :: timespec

type_synonym delay_table = "inject_delay_data table"

definition zero_ts :: timespec where
  "zero_ts = \<lparr>tv_sec = 0, tv_nsec = 0\<rparr>"

definition alloc_delay_data :: "delay_table \<Rightarrow> die + nat \<times> delay_table" where
  "alloc_delay_data t =
     alloc_slot ''alloc_delay_data: delay index overflow''
       \<lparr>ts_enter = zero_ts, ts_exit = zero_ts\<rparr> 32 t"

definition fill_delay_data :: "nat \<Rightarrow> timespec \<Rightarrow> bool \<Rightarrow> delay_table \<Rightarrow> die + delay_table" where
  "fill_delay_data delay_idx val isenter t =
     (if delay_idx \<ge> used t then Inl (Die ''fill_delay_data: delay_idx >= delay_data_vec_size'')
      else let d = arena t ! delay_idx
        in Inr (t\<lparr>arena := (arena t)[delay_idx :=
             if isenter then d\<lparr>ts_enter := val\<rparr> else d\<lparr>ts_exit := val\<rparr>]\<rparr>))"

section \<open>Pokes\<close>

record poke_payload =
  poke_data :: "u8 list"
  arg_no :: nat
  is_enter :: bool

type_synonym poke_table = "poke_payload list table"

definition alloc_poke_data :: "poke_table \<Rightarrow> die + nat \<times> poke_table" where
  "alloc_poke_data t =
     rbind (alloc_slot ''alloc_poke_data: poke index overflow'' [] 16 t)
       (\<lambda>(idx, t). Inr (idx, t\<lparr>arena := (arena t)[idx := []]\<rparr>))"

text \<open>
  \<^verbatim>\<open>poke_add\<close> returns whether the payload is a duplicate; a new one goes to the front of the
  list (\<^verbatim>\<open>list_insert\<close>).
\<close>

definition poke_add :: "nat \<Rightarrow> poke_payload \<Rightarrow> poke_table \<Rightarrow> bool \<times> poke_table" where
  "poke_add poke_idx poke t =
     (if list_ex (\<lambda>i. is_enter i = is_enter poke \<and> arg_no i = arg_no poke) (arena t ! poke_idx)
      then (True, t)
      else (False, t\<lparr>arena := (arena t)[poke_idx := poke # arena t ! poke_idx]\<rparr>))"

section \<open>Facts\<close>

lemma alloc_slot_Inr:
  assumes "table_wf t" "0 < memb_size" "alloc_slot msg zero memb_size t = Inr (idx, t')"
  shows "idx = used t \<and> used t' = used t + 1 \<and> table_wf t' \<and> idx < length (arena t') \<and>
    (\<forall>i < used t. arena t' ! i = arena t ! i)"
proof -
  have lt: "used t < 2 ^ 16" and idx: "idx = used t"
    using assms(1,3) by (auto simp: alloc_slot_def table_wf_def Let_def split: if_splits)
  show ?thesis
    using assms lt idx grow_capacity_greater [OF assms(2), of "length (arena t)"]
    by (auto simp: alloc_slot_def table_wf_def Let_def expand_vec_def nth_append split: if_splits)
qed

lemma alloc_slot_Inl:
  "table_wf t \<Longrightarrow> alloc_slot msg zero memb_size t = Inl e \<longleftrightarrow> used t = 2 ^ 16 \<and> e = Die msg"
  by (cases "used t = 2 ^ 16") (auto simp: alloc_slot_def table_wf_def Let_def)

lemma empty_table_wf [simp]: "table_wf empty_table"
  by (simp add: table_wf_def empty_table_def)

section \<open>The interface\<close>

text \<open>
  What the injection code relies on: a new entry gets an index below the size, reads back
  as stored, and leaves the readable entries alone.
\<close>

locale index_table =
  fixes new :: "'v \<Rightarrow> 't \<Rightarrow> die + nat \<times> 't"
    and get :: "nat \<Rightarrow> 't \<Rightarrow> die + 'v"
    and size_of :: "'t \<Rightarrow> nat"
    and invar :: "'t \<Rightarrow> bool"
  assumes new_invar: "invar t \<Longrightarrow> new v t = Inr (i, t') \<Longrightarrow> invar t'"
    and new_index: "invar t \<Longrightarrow> new v t = Inr (i, t') \<Longrightarrow> i = size_of t \<and> size_of t' = size_of t + 1"
    and get_new: "invar t \<Longrightarrow> new v t = Inr (i, t') \<Longrightarrow> get i t' = Inr v"
    and get_old: "invar t \<Longrightarrow> new v t = Inr (i, t') \<Longrightarrow> j < size_of t \<Longrightarrow> get j t' = get j t"
begin

fun news :: "'v list \<Rightarrow> 't \<Rightarrow> die + 't" where
  "news [] t = Inr t"
| "news (v # vs) t = rbind (new v t) (\<lambda>(i, t'). news vs t')"

lemma news_keep:
  assumes "invar t" "news vs t = Inr t'"
  shows "invar t' \<and> size_of t' = size_of t + length vs \<and> (\<forall>j < size_of t. get j t' = get j t)"
  using assms
proof (induction vs arbitrary: t)
  case (Cons v vs)
  then obtain i t1 where n: "new v t = Inr (i, t1)" "news vs t1 = Inr t'"
    by (auto simp: rbind_Inr_iff)
  show ?case
    using Cons.IH [OF new_invar [OF Cons.prems(1) n(1)] n(2)] new_index [OF Cons.prems(1) n(1)]
      get_old [OF Cons.prems(1) n(1)] by simp
qed simp

lemma news_get:
  assumes "invar t" "news vs t = Inr t'" "k < length vs"
  shows "get (size_of t + k) t' = Inr (vs ! k)"
  using assms
proof (induction vs arbitrary: t k)
  case (Cons v vs)
  then obtain i t1 where n: "new v t = Inr (i, t1)" "news vs t1 = Inr t'"
    by (auto simp: rbind_Inr_iff)
  note inv = new_invar [OF Cons.prems(1) n(1)] and ix = new_index [OF Cons.prems(1) n(1)]
  show ?case
  proof (cases k)
    case 0
    then show ?thesis
      using news_keep [OF inv n(2)] get_new [OF Cons.prems(1) n(1)] ix by simp
  next
    case (Suc k')
    then show ?thesis using Cons.IH [OF inv n(2), of k'] Cons.prems(3) ix by simp
  qed
qed simp

end

lemma retval_new_Inr:
  assumes "table_wf t" "retval_new v t = Inr (i, t')"
  shows "i = used t \<and> used t' = used t + 1 \<and> table_wf t' \<and> retval_get i t' = Inr v \<and>
    (\<forall>j < used t. retval_get j t' = retval_get j t)"
proof -
  obtain t1 where t1: "alloc_slot ''retval_new: retval index overflow'' 0 8 t = Inr (i, t1)"
    and t': "t' = t1\<lparr>arena := (arena t1)[i := v]\<rparr>"
    using assms(2) by (auto simp: retval_new_def rbind_Inr_iff)
  show ?thesis
    using alloc_slot_Inr [OF assms(1) _ t1] unfolding t' by (auto simp: retval_get_def table_wf_def)
qed

interpretation retval: index_table retval_new retval_get used table_wf
  by unfold_locales (use retval_new_Inr in blast)+

section \<open>Properties\<close>

text \<open>In a well-formed table \<^verbatim>\<open>retval_new\<close> fails exactly when all 65536 indices are in use;
  otherwise it returns a fresh 16-bit index under which \<^verbatim>\<open>retval_get\<close> finds the value, all
  older indices keep their values, and the arena stays as large as the number of entries.\<close>

lemma retval_roundtrip:
  assumes "table_wf t"
  shows "case retval_new v t of
      Inl e \<Rightarrow> used t = 2 ^ 16
    | Inr (i, t') \<Rightarrow> i < 2 ^ 16 \<and> i = used t \<and> retval_get i t' = Inr v \<and> table_wf t' \<and>
        (\<forall>j < used t. retval_get j t' = retval_get j t)"
proof (cases "retval_new v t")
  case (Inl e)
  then have "used t = 2 ^ 16"
    using alloc_slot_Inl [OF assms] by (auto simp: retval_new_def rbind_Inl_iff)
  with Inl show ?thesis by simp
next
  case (Inr r)
  obtain i t' where r: "r = (i, t')" by fastforce
  have "used t + 1 \<le> 2 ^ 16"
    using retval_new_Inr [OF assms Inr [unfolded r]] by (simp add: table_wf_def)
  then show ?thesis using retval_new_Inr [OF assms Inr [unfolded r]] Inr r by auto
qed

text \<open>The last index \<^verbatim>\<open>alloc_delay_data\<close> can hand out is \<^verbatim>\<open>(uint16_t) -1\<close>, the value that
  marks an option without a delay.\<close>

lemma alloc_delay_data_sentinel:
  assumes "table_wf t" "used t = 65535"
  shows "\<exists>t'. alloc_delay_data t = Inr (2 ^ 16 - 1, t')"
proof -
  have "\<not> (\<exists>e. alloc_delay_data t = Inl e)"
    using alloc_slot_Inl [OF assms(1)] assms(2) unfolding alloc_delay_data_def by simp
  then obtain i t' where r: "alloc_delay_data t = Inr (i, t')"
    by (cases "alloc_delay_data t") auto
  then have "i = used t"
    using alloc_slot_Inr [OF assms(1), of 32 _ _ i t'] unfolding alloc_delay_data_def by simp
  with r assms(2) show ?thesis by simp
qed

end
