(* ===== verification/Inject_Parse.thy ===== *)
theory Inject_Parse
  imports Basic_Filters Inject_Tables
begin

text \<open>
  The parsers of injection expressions of \<^verbatim>\<open>src/src/filter_qualify.c\<close>: the conversions of
  names to numbers, the tokens \<^verbatim>\<open>when=\<close>, \<^verbatim>\<open>syscall=\<close>, \<^verbatim>\<open>error=\<close>, \<^verbatim>\<open>retval=\<close>, \<^verbatim>\<open>signal=\<close>, \<^verbatim>\<open>poke_enter=\<close>,
  \<^verbatim>\<open>poke_exit=\<close>, \<^verbatim>\<open>delay_enter=\<close>, \<^verbatim>\<open>delay_exit=\<close> and the expression they form, with \<^verbatim>\<open>signame\<close>
  of \<^verbatim>\<open>src/src/signal.c\<close>. A parser that returns false makes its only caller terminate, so
  the result \<open>None\<close> carries no state.
\<close>

section \<open>Build-time environment\<close>

text \<open>
  Besides the system call tables, the parsers depend on the error and signal name tables
  of the architecture and on configuration macros.
\<close>

record env = arch +
  errnoent :: "string option list"
  signalent :: "string option list"
  asm_sigrt :: "(nat \<times> nat) option"
  nsig_bytes :: nat
  arch_dedicated_err_reg :: bool
  any_wordsize_less_than_klong :: bool
  have_linux_kvm_h :: bool
  enable_secontext :: bool
  os_release :: nat
  env_regcomp :: regcomp
  env_float_ts :: "string \<Rightarrow> ((int \<Rightarrow> timespec) \<times> string) option"

definition signame :: "'a env_scheme \<Rightarrow> int \<Rightarrow> string option" where
  "signame E sig =
     (if sig > 0 then
        let s = nat sig in
        if s < length (signalent E) then signalent E ! s
        else case asm_sigrt E of None \<Rightarrow> None
             | Some (rtmin, rtmax) \<Rightarrow>
                 if s \<ge> rtmin \<and> s \<le> rtmax then Some (''SIGRT_'' @ dec_string (s - rtmin)) else None
      else None)"

section \<open>Names\<close>

definition sigstr_to_uint :: "'a env_scheme \<Rightarrow> string \<Rightarrow> int" where
  "sigstr_to_uint E s =
     (if s \<noteq> [] \<and> is_digit (hd s) then string_to_uint_upto s 255
      else let s = (if strcasecmp_eq (take 3 s) ''SIG'' then drop 3 s else s)
        in case find (\<lambda>i. case signame E (int i) of None \<Rightarrow> False
               | Some name \<Rightarrow> strcasecmp_eq (take 3 name) ''SIG'' \<and> strcasecmp_eq (drop 3 name) s)
             [1..<256]
           of Some i \<Rightarrow> int i | None \<Rightarrow> - 1)"

text \<open>The tables of names; a value that is not found is \<^verbatim>\<open>(int) -1ULL\<close>.\<close>

definition arg_val_to_int :: "string \<Rightarrow> xlat_data list \<Rightarrow> int" where
  "arg_val_to_int str strs = sint (ucast (find_arg_val (Some str) strs (- 1) (- 1)) :: u32)"

definition statusstr_to_uint :: "string \<Rightarrow> int" where
  "statusstr_to_uint str = arg_val_to_int str
     [(0, ''successful''), (1, ''failed''), (2, ''unfinished''), (3, ''unavailable''),
      (4, ''detached'')]"

definition quietstr_to_uint :: "string \<Rightarrow> int" where
  "quietstr_to_uint str = arg_val_to_int str
     [(0, ''attach''), (1, ''exit''), (1, ''exits''), (2, ''path-resolution''),
      (3, ''personality''), (4, ''superseded''), (4, ''thread-execve'')]"

definition decode_fd_str_to_uint :: "string \<Rightarrow> int" where
  "decode_fd_str_to_uint str = arg_val_to_int str
     [(0, ''path''), (1, ''socket''), (2, ''dev''), (3, ''eventfd''), (4, ''pidfd''),
      (5, ''signalfd'')]"

definition decode_pid_str_to_uint :: "string \<Rightarrow> int" where
  "decode_pid_str_to_uint str = arg_val_to_int str [(0, ''pidns''), (1, ''comm'')]"

definition secontextstr_to_uint :: "string \<Rightarrow> int" where
  "secontextstr_to_uint str = arg_val_to_int str [(0, ''full''), (1, ''mismatch'')]"

definition find_errno_by_name :: "'a env_scheme \<Rightarrow> string \<Rightarrow> int" where
  "find_errno_by_name E name =
     (case find (\<lambda>i. case errnoent E ! i of None \<Rightarrow> False | Some e \<Rightarrow> strcasecmp_eq name e)
        [1..<length (errnoent E)]
      of Some i \<Rightarrow> int i | None \<Rightarrow> - 1)"

section \<open>Injection options\<close>

abbreviation INJECT_F_SIGNAL :: u8 where "INJECT_F_SIGNAL \<equiv> 0x01"
abbreviation INJECT_F_ERROR :: u8 where "INJECT_F_ERROR \<equiv> 0x02"
abbreviation INJECT_F_RETVAL :: u8 where "INJECT_F_RETVAL \<equiv> 0x04"
abbreviation INJECT_F_DELAY_ENTER :: u8 where "INJECT_F_DELAY_ENTER \<equiv> 0x08"
abbreviation INJECT_F_DELAY_EXIT :: u8 where "INJECT_F_DELAY_EXIT \<equiv> 0x10"
abbreviation INJECT_F_SYSCALL :: u8 where "INJECT_F_SYSCALL \<equiv> 0x20"
abbreviation INJECT_F_POKE_ENTER :: u8 where "INJECT_F_POKE_ENTER \<equiv> 0x40"
abbreviation INJECT_F_POKE_EXIT :: u8 where "INJECT_F_POKE_EXIT \<equiv> 0x80"
abbreviation INJECT_ACTION_FLAGS :: u8 where "INJECT_ACTION_FLAGS \<equiv> 0xdf"
abbreviation INJECT_LAST_INF :: nat where "INJECT_LAST_INF \<equiv> 0xffff"
abbreviation NO_IDX :: nat where "NO_IDX \<equiv> 0xffff"
abbreviation MAX_ERRNO_VALUE :: int where "MAX_ERRNO_VALUE \<equiv> 4095"

record inject_data =
  inj_flags :: u8
  signo :: nat
  rval_idx :: nat
  delay_idx :: nat
  poke_idx :: nat
  inj_scno :: nat

record inject_opts =
  first :: nat
  last_occ :: nat
  step :: nat
  data :: inject_data

record inject_tables =
  retval_vec :: retval_table
  delay_data_vec :: delay_table
  poke_data_vec :: poke_table
  err_log :: "string list"

text \<open>The state the token parsers update: the options, the replacement system call of each
  personality, and the tables.\<close>

record parse_state =
  fopts :: inject_opts
  pdata :: "nat list"
  tables :: inject_tables

definition has_flag :: "u8 \<Rightarrow> inject_opts \<Rightarrow> bool" where
  "has_flag f fo \<longleftrightarrow> inj_flags (data fo) AND f \<noteq> 0"

definition set_flag :: "u8 \<Rightarrow> inject_opts \<Rightarrow> inject_opts" where
  "set_flag f fo = fo\<lparr>data := (data fo)\<lparr>inj_flags := inj_flags (data fo) OR f\<rparr>\<rparr>"

text \<open>The options \<^verbatim>\<open>qualify_inject_common\<close> starts from, and a small environment for evaluating
  the definitions.\<close>

definition init_opts :: inject_opts where
  "init_opts = \<lparr>first = 1, last_occ = INJECT_LAST_INF, step = 1,
     data = \<lparr>inj_flags = 0, signo = 0, rval_idx = 0, delay_idx = NO_IDX, poke_idx = NO_IDX,
             inj_scno = 0\<rparr>\<rparr>"

text \<open>The zeroed element of an injection vector.\<close>

definition zero_opts :: inject_opts where
  "zero_opts = \<lparr>first = 0, last_occ = 0, step = 0,
     data = \<lparr>inj_flags = 0, signo = 0, rval_idx = 0, delay_idx = 0, poke_idx = 0, inj_scno = 0\<rparr>\<rparr>"

definition init_tables :: inject_tables where
  "init_tables = \<lparr>retval_vec = empty_table, delay_data_vec = empty_table,
     poke_data_vec = empty_table, err_log = []\<rparr>"

definition init_parse_state :: parse_state where
  "init_parse_state = \<lparr>fopts = init_opts, pdata = [0, 0], tables = init_tables\<rparr>"

definition small_env :: env where
  "small_env = arch.extend small_arch
     \<lparr>errnoent = [None, Some ''EPERM'', Some ''ENOENT''],
      signalent = [None, Some ''SIGHUP'', Some ''SIGINT''],
      asm_sigrt = Some (32, 64), nsig_bytes = 8, arch_dedicated_err_reg = False,
      any_wordsize_less_than_klong = True, have_linux_kvm_h = True, enable_secontext = False,
      os_release = 0x60000, env_regcomp = (\<lambda>_. Inl ''no regular expressions''),
      env_float_ts = (\<lambda>_. None)\<rparr>"

section \<open>The occurrence range\<close>

definition char_at :: "string \<Rightarrow> nat \<Rightarrow> char" where
  "char_at s i = (if i < length s then s ! i else CHR 0x00)"

definition parse_when_tail :: "string \<Rightarrow> inject_opts \<Rightarrow> inject_opts option" where
  "parse_when_tail endp fo =
     (if endp \<noteq> [] then
        let val = drop 1 endp in
        if val \<noteq> [] then
          let intval = string_to_uint_upto val 0xffff in
          if intval < 1 then None else Some (fo\<lparr>step := nat intval\<rparr>)
        else Some (fo\<lparr>step := 1\<rparr>)
      else if last_occ fo = INJECT_LAST_INF then Some (fo\<lparr>step := 0\<rparr>)
      else Some (fo\<lparr>step := 1\<rparr>))"

definition parse_when :: "string \<Rightarrow> inject_opts \<Rightarrow> inject_opts option" where
  "parse_when val fo =
     (case string_to_uint_ex val 0xffff (Some ''+.'') of None \<Rightarrow> None
      | Some (intval, endp) \<Rightarrow>
          if intval < 1 then None
          else let fo = fo\<lparr>first := nat intval\<rparr> in
            if char_at endp 0 = CHR ''.'' then
              if char_at endp 1 \<noteq> CHR ''.'' then None
              else (case string_to_uint_ex (drop 2 endp) 0xffff (Some ''+'') of None \<Rightarrow> None
                    | Some (intval, endp) \<Rightarrow>
                        if intval < int (first fo) \<or> intval = int INJECT_LAST_INF then None
                        else parse_when_tail endp (fo\<lparr>last_occ := nat intval\<rparr>))
            else parse_when_tail endp (fo\<lparr>last_occ := INJECT_LAST_INF\<rparr>))"

section \<open>Return values\<close>

text \<open>
  \<^verbatim>\<open>strtoull(str, &end, 0)\<close>: the value, whether \<^verbatim>\<open>errno\<close> is set, and the rest. A prefix \<^verbatim>\<open>0x\<close>
  selects base 16 when a digit follows it, a prefix \<^verbatim>\<open>0\<close> base 8; a minus sign negates the
  value in 64 bits.
\<close>

definition strtoull0 :: "string \<Rightarrow> u64 \<times> bool \<times> string" where
  "strtoull0 str =
     (let (sign, s) = strip_sign (dropWhile is_space str);
          hex = (char_at s 0 = CHR ''0'' \<and> char_at s 1 \<in> {CHR ''x'', CHR ''X''} \<and>
                 base_digit 16 (char_at s 2));
          b = (if hex then 16 else if char_at s 0 = CHR ''0'' then 8 else 10);
          s = (if hex then drop 2 s else s);
          digits = takeWhile (base_digit b) s;
          rest = dropWhile (base_digit b) s;
          v = base_val b digits
      in if digits = [] then (0, False, str)
         else if v \<ge> 2 ^ 64 then (- 1, True, rest)
         else if sign = ''-'' then (- word_of_nat v, False, rest)
         else (word_of_nat v, False, rest))"

definition check_inadvertent_fault_injection :: "'a env_scheme \<Rightarrow> u64 \<Rightarrow> string list" where
  "check_inadvertent_fault_injection E ullval =
     (let klong = sint ullval; i32 = sint (ucast ullval :: u32);
          small = any_wordsize_less_than_klong E;
          k_err = (\<not> arch_dedicated_err_reg E \<and> klong < 0 \<and> klong \<ge> - MAX_ERRNO_VALUE);
          i_err = (\<not> arch_dedicated_err_reg E \<and> \<not> k_err \<and> small \<and> i32 < 0 \<and> i32 \<ge> - MAX_ERRNO_VALUE)
      in (if k_err then [''Inadvertent injection of error '' @ dec_string (nat (- klong)) @
             '' is possible for retval='' @ dec_string (unat ullval)] else []) @
         (if i_err then [''Inadvertent injection of error '' @ dec_string (nat (- i32)) @
             '' is possible in compat personality for retval='' @ dec_string (unat ullval)] else []) @
         (if small \<and> \<not> (k_err \<or> i_err) \<and> ucast (ucast ullval :: u32) \<noteq> ullval
          then [''Injected return value '' @ dec_string (unat ullval) @ '' will be clipped to '' @
             dec_string (unat (ucast ullval :: u32)) @ '' in compat personality''] else []))"

section \<open>Delays and pokes\<close>

definition parse_delay_token ::
    "'a env_scheme \<Rightarrow> string \<Rightarrow> bool \<Rightarrow> parse_state \<Rightarrow> die + parse_state option" where
  "parse_delay_token E input isenter st =
     (let flag = (if isenter then INJECT_F_DELAY_ENTER else INJECT_F_DELAY_EXIT) in
      if has_flag flag (fopts st) then Inr None
      else case parse_ts (env_float_ts E) input of None \<Rightarrow> Inr None
        | Some tsval \<Rightarrow>
            rbind (if delay_idx (data (fopts st)) = NO_IDX
                   then alloc_delay_data (delay_data_vec (tables st))
                   else Inr (delay_idx (data (fopts st)), delay_data_vec (tables st)))
              (\<lambda>(idx, t). rbind (fill_delay_data idx tsval isenter t)
                 (\<lambda>t. Inr (Some (st\<lparr>
                    fopts := set_flag flag
                      ((fopts st)\<lparr>data := (data (fopts st))\<lparr>delay_idx := idx\<rparr>\<rparr>),
                    tables := (tables st)\<lparr>delay_data_vec := t\<rparr>\<rparr>)))))"

text \<open>
  \<^verbatim>\<open>sscanf(s, "%2hhx", &byte)\<close>: blanks are skipped, then at most two characters are
  read: a sign and a digit, the prefix \<^verbatim>\<open>0x\<close> alone (the value is 0), or one or two digits.
\<close>

definition sscanf_2hhx :: "string \<Rightarrow> u8 option" where
  "sscanf_2hhx s =
     (let s = dropWhile is_space s; c0 = char_at s 0; c1 = char_at s 1 in
      if c0 = CHR ''-'' \<or> c0 = CHR ''+'' then
        (case xdigit_val c1 of None \<Rightarrow> None
         | Some v \<Rightarrow> Some (if c0 = CHR ''-'' then - word_of_nat v else word_of_nat v))
      else (case xdigit_val c0 of None \<Rightarrow> None
            | Some h \<Rightarrow> (case xdigit_val c1 of None \<Rightarrow> Some (word_of_nat h)
                        | Some l \<Rightarrow> Some (word_of_nat (16 * h + l)))))"

fun scan_bytes :: "string \<Rightarrow> nat list \<Rightarrow> u8 list option" where
  "scan_bytes val [] = Some []"
| "scan_bytes val (i # is) =
     (case sscanf_2hhx (drop (2 * i) val) of None \<Rightarrow> None
      | Some b \<Rightarrow> (case scan_bytes val is of None \<Rightarrow> None | Some bs \<Rightarrow> Some (b # bs)))"

definition parse_poke_arg :: "string \<Rightarrow> bool \<Rightarrow> poke_payload option" where
  "parse_poke_arg token isenter =
     (if \<not> has_prefix ''@arg'' token then None
      else let val = drop 4 token; c = ord (char_at val 0) in
        if \<not> (49 \<le> c \<and> c \<le> 55) then None
        else if char_at val 1 \<noteq> CHR ''='' then None
        else let val = drop 2 val; data_len = length val in
          if data_len = 0 \<or> data_len mod 2 \<noteq> 0 \<or> data_len > 2048 then None
          else (case scan_bytes val [0..<data_len div 2] of None \<Rightarrow> None
                | Some bs \<Rightarrow> Some \<lparr>poke_data = bs, arg_no = c - 48, is_enter = isenter\<rparr>))"

fun parse_poke_loop :: "string list \<Rightarrow> bool \<Rightarrow> nat \<Rightarrow> poke_table \<Rightarrow> poke_table option" where
  "parse_poke_loop [] isenter idx t = Some t"
| "parse_poke_loop (token # toks) isenter idx t =
     (case parse_poke_arg token isenter of None \<Rightarrow> None
      | Some poke \<Rightarrow>
          (case poke_add idx poke t of
             (True, _) \<Rightarrow> None
           | (False, t) \<Rightarrow> parse_poke_loop toks isenter idx t))"

definition parse_poke_token :: "string \<Rightarrow> bool \<Rightarrow> parse_state \<Rightarrow> die + parse_state option" where
  "parse_poke_token input isenter st =
     (let flag = (if isenter then INJECT_F_POKE_ENTER else INJECT_F_POKE_EXIT) in
      if has_flag flag (fopts st) then Inr None
      else if input = [] then Inr None
      else rbind (if poke_idx (data (fopts st)) = NO_IDX
                  then alloc_poke_data (poke_data_vec (tables st))
                  else Inr (poke_idx (data (fopts st)), poke_data_vec (tables st)))
        (\<lambda>(idx, t). case parse_poke_loop (tokens '','' input) isenter idx t of
             None \<Rightarrow> Inr None
           | Some t \<Rightarrow> Inr (Some (st\<lparr>
               fopts := set_flag flag
                 ((fopts st)\<lparr>data := (data (fopts st))\<lparr>poke_idx := idx\<rparr>\<rparr>),
               tables := (tables st)\<lparr>poke_data_vec := t\<rparr>\<rparr>))))"

section \<open>Tokens and expressions\<close>

fun parse_syscall_pers :: "'a env_scheme \<Rightarrow> string \<Rightarrow> nat list \<Rightarrow> nat list \<Rightarrow> nat list option" where
  "parse_syscall_pers E val [] pd = Some pd"
| "parse_syscall_pers E val (p # ps) pd =
     (case scno_by_name E val p 0 of None \<Rightarrow> None
      | Some scno \<Rightarrow>
          if sys_flags (sysent_vec E ! p ! scno) AND TRACE_PURE = 0 then None
          else parse_syscall_pers E val ps (pd[p := scno mod 2 ^ 16]))"

definition set_rval :: "u64 \<Rightarrow> u8 \<Rightarrow> parse_state \<Rightarrow> die + parse_state" where
  "set_rval v flag st =
     rbind (retval_new v (retval_vec (tables st)))
       (\<lambda>(idx, t). Inr (st\<lparr>
          fopts := set_flag flag ((fopts st)\<lparr>data := (data (fopts st))\<lparr>rval_idx := idx\<rparr>\<rparr>),
          tables := (tables st)\<lparr>retval_vec := t\<rparr>\<rparr>))"

definition parse_error_token :: "'a env_scheme \<Rightarrow> string \<Rightarrow> parse_state \<Rightarrow> die + parse_state option" where
  "parse_error_token E val st =
     (if has_flag (INJECT_F_ERROR OR INJECT_F_RETVAL) (fopts st) then Inr None
      else let intval = string_to_uint_upto val MAX_ERRNO_VALUE;
               intval = (if intval < 0 then find_errno_by_name E val else intval)
        in if intval < 1 then Inr None
           else rbind (set_rval (word_of_int intval) INJECT_F_ERROR st) (\<lambda>st. Inr (Some st)))"

definition parse_retval_token :: "'a env_scheme \<Rightarrow> string \<Rightarrow> parse_state \<Rightarrow> die + parse_state option" where
  "parse_retval_token E val st =
     (if has_flag (INJECT_F_ERROR OR INJECT_F_RETVAL) (fopts st) then Inr None
      else let (ullval, err, endp) = strtoull0 val
        in if endp = val \<or> endp \<noteq> [] \<or> (ullval = 0 \<or> ullval = - 1) \<and> err then Inr None
           else rbind (set_rval ullval INJECT_F_RETVAL (st\<lparr>tables := (tables st)\<lparr>err_log :=
                    err_log (tables st) @ check_inadvertent_fault_injection E ullval\<rparr>\<rparr>))
                  (\<lambda>st. Inr (Some st)))"

definition parse_signal_token :: "'a env_scheme \<Rightarrow> string \<Rightarrow> parse_state \<Rightarrow> parse_state option" where
  "parse_signal_token E val st =
     (if has_flag INJECT_F_SIGNAL (fopts st) then None
      else let intval = sigstr_to_uint E val
        in if intval < 1 \<or> intval > int (nsig_bytes E * 8) then None
           else Some (st\<lparr>fopts := set_flag INJECT_F_SIGNAL
                  ((fopts st)\<lparr>data := (data (fopts st))\<lparr>signo := nat intval\<rparr>\<rparr>)\<rparr>))"

definition parse_inject_token ::
    "'a env_scheme \<Rightarrow> string \<Rightarrow> bool \<Rightarrow> parse_state \<Rightarrow> die + parse_state option" where
  "parse_inject_token E token fault_tokens_only st =
     (if has_prefix ''when='' token then
        Inr (map_option (\<lambda>fo. st\<lparr>fopts := fo\<rparr>) (parse_when (drop 5 token) (fopts st)))
      else if has_prefix ''syscall='' token then
        (if has_flag INJECT_F_SYSCALL (fopts st) then Inr None
         else Inr (map_option (\<lambda>pd. st\<lparr>fopts := set_flag INJECT_F_SYSCALL (fopts st), pdata := pd\<rparr>)
                (parse_syscall_pers E (drop 8 token) [0..<SUPPORTED_PERSONALITIES E] (pdata st))))
      else if has_prefix ''error='' token then parse_error_token E (drop 6 token) st
      else if \<not> fault_tokens_only \<and> has_prefix ''retval='' token then
        parse_retval_token E (drop 7 token) st
      else if \<not> fault_tokens_only \<and> has_prefix ''signal='' token then
        Inr (parse_signal_token E (drop 7 token) st)
      else if \<not> fault_tokens_only \<and> has_prefix ''poke_enter='' token then
        parse_poke_token (drop 11 token) True st
      else if \<not> fault_tokens_only \<and> has_prefix ''poke_exit='' token then
        parse_poke_token (drop 10 token) False st
      else if \<not> fault_tokens_only \<and> has_prefix ''delay_enter='' token then
        parse_delay_token E (drop 12 token) True st
      else if \<not> fault_tokens_only \<and> has_prefix ''delay_exit='' token then
        parse_delay_token E (drop 11 token) False st
      else Inr None)"

fun parse_inject_tokens ::
    "'a env_scheme \<Rightarrow> string list \<Rightarrow> bool \<Rightarrow> parse_state \<Rightarrow> die + parse_state option" where
  "parse_inject_tokens E [] fault_tokens_only st = Inr (Some st)"
| "parse_inject_tokens E (token # toks) fault_tokens_only st =
     rbind (parse_inject_token E token fault_tokens_only st)
       (\<lambda>r. case r of None \<Rightarrow> Inr None
            | Some st' \<Rightarrow> parse_inject_tokens E toks fault_tokens_only st')"

text \<open>The name of the expression and the state after its tokens.\<close>

definition parse_inject_expression ::
    "'a env_scheme \<Rightarrow> string \<Rightarrow> bool \<Rightarrow> parse_state \<Rightarrow> die + (string \<times> parse_state) option" where
  "parse_inject_expression E str fault_tokens_only st =
     (if str = [] \<or> hd str = CHR '':'' then Inr (Some ([], st))
      else case strtok_r '':'' str of None \<Rightarrow> Inr None
        | Some (name, saveptr) \<Rightarrow>
            rbind (parse_inject_tokens E (tokens '':'' saveptr) fault_tokens_only st)
              (\<lambda>r. Inr (map_option (\<lambda>st. (name, st)) r)))"

section \<open>The invariant of options and tables\<close>

lemma has_flag_set_flag: "has_flag f (set_flag g fo) \<longleftrightarrow> has_flag f fo \<or> g AND f \<noteq> 0"
  by (simp add: has_flag_def set_flag_def or_and_eq_0)

lemma has_flag_upd [simp]:
  "has_flag f (fo\<lparr>first := a\<rparr>) = has_flag f fo" "has_flag f (fo\<lparr>last_occ := a\<rparr>) = has_flag f fo"
  "has_flag f (fo\<lparr>step := a\<rparr>) = has_flag f fo"
  "has_flag f (fo\<lparr>data := (data fo)\<lparr>rval_idx := a\<rparr>\<rparr>) = has_flag f fo"
  "has_flag f (fo\<lparr>data := (data fo)\<lparr>delay_idx := a\<rparr>\<rparr>) = has_flag f fo"
  "has_flag f (fo\<lparr>data := (data fo)\<lparr>poke_idx := a\<rparr>\<rparr>) = has_flag f fo"
  "has_flag f (fo\<lparr>data := (data fo)\<lparr>signo := a\<rparr>\<rparr>) = has_flag f fo"
  "has_flag f (fo\<lparr>data := (data fo)\<lparr>inj_scno := a\<rparr>\<rparr>) = has_flag f fo"
  by (simp_all add: has_flag_def)

lemma set_flag_sel [simp]:
  "first (set_flag f fo) = first fo" "last_occ (set_flag f fo) = last_occ fo"
  "step (set_flag f fo) = step fo" "rval_idx (data (set_flag f fo)) = rval_idx (data fo)"
  "delay_idx (data (set_flag f fo)) = delay_idx (data fo)"
  "poke_idx (data (set_flag f fo)) = poke_idx (data fo)"
  "signo (data (set_flag f fo)) = signo (data fo)"
  by (simp_all add: set_flag_def)

definition tables_wf :: "inject_tables \<Rightarrow> bool" where
  "tables_wf T \<longleftrightarrow> table_wf (retval_vec T) \<and> table_wf (delay_data_vec T) \<and> table_wf (poke_data_vec T)"

text \<open>
  \<open>opts_ok\<close>: every index the flags announce is in its table, error and return value
  exclude each other, the signal number is in range, and counting starts at 1 or later.
\<close>

definition idx_ok :: "bool \<Rightarrow> nat \<Rightarrow> nat \<Rightarrow> bool" where
  "idx_ok used_idx i n \<longleftrightarrow> (used_idx \<longrightarrow> i < n)"

lemma idx_ok_mono: "idx_ok b i n \<Longrightarrow> n \<le> n' \<Longrightarrow> idx_ok b i n'"
  by (auto simp: idx_ok_def)

definition opts_ok :: "nat \<Rightarrow> inject_tables \<Rightarrow> inject_opts \<Rightarrow> bool" where
  "opts_ok nsig T fo \<longleftrightarrow>
     1 \<le> first fo \<and> first fo \<le> last_occ fo \<and> last_occ fo \<le> INJECT_LAST_INF \<and>
     idx_ok (has_flag INJECT_F_ERROR fo \<or> has_flag INJECT_F_RETVAL fo)
       (rval_idx (data fo)) (used (retval_vec T)) \<and>
     \<not> (has_flag INJECT_F_ERROR fo \<and> has_flag INJECT_F_RETVAL fo) \<and>
     idx_ok (has_flag INJECT_F_DELAY_ENTER fo \<or> has_flag INJECT_F_DELAY_EXIT fo)
       (delay_idx (data fo)) (used (delay_data_vec T)) \<and>
     idx_ok (has_flag INJECT_F_POKE_ENTER fo \<or> has_flag INJECT_F_POKE_EXIT fo)
       (poke_idx (data fo)) (used (poke_data_vec T)) \<and>
     (has_flag INJECT_F_SIGNAL fo \<longrightarrow> signo (data fo) \<in> {1..nsig}) \<and>
     idx_ok (delay_idx (data fo) \<noteq> NO_IDX) (delay_idx (data fo)) (used (delay_data_vec T)) \<and>
     idx_ok (poke_idx (data fo) \<noteq> NO_IDX) (poke_idx (data fo)) (used (poke_data_vec T))"

text \<open>\<open>tables_le\<close>: entries in use stay in use, and return values keep their value.\<close>

definition tables_le :: "inject_tables \<Rightarrow> inject_tables \<Rightarrow> bool" where
  "tables_le T T' \<longleftrightarrow> used (retval_vec T) \<le> used (retval_vec T') \<and>
     used (delay_data_vec T) \<le> used (delay_data_vec T') \<and>
     used (poke_data_vec T) \<le> used (poke_data_vec T') \<and>
     (\<forall>i < used (retval_vec T). retval_get i (retval_vec T') = retval_get i (retval_vec T))"

lemma tables_le_refl [simp]: "tables_le T T"
  by (simp add: tables_le_def)

lemma tables_le_trans: "tables_le T T' \<Longrightarrow> tables_le T' T'' \<Longrightarrow> tables_le T T''"
  by (auto simp: tables_le_def)

lemma opts_ok_mono: "opts_ok n T fo \<Longrightarrow> tables_le T T' \<Longrightarrow> opts_ok n T' fo"
  by (simp add: opts_ok_def tables_le_def) (blast intro: idx_ok_mono)

definition parse_ok :: "'a env_scheme \<Rightarrow> parse_state \<Rightarrow> parse_state \<Rightarrow> bool" where
  "parse_ok E st st' \<longleftrightarrow> tables_wf (tables st') \<and> opts_ok (nsig_bytes E * 8) (tables st') (fopts st') \<and>
     tables_le (tables st) (tables st') \<and> length (pdata st') = length (pdata st)"

lemma string_to_uint_ex_range:
  "string_to_uint_ex s m acc = Some (v, e) \<Longrightarrow> 0 \<le> v \<and> v \<le> m"
  by (auto simp: string_to_uint_ex_def split: if_splits prod.splits)

lemma string_to_uint_upto_range: "string_to_uint_upto s m \<le> max (- 1) m"
proof (cases "string_to_uint_ex s m None")
  case (Some r)
  then show ?thesis
    using string_to_uint_ex_range [of s m None "fst r" "snd r"]
    by (cases r) (simp add: string_to_uint_upto_def)
qed (simp add: string_to_uint_upto_def)

lemma parse_when_tail_Some:
  "parse_when_tail endp fo = Some fo' \<Longrightarrow> \<exists>s. fo' = fo\<lparr>step := s\<rparr>"
  by (auto simp: parse_when_tail_def Let_def split: if_splits)

lemma parse_when_Some:
  assumes "parse_when val fo = Some fo'"
  shows "\<exists>f l s. fo' = fo\<lparr>first := f, last_occ := l, step := s\<rparr> \<and>
    1 \<le> f \<and> f \<le> l \<and> l \<le> INJECT_LAST_INF"
proof -
  obtain v e where ve: "string_to_uint_ex val 0xffff (Some ''+.'') = Some (v, e)"
    using assms by (auto simp: parse_when_def split: option.splits)
  then have v: "0 \<le> v" "v \<le> 0xffff" by (auto dest: string_to_uint_ex_range)
  show ?thesis
  proof (cases "char_at e 0 = CHR ''.''")
    case True
    then obtain v' e' where ve': "string_to_uint_ex (drop 2 e) 0xffff (Some ''+'') = Some (v', e')"
      "int (nat v) \<le> v'" and t: "1 \<le> v"
      "parse_when_tail e' (fo\<lparr>first := nat v, last_occ := nat v'\<rparr>) = Some fo'"
      using assms ve by (auto simp: parse_when_def Let_def split: option.splits if_splits)
    obtain s where "fo' = fo\<lparr>first := nat v, last_occ := nat v', step := s\<rparr>"
      using parse_when_tail_Some [OF t(2)] by blast
    moreover have "1 \<le> nat v" "nat v \<le> nat v'" "nat v' \<le> INJECT_LAST_INF"
      using string_to_uint_ex_range [OF ve'(1)] t(1) ve'(2) v by simp_all
    ultimately show ?thesis by blast
  next
    case False
    then have t: "1 \<le> v" "parse_when_tail e (fo\<lparr>first := nat v, last_occ := INJECT_LAST_INF\<rparr>) = Some fo'"
      using assms ve by (auto simp: parse_when_def Let_def split: option.splits if_splits)
    obtain s where "fo' = fo\<lparr>first := nat v, last_occ := INJECT_LAST_INF, step := s\<rparr>"
      using parse_when_tail_Some [OF t(2)] by blast
    moreover have "1 \<le> nat v" "nat v \<le> INJECT_LAST_INF" using t(1) v by simp_all
    ultimately show ?thesis by blast
  qed
qed

lemma has_flag_or: "has_flag (f OR g) fo \<longleftrightarrow> has_flag f fo \<or> has_flag g fo"
  using or_and_eq_0 [of f g "inj_flags (data fo)"] by (simp add: has_flag_def and.commute)

definition parse_inv :: "'a env_scheme \<Rightarrow> parse_state \<Rightarrow> bool" where
  "parse_inv E st \<longleftrightarrow> tables_wf (tables st) \<and> opts_ok (nsig_bytes E * 8) (tables st) (fopts st)"

lemma set_rval_ok:
  assumes "parse_inv E st" "set_rval v flag st = Inr st'"
    and "\<not> has_flag (INJECT_F_ERROR OR INJECT_F_RETVAL) (fopts st)"
    and "flag = INJECT_F_ERROR \<or> flag = INJECT_F_RETVAL"
  shows "parse_ok E st st' \<and> retval_get (rval_idx (data (fopts st'))) (retval_vec (tables st')) = Inr v"
proof -
  obtain idx t where n: "retval_new v (retval_vec (tables st)) = Inr (idx, t)"
    and st': "st' = st\<lparr>
      fopts := set_flag flag ((fopts st)\<lparr>data := (data (fopts st))\<lparr>rval_idx := idx\<rparr>\<rparr>),
      tables := (tables st)\<lparr>retval_vec := t\<rparr>\<rparr>"
    using assms(2) by (auto simp: set_rval_def rbind_Inr_iff)
  have wf: "table_wf (retval_vec (tables st))" using assms(1) by (simp add: parse_inv_def tables_wf_def)
  note new = retval_new_Inr [OF wf n]
  have le: "tables_le (tables st) (tables st')" using new by (simp add: st' tables_le_def)
  have "opts_ok (nsig_bytes E * 8) (tables st') (fopts st)"
    using assms(1) le unfolding parse_inv_def by (blast intro: opts_ok_mono)
  then have "opts_ok (nsig_bytes E * 8) (tables st') (fopts st')"
    using assms(3,4) new unfolding has_flag_or
    by (elim disjE; simp add: st' opts_ok_def has_flag_set_flag idx_ok_def)
  then show ?thesis
    using assms(1) new le by (auto simp: parse_ok_def parse_inv_def tables_wf_def st')
qed

lemma parse_delay_token_ok:
  assumes "parse_inv E st" "parse_delay_token E input isenter st = Inr (Some st')"
  shows "parse_ok E st st'"
proof -
  let ?flag = "if isenter then INJECT_F_DELAY_ENTER else INJECT_F_DELAY_EXIT"
  let ?t = "delay_data_vec (tables st)"
  have inv: "table_wf ?t" "idx_ok (delay_idx (data (fopts st)) \<noteq> NO_IDX) (delay_idx (data (fopts st))) (used ?t)"
    using assms(1) by (simp_all add: parse_inv_def tables_wf_def opts_ok_def)
  obtain idx t t' val where a: "(if delay_idx (data (fopts st)) = NO_IDX then alloc_delay_data ?t
        else Inr (delay_idx (data (fopts st)), ?t)) = Inr (idx, t)"
    and f: "fill_delay_data idx val isenter t = Inr t'"
    and st': "st' = st\<lparr>
      fopts := set_flag ?flag ((fopts st)\<lparr>data := (data (fopts st))\<lparr>delay_idx := idx\<rparr>\<rparr>),
      tables := (tables st)\<lparr>delay_data_vec := t'\<rparr>\<rparr>"
    using assms(2)
    by (auto simp: parse_delay_token_def Let_def rbind_Inr_iff split: if_splits option.splits)
  have t: "table_wf t" "used ?t \<le> used t"
    using a inv(1) alloc_slot_Inr [OF inv(1), of 32] unfolding alloc_delay_data_def
    by (auto split: if_splits)
  have t': "table_wf t'" "used t' = used t" "idx < used t'"
    using f t(1) by (auto simp: fill_delay_data_def Let_def table_wf_def split: if_splits)
  have le: "tables_le (tables st) (tables st')" using t t' by (simp add: st' tables_le_def)
  have "opts_ok (nsig_bytes E * 8) (tables st') (fopts st)"
    using assms(1) le unfolding parse_inv_def by (blast intro: opts_ok_mono)
  then have "opts_ok (nsig_bytes E * 8) (tables st') (fopts st')"
    using t'(3) by (cases isenter; simp add: st' opts_ok_def has_flag_set_flag idx_ok_def)
  then show ?thesis
    using assms(1) le t' by (auto simp: parse_ok_def parse_inv_def tables_wf_def st')
qed

lemma parse_poke_loop_table:
  "parse_poke_loop toks isenter idx t = Some t' \<Longrightarrow> used t' = used t \<and> length (arena t') = length (arena t)"
  by (induction toks arbitrary: t)
    (auto simp: poke_add_def split: option.splits prod.splits bool.splits if_splits)

lemma parse_poke_token_ok:
  assumes "parse_inv E st" "parse_poke_token input isenter st = Inr (Some st')"
  shows "parse_ok E st st'"
proof -
  let ?flag = "if isenter then INJECT_F_POKE_ENTER else INJECT_F_POKE_EXIT"
  let ?t = "poke_data_vec (tables st)"
  have inv: "table_wf ?t" "idx_ok (poke_idx (data (fopts st)) \<noteq> NO_IDX) (poke_idx (data (fopts st))) (used ?t)"
    using assms(1) by (simp_all add: parse_inv_def tables_wf_def opts_ok_def)
  obtain idx t t' where a: "(if poke_idx (data (fopts st)) = NO_IDX then alloc_poke_data ?t
        else Inr (poke_idx (data (fopts st)), ?t)) = Inr (idx, t)"
    and f: "parse_poke_loop (tokens '','' input) isenter idx t = Some t'"
    and st': "st' = st\<lparr>
      fopts := set_flag ?flag ((fopts st)\<lparr>data := (data (fopts st))\<lparr>poke_idx := idx\<rparr>\<rparr>),
      tables := (tables st)\<lparr>poke_data_vec := t'\<rparr>\<rparr>"
    using assms(2)
    by (auto simp: parse_poke_token_def Let_def rbind_Inr_iff split: if_splits option.splits)
  have t: "table_wf t \<and> used ?t \<le> used t \<and> idx < used t"
  proof (cases "poke_idx (data (fopts st)) = NO_IDX")
    case True
    then obtain t0 where t0: "alloc_slot ''alloc_poke_data: poke index overflow'' [] 16 ?t = Inr (idx, t0)"
      "t = t0\<lparr>arena := (arena t0)[idx := []]\<rparr>"
      using a by (auto simp: alloc_poke_data_def rbind_Inr_iff)
    then show ?thesis using alloc_slot_Inr [OF inv(1) _ t0(1)] by (simp add: table_wf_def)
  next
    case False
    then show ?thesis using a inv by (simp add: idx_ok_def)
  qed
  then have t': "table_wf t'" "used t' = used t" "idx < used t'"
    using parse_poke_loop_table [OF f] by (auto simp: table_wf_def)
  have le: "tables_le (tables st) (tables st')" using t t' by (simp add: st' tables_le_def)
  have "opts_ok (nsig_bytes E * 8) (tables st') (fopts st)"
    using assms(1) le unfolding parse_inv_def by (blast intro: opts_ok_mono)
  then have "opts_ok (nsig_bytes E * 8) (tables st') (fopts st')"
    using t'(3) by (cases isenter; simp add: st' opts_ok_def has_flag_set_flag idx_ok_def)
  then show ?thesis
    using assms(1) le t' by (auto simp: parse_ok_def parse_inv_def tables_wf_def st')
qed

lemma parse_signal_token_ok:
  assumes "parse_inv E st" "parse_signal_token E val st = Some st'"
  shows "parse_ok E st st'"
proof -
  define n where "n = nat (sigstr_to_uint E val)"
  have n: "1 \<le> n" "n \<le> nsig_bytes E * 8"
    and st': "st' = st\<lparr>fopts := set_flag INJECT_F_SIGNAL ((fopts st)\<lparr>data := (data (fopts st))\<lparr>signo := n\<rparr>\<rparr>)\<rparr>"
    using assms(2) by (auto simp: parse_signal_token_def Let_def n_def split: if_splits)
  have "opts_ok (nsig_bytes E * 8) (tables st') (fopts st')"
    using assms(1) n by (simp add: st' parse_inv_def opts_ok_def has_flag_set_flag idx_ok_def)
  then show ?thesis using assms(1) by (simp add: parse_ok_def parse_inv_def st')
qed

lemma parse_when_ok:
  assumes "parse_inv E st" "parse_when val (fopts st) = Some fo"
  shows "parse_ok E st (st\<lparr>fopts := fo\<rparr>)"
proof -
  obtain f l s where "fo = (fopts st)\<lparr>first := f, last_occ := l, step := s\<rparr>"
    "1 \<le> f" "f \<le> l" "l \<le> INJECT_LAST_INF" using parse_when_Some [OF assms(2)] by blast
  then show ?thesis using assms(1) by (simp add: parse_inv_def parse_ok_def opts_ok_def)
qed

lemma parse_syscall_pers_length:
  "parse_syscall_pers E val ps pd = Some pd' \<Longrightarrow> length pd' = length pd"
  by (induction ps arbitrary: pd) (auto split: option.splits if_splits)

lemma parse_error_token_ok:
  assumes "parse_inv E st" "parse_error_token E val st = Inr (Some st')"
  shows "parse_ok E st st'"
proof -
  obtain v where "set_rval v INJECT_F_ERROR st = Inr st'"
    "\<not> has_flag (INJECT_F_ERROR OR INJECT_F_RETVAL) (fopts st)"
    using assms(2) unfolding parse_error_token_def Let_def
    by (auto simp: rbind_Inr_iff simp del: bit_numeral_simps split: if_splits)
  then show ?thesis using set_rval_ok [OF assms(1)] by blast
qed

lemma parse_retval_token_ok:
  assumes "parse_inv E st" "parse_retval_token E val st = Inr (Some st')"
  shows "parse_ok E st st'"
proof -
  obtain v log where log: "set_rval v INJECT_F_RETVAL (st\<lparr>tables := (tables st)\<lparr>err_log := log\<rparr>\<rparr>) = Inr st'"
    "\<not> has_flag (INJECT_F_ERROR OR INJECT_F_RETVAL) (fopts st)"
    using assms(2) unfolding parse_retval_token_def Let_def
    by (auto simp: rbind_Inr_iff simp del: bit_numeral_simps split: if_splits prod.splits)
  let ?st = "st\<lparr>tables := (tables st)\<lparr>err_log := log\<rparr>\<rparr>"
  have "parse_inv E ?st"
    using assms(1) by (simp add: parse_inv_def tables_wf_def opts_ok_def)
  then have "parse_ok E ?st st'" using set_rval_ok [of E ?st v INJECT_F_RETVAL st'] log by simp
  then show ?thesis by (simp add: parse_ok_def tables_le_def)
qed

lemma parse_inject_token_ok:
  assumes "parse_inv E st" "parse_inject_token E token fto st = Inr (Some st')"
  shows "parse_ok E st st'"
proof -
  have sc: "parse_ok E st (st\<lparr>fopts := set_flag INJECT_F_SYSCALL (fopts st), pdata := pd\<rparr>)"
    if "parse_syscall_pers E val ps (pdata st) = Some pd" for pd ps val
    using assms(1) parse_syscall_pers_length [OF that]
    by (simp add: parse_inv_def parse_ok_def opts_ok_def has_flag_set_flag)
  show ?thesis
    using assms(2) parse_when_ok [OF assms(1)] sc
      parse_error_token_ok [OF assms(1)] parse_retval_token_ok [OF assms(1)]
      parse_signal_token_ok [OF assms(1)] parse_poke_token_ok [OF assms(1)]
      parse_delay_token_ok [OF assms(1)]
    unfolding parse_inject_token_def by (auto split: if_splits)
qed

lemma parse_ok_trans: "parse_ok E st st' \<Longrightarrow> parse_ok E st' st'' \<Longrightarrow> parse_ok E st st''"
  by (auto simp: parse_ok_def intro: tables_le_trans)

lemma parse_ok_inv: "parse_ok E st st' \<Longrightarrow> parse_inv E st'"
  by (simp add: parse_ok_def parse_inv_def)

lemma parse_inject_tokens_ok:
  "parse_inv E st \<Longrightarrow> parse_inject_tokens E toks fto st = Inr (Some st') \<Longrightarrow> parse_ok E st st'"
proof (induction toks arbitrary: st)
  case Nil
  then show ?case by (simp add: parse_ok_def parse_inv_def)
next
  case (Cons tok toks)
  then obtain st1 where s: "parse_inject_token E tok fto st = Inr (Some st1)"
    "parse_inject_tokens E toks fto st1 = Inr (Some st')"
    by (auto simp: rbind_Inr_iff split: option.splits)
  show ?case
    using parse_inject_token_ok [OF Cons.prems(1) s(1)] Cons.IH [OF _ s(2)]
    by (blast intro: parse_ok_trans parse_ok_inv)
qed

lemma parse_inject_expression_ok:
  assumes "parse_inv E st" "parse_inject_expression E str fto st = Inr (Some (name, st'))"
  shows "parse_ok E st st'"
  using assms parse_inject_tokens_ok [OF assms(1)]
  by (auto simp: parse_inject_expression_def rbind_Inr_iff parse_ok_def parse_inv_def
      split: if_splits option.splits)

section \<open>Reading back what is written\<close>

lemma string_to_uint_upto_dec_string:
  assumes "int n \<le> m" "m \<le> LLONG_MAX"
  shows "string_to_uint_upto (dec_string n) m = int n"
proof -
  have syn: "number_syntax [] [] (dec_string n) []"
    by (simp add: number_syntax_def dec_string_digits)
  have val: "signed_val [] (dec_string n) = int n"
    by (simp add: signed_val_def digits_val_dec_string)
  show ?thesis
    using assms syn val by (subst string_to_uint_upto_iff) (simp_all, metis append_Nil)
qed

lemma parse_when_first:
  assumes "1 \<le> f" "f \<le> 0xffff" "rest = [] \<or> hd rest = CHR ''+''"
  shows "parse_when (dec_string f @ rest) fo =
    parse_when_tail rest (fo\<lparr>first := f, last_occ := INJECT_LAST_INF\<rparr>)"
proof -
  have "string_to_uint_ex (dec_string f @ rest) 0xffff (Some ''+.'') = Some (int f, rest)"
    using assms by (intro string_to_uint_ex_dec_string) (auto simp: is_digit_def ord_def)
  then show ?thesis using assms by (cases rest) (auto simp: parse_when_def char_at_def)
qed

lemma parse_when_range:
  assumes "1 \<le> f" "f \<le> l" "l < 0xffff" "rest = [] \<or> hd rest = CHR ''+''"
  shows "parse_when (dec_string f @ ''..'' @ dec_string l @ rest) fo =
    parse_when_tail rest (fo\<lparr>first := f, last_occ := l\<rparr>)"
proof -
  have "string_to_uint_ex (dec_string f @ ''..'' @ dec_string l @ rest) 0xffff (Some ''+.'')
      = Some (int f, ''..'' @ dec_string l @ rest)"
    using assms by (intro string_to_uint_ex_dec_string) (auto simp: is_digit_def ord_def)
  moreover have "string_to_uint_ex (dec_string l @ rest) 0xffff (Some ''+'') = Some (int l, rest)"
    using assms by (intro string_to_uint_ex_dec_string) (auto simp: is_digit_def ord_def)
  ultimately show ?thesis using assms by (simp add: parse_when_def char_at_def)
qed

lemma parse_when_tail_step:
  "1 \<le> s \<Longrightarrow> s \<le> 0xffff \<Longrightarrow> parse_when_tail (''+'' @ dec_string s) fo = Some (fo\<lparr>step := s\<rparr>)"
  using string_to_uint_upto_dec_string [of s "0xffff"] by (simp add: parse_when_tail_def)

definition hex_byte :: "u8 \<Rightarrow> string" where
  "hex_byte b = [hex_digit (unat b div 16), hex_digit (unat b mod 16)]"

lemma hex_byte_not_Nil [simp]: "hex_byte b \<noteq> []"
  by (simp add: hex_byte_def)

lemma sscanf_hex_byte: "sscanf_2hhx (hex_byte b @ rest) = Some b"
proof -
  have lt: "unat b div 16 < 16" "unat b mod 16 < 16"
    using unat_less_256 [of b] by (simp_all add: less_mult_imp_div_less)
  note d = xdigit_val_hex_digit [OF lt(1)] xdigit_val_hex_digit [OF lt(2)]
  have "word_of_nat (16 * (unat b div 16) + unat b mod 16) = b" by (simp only: mult_div_mod_eq) simp
  then show ?thesis
    using d xdigit_not_special [OF d(1)]
    by (simp add: sscanf_2hhx_def hex_byte_def char_at_def del: of_nat_add of_nat_mult)
qed

lemma scan_bytes_hex:
  "scan_bytes (pre @ concat (map hex_byte bs)) [length pre div 2..<length pre div 2 + length bs] = Some bs"
  if "even (length pre)"
  using that
proof (induction bs arbitrary: pre)
  case (Cons b bs)
  let ?q = "length pre div 2"
  have len: "length (hex_byte b) = 2" by (simp add: hex_byte_def)
  have "scan_bytes ((pre @ hex_byte b) @ concat (map hex_byte bs))
      [length (pre @ hex_byte b) div 2..<length (pre @ hex_byte b) div 2 + length bs] = Some bs"
    using Cons.prems len by (intro Cons.IH) simp
  then have ih: "scan_bytes (pre @ concat (map hex_byte (b # bs))) [Suc ?q..<?q + length (b # bs)] = Some bs"
    using len by (simp del: upt_Suc)
  have upt: "[?q..<?q + length (b # bs)] = ?q # [Suc ?q..<?q + length (b # bs)]"
    by (simp add: upt_conv_Cons del: upt_Suc)
  have "drop (2 * ?q) (pre @ concat (map hex_byte (b # bs))) = hex_byte b @ concat (map hex_byte bs)"
    using Cons.prems by simp
  then show ?case unfolding upt using ih sscanf_hex_byte [of b "concat (map hex_byte bs)"]
    by (simp del: upt_Suc)
qed simp

section \<open>Properties\<close>

text \<open>C28: Every option and table state an injection expression leaves behind is well formed,
  whatever its tokens: the indices its flags announce are inside their tables, \<^verbatim>\<open>error=\<close> and
  \<^verbatim>\<open>retval=\<close> are never combined, the signal is between 1 and the number of signals, the first
  occurrence is at least 1 and not after the last; entries allocated earlier stay readable.\<close>

theorem parse_inject_expression_invariant:
  assumes "tables_wf (tables st)" "opts_ok (nsig_bytes E * 8) (tables st) (fopts st)"
    and "parse_inject_expression E str fault_tokens_only st = Inr (Some (name, st'))"
  shows "tables_wf (tables st') \<and> opts_ok (nsig_bytes E * 8) (tables st') (fopts st') \<and>
    tables_le (tables st) (tables st')"
  using parse_inject_expression_ok [OF _ assms(3)] assms(1,2)
  by (simp add: parse_inv_def parse_ok_def)

text \<open>C33: The five forms of the occurrence range are read as written: \<^verbatim>\<open>F\<close> is the single
  occurrence \<open>F\<close> (step 0), \<^verbatim>\<open>F+\<close> and \<^verbatim>\<open>F+S\<close> go on forever with step 1 and \<open>S\<close>, \<^verbatim>\<open>F..L\<close> and
  \<^verbatim>\<open>F..L+S\<close> stop at \<open>L\<close>.\<close>

theorem parse_when_forms:
  assumes "1 \<le> f" "f \<le> 0xffff" "1 \<le> s" "s \<le> 0xffff"
  shows "parse_when (dec_string f) fo
      = Some (fo\<lparr>first := f, last_occ := INJECT_LAST_INF, step := 0\<rparr>) \<and>
    parse_when (dec_string f @ ''+'') fo
      = Some (fo\<lparr>first := f, last_occ := INJECT_LAST_INF, step := 1\<rparr>) \<and>
    parse_when (dec_string f @ ''+'' @ dec_string s) fo
      = Some (fo\<lparr>first := f, last_occ := INJECT_LAST_INF, step := s\<rparr>) \<and>
    (f \<le> l \<and> l < 0xffff \<longrightarrow>
      parse_when (dec_string f @ ''..'' @ dec_string l) fo
        = Some (fo\<lparr>first := f, last_occ := l, step := 1\<rparr>) \<and>
      parse_when (dec_string f @ ''..'' @ dec_string l @ ''+'' @ dec_string s) fo
        = Some (fo\<lparr>first := f, last_occ := l, step := s\<rparr>))"
  using parse_when_first [OF assms(1,2), of "[]" fo] parse_when_first [OF assms(1,2), of "''+''" fo]
    parse_when_first [OF assms(1,2), of "''+'' @ dec_string s" fo]
    parse_when_range [OF assms(1), of l "[]" fo]
    parse_when_range [OF assms(1), of l "''+'' @ dec_string s" fo]
    parse_when_tail_step [OF assms(3,4)]
  by (simp add: parse_when_tail_def)

theorem parse_inject_expression_invariant_witness:
  "\<exists>name st'. parse_inject_expression small_env ''write:error=5:when=2+'' False init_parse_state
      = Inr (Some (name, st')) \<and> opts_ok 64 (tables st') (fopts st')"
proof -
  have r: "\<exists>name st'. parse_inject_expression small_env ''write:error=5:when=2+'' False init_parse_state
      = Inr (Some (name, st'))"
    by (simp add: parse_inject_expression_def string_eval parse_inject_token_def has_prefix_def
        parse_error_token_def set_rval_def retval_new_def alloc_slot_def expand_vec_def parse_when_def
        parse_when_tail_def char_at_def init_parse_state_def init_opts_def
        init_tables_def has_flag_def set_flag_def empty_table_def)
  show ?thesis
    using r parse_inject_expression_invariant [of init_parse_state small_env]
    by (auto simp: small_env_def init_parse_state_def init_opts_def init_tables_def
        arch.defs tables_wf_def opts_ok_def idx_ok_def has_flag_def)
qed

theorem parse_when_forms_witness:
  "parse_when (dec_string 2 @ ''..'' @ dec_string 9 @ ''+'' @ dec_string 3) init_opts
     = Some (init_opts\<lparr>first := 2, last_occ := 9, step := 3\<rparr>)"
  using parse_when_forms [of 2 3 init_opts 9] by simp

text \<open>Bytes written as pairs of hexadecimal digits after \<^verbatim>\<open>@argN=\<close> are the bytes of the poke,
  for one up to 1024 bytes and arguments 1 to 7.\<close>

lemma parse_poke_arg_hex:
  assumes "1 \<le> n" "n \<le> 7" "bs \<noteq> []" "length bs \<le> 1024"
  shows "parse_poke_arg (''@arg'' @ [char_of (48 + n), CHR ''=''] @ concat (map hex_byte bs)) isenter
    = Some \<lparr>poke_data = bs, arg_no = n, is_enter = isenter\<rparr>"
proof -
  have len: "length (concat (map hex_byte bs)) = 2 * length bs"
    by (induction bs) (simp_all add: hex_byte_def)
  have "scan_bytes (concat (map hex_byte bs)) [0..<length bs] = Some bs"
    using scan_bytes_hex [of "[]" bs] by simp
  then show ?thesis
    using assms len by (simp add: parse_poke_arg_def has_prefix_def char_at_def Let_def ex_in_conv)
qed

text \<open>A pair whose second character is not a hexadecimal digit is accepted as the value of
  its first digit: \<^verbatim>\<open>@arg1=1g\<close> pokes the byte 1, where it should be refused.\<close>

lemma parse_poke_arg_accepts_garbage:
  "parse_poke_arg ''@arg1=1g'' isenter = Some \<lparr>poke_data = [1], arg_no = 1, is_enter = isenter\<rparr>"
  by (simp add: parse_poke_arg_def has_prefix_def char_at_def sscanf_2hhx_def xdigit_val_def
      is_digit_def is_space_def ord_def)

end
