(* ===== verification/Filter_Qualify.thy ===== *)
theory Filter_Qualify
  imports Inject_Parse
begin

text \<open>
  The filters of \<^verbatim>\<open>src/src/filter_qualify.c\<close>: the number sets that the \<^verbatim>\<open>-e\<close> options fill, the
  injection vectors of the personalities, the dispatcher \<^verbatim>\<open>qualify\<close> and the flags
  \<^verbatim>\<open>qual_flags\<close> a system call gets from the sets. The file-scope variables are the fields
  of a record; a \<^verbatim>\<open>NULL\<close> set is \<open>None\<close>.
\<close>

section \<open>State\<close>

datatype kvm_mode = DECODE_KVM_RUN_STRUCTURE_NONE | DECODE_KVM_RUN_STRUCTURE_EXIT_REASON
  | DECODE_KVM_RUN_STRUCTURE_MORE

record filters =
  read_set :: "number_set_array option"
  write_set :: "number_set_array option"
  signal_set :: "number_set_array option"
  status_set :: "number_set_array option"
  quiet_set :: "number_set_array option"
  decode_fd_set :: "number_set_array option"
  decode_pid_set :: "number_set_array option"
  secontext_set :: "number_set_array option"
  trace_set :: "number_set_array option"
  trace_fd_set :: "number_set_array option"
  inject_set :: "number_set_array option"
  abbrev_set :: "number_set_array option"
  raw_set :: "number_set_array option"
  verbose_set :: "number_set_array option"
  quiet_set_updated :: bool
  decode_fd_set_updated :: bool
  tracing_fds :: bool
  inject_vec :: "inject_opts list option list"
  inj_tables :: inject_tables
  kvm_run_mode :: kvm_mode
  namespace_auxstr :: bool

definition set_or_alloc :: "nat \<Rightarrow> number_set_array option \<Rightarrow> number_set_array" where
  "set_or_alloc n s = (case s of None \<Rightarrow> alloc_number_set_array n | Some a \<Rightarrow> a)"

section \<open>Options over number sets\<close>

definition qualify_read :: "string \<Rightarrow> filters \<Rightarrow> die + filters" where
  "qualify_read str F =
     rbind (qualify_tokens str (set_or_alloc 1 (read_set F)) string_to_uint ''descriptor'')
       (\<lambda>ns. Inr (F\<lparr>read_set := Some ns\<rparr>))"

definition qualify_write :: "string \<Rightarrow> filters \<Rightarrow> die + filters" where
  "qualify_write str F =
     rbind (qualify_tokens str (set_or_alloc 1 (write_set F)) string_to_uint ''descriptor'')
       (\<lambda>ns. Inr (F\<lparr>write_set := Some ns\<rparr>))"

definition qualify_signals :: "'a env_scheme \<Rightarrow> string \<Rightarrow> filters \<Rightarrow> die + filters" where
  "qualify_signals E str F =
     rbind (qualify_tokens str (set_or_alloc 1 (signal_set F)) (sigstr_to_uint E) ''signal'')
       (\<lambda>ns. Inr (F\<lparr>signal_set := Some ns\<rparr>))"

definition qualify_status :: "string \<Rightarrow> filters \<Rightarrow> die + filters" where
  "qualify_status str F =
     rbind (qualify_tokens str (set_or_alloc 1 (status_set F)) statusstr_to_uint ''status'')
       (\<lambda>ns. Inr (F\<lparr>status_set := Some ns\<rparr>))"

definition qualify_quiet :: "string \<Rightarrow> filters \<Rightarrow> die + filters" where
  "qualify_quiet str F =
     (let F = (if quiet_set F = None then F else F\<lparr>quiet_set_updated := True\<rparr>)
      in rbind (qualify_tokens str (set_or_alloc 1 (quiet_set F)) quietstr_to_uint ''quiet'')
           (\<lambda>ns. Inr (F\<lparr>quiet_set := Some ns\<rparr>)))"

definition qualify_decode_fd :: "string \<Rightarrow> filters \<Rightarrow> die + filters" where
  "qualify_decode_fd str F =
     (let F = (if decode_fd_set F = None then F else F\<lparr>decode_fd_set_updated := True\<rparr>)
      in rbind (qualify_tokens str (set_or_alloc 1 (decode_fd_set F)) decode_fd_str_to_uint
                 ''decode-fds'')
           (\<lambda>ns. Inr (F\<lparr>decode_fd_set := Some ns\<rparr>)))"

definition qualify_decode_pid :: "string \<Rightarrow> filters \<Rightarrow> die + filters" where
  "qualify_decode_pid str F =
     rbind (qualify_tokens str (set_or_alloc 1 (decode_pid_set F)) decode_pid_str_to_uint
             ''decode-pids'')
       (\<lambda>ns. Inr (F\<lparr>decode_pid_set := Some ns\<rparr>))"

definition qualify_trace :: "'a env_scheme \<Rightarrow> string \<Rightarrow> filters \<Rightarrow> die + filters" where
  "qualify_trace E str F =
     rbind (qualify_syscall_tokens E (env_regcomp E) str
             (set_or_alloc (SUPPORTED_PERSONALITIES E) (trace_set F)))
       (\<lambda>ns. Inr (F\<lparr>trace_set := Some ns\<rparr>))"

definition qualify_trace_fd :: "string \<Rightarrow> filters \<Rightarrow> die + filters" where
  "qualify_trace_fd str F =
     rbind (qualify_tokens str (set_or_alloc 1 (trace_fd_set F)) string_to_uint ''descriptor'')
       (\<lambda>ns. Inr (F\<lparr>trace_fd_set := Some ns, tracing_fds := True\<rparr>))"

definition qualify_abbrev :: "'a env_scheme \<Rightarrow> string \<Rightarrow> filters \<Rightarrow> die + filters" where
  "qualify_abbrev E str F =
     rbind (qualify_syscall_tokens E (env_regcomp E) str
             (set_or_alloc (SUPPORTED_PERSONALITIES E) (abbrev_set F)))
       (\<lambda>ns. Inr (F\<lparr>abbrev_set := Some ns\<rparr>))"

definition qualify_verbose :: "'a env_scheme \<Rightarrow> string \<Rightarrow> filters \<Rightarrow> die + filters" where
  "qualify_verbose E str F =
     rbind (qualify_syscall_tokens E (env_regcomp E) str
             (set_or_alloc (SUPPORTED_PERSONALITIES E) (verbose_set F)))
       (\<lambda>ns. Inr (F\<lparr>verbose_set := Some ns\<rparr>))"

definition qualify_raw :: "'a env_scheme \<Rightarrow> string \<Rightarrow> filters \<Rightarrow> die + filters" where
  "qualify_raw E str F =
     rbind (qualify_syscall_tokens E (env_regcomp E) str
             (set_or_alloc (SUPPORTED_PERSONALITIES E) (raw_set F)))
       (\<lambda>ns. Inr (F\<lparr>raw_set := Some ns\<rparr>))"

section \<open>Injection\<close>

abbreviation ENOSYS :: u64 where "ENOSYS \<equiv> 38"

text \<open>The merge of the temporary set of one personality: lines 572 to 598.\<close>

definition inject_one :: "inject_opts \<Rightarrow> nat \<Rightarrow> number_set_array \<Rightarrow> nat \<Rightarrow> nat \<Rightarrow> filters \<Rightarrow> filters" where
  "inject_one opts scno tmp_set p i F =
     (if is_number_in_set_array i (Some tmp_set) p then
        F\<lparr>inject_set := map_option (\<lambda>s. add_number_to_set_array i s p) (inject_set F),
          inject_vec := (inject_vec F)[p := map_option
            (\<lambda>v. v[i := opts\<lparr>data := (data opts)\<lparr>inj_scno := scno\<rparr>\<rparr>]) (inject_vec F ! p)]\<rparr>
      else F)"

definition inject_pers ::
    "'a env_scheme \<Rightarrow> inject_opts \<Rightarrow> nat list \<Rightarrow> number_set_array \<Rightarrow> nat \<Rightarrow> filters \<Rightarrow> filters" where
  "inject_pers E opts pd tmp_set p F =
     (if number_set_array_is_empty (Some tmp_set) p then F
      else let F = F\<lparr>inject_set :=
                       Some (set_or_alloc (SUPPORTED_PERSONALITIES E) (inject_set F)),
                     inject_vec := (inject_vec F)[p := Some (case inject_vec F ! p of
                         None \<Rightarrow> replicate (nsyscall_vec E ! p) zero_opts | Some v \<Rightarrow> v)]\<rparr>
        in fold (inject_one opts (pd ! p) tmp_set p) [0..<nsyscall_vec E ! p] F)"

definition qualify_inject_common ::
    "'a env_scheme \<Rightarrow> string \<Rightarrow> bool \<Rightarrow> string \<Rightarrow> filters \<Rightarrow> die + filters" where
  "qualify_inject_common E str fault_tokens_only description F =
     rbind (parse_inject_expression E str fault_tokens_only
             \<lparr>fopts = init_opts, pdata = replicate (SUPPORTED_PERSONALITIES E) 0,
              tables = inj_tables F\<rparr>)
       (\<lambda>r. case r of
          None \<Rightarrow> Inl (Die (''invalid '' @ description @ '' '' @ quoted str))
        | Some (name, st) \<Rightarrow>
            rbind (qualify_syscall_tokens E (env_regcomp E) name
                    (alloc_number_set_array (SUPPORTED_PERSONALITIES E)))
              (\<lambda>tmp_set.
                 rbind (if \<not> has_flag INJECT_ACTION_FLAGS (fopts st) then
                          if fault_tokens_only then
                            set_rval ENOSYS INJECT_F_ERROR st
                          else Inl (Die (''invalid '' @ description @ '' '' @ quoted str))
                        else Inr st)
                   (\<lambda>st. Inr (fold (inject_pers E (fopts st) (pdata st) tmp_set)
                                [0..<SUPPORTED_PERSONALITIES E]
                                (F\<lparr>inj_tables := tables st\<rparr>)))))"

definition qualify_fault :: "'a env_scheme \<Rightarrow> string \<Rightarrow> filters \<Rightarrow> die + filters" where
  "qualify_fault E str F = qualify_inject_common E str True ''fault argument'' F"

definition qualify_inject :: "'a env_scheme \<Rightarrow> string \<Rightarrow> filters \<Rightarrow> die + filters" where
  "qualify_inject E str F = qualify_inject_common E str False ''inject argument'' F"

section \<open>The remaining options\<close>

abbreviation (input) KERNEL_VERSION :: "nat \<Rightarrow> nat \<Rightarrow> nat \<Rightarrow> nat" where
  "KERNEL_VERSION a b c \<equiv> a * 65536 + b * 256 + c"

definition qualify_kvm :: "'a env_scheme \<Rightarrow> string \<Rightarrow> filters \<Rightarrow> die + filters" where
  "qualify_kvm E str F =
     (let wrong = Inl (Die (''invalid -e kvm= argument: '' @ quoted str));
          log = (\<lambda>msg. F\<lparr>inj_tables := (inj_tables F)\<lparr>err_log := err_log (inj_tables F) @ [msg]\<rparr>\<rparr>)
      in if has_prefix ''vcpu'' str then
           if have_linux_kvm_h E then
             if os_release E \<ge> KERNEL_VERSION 4 16 0 then
               if drop 4 str = [] then Inr (F\<lparr>kvm_run_mode := DECODE_KVM_RUN_STRUCTURE_EXIT_REASON\<rparr>)
               else if drop 4 str = ''+'' then Inr (F\<lparr>kvm_run_mode := DECODE_KVM_RUN_STRUCTURE_MORE\<rparr>)
               else wrong
             else Inr (log (''-e kvm='' @ str @ '' option needs Linux 4.16.0 or higher''))
           else wrong
         else wrong)"

definition qualify_namespace :: "string \<Rightarrow> filters \<Rightarrow> die + filters" where
  "qualify_namespace str F =
     (if str = ''new'' then Inr (F\<lparr>namespace_auxstr := True\<rparr>)
      else Inl (Die (''invalid -e namespace= argument: '' @ quoted str)))"

definition qualify_secontext :: "'a env_scheme \<Rightarrow> string \<Rightarrow> filters \<Rightarrow> die + filters" where
  "qualify_secontext E str F =
     (if enable_secontext E then
        rbind (qualify_tokens str (set_or_alloc 1 (secontext_set F)) secontextstr_to_uint ''secontext'')
          (\<lambda>ns. Inr (F\<lparr>secontext_set := Some ns\<rparr>))
      else Inl (Die (''SELinux context printing (--secontext option) '' @
                     ''is not supported by this build of strace'')))"

section \<open>Dispatch\<close>

datatype qual_fun = Q_trace | Q_trace_fd | Q_abbrev | Q_verbose | Q_raw | Q_signals | Q_status
  | Q_quiet | Q_read | Q_write | Q_fault | Q_inject | Q_kvm | Q_decode_fd | Q_decode_pid
  | Q_secontext | Q_namespace

definition qual_options :: "(string \<times> qual_fun) list" where
  "qual_options =
    [(''trace'', Q_trace), (''t'', Q_trace), (''trace-fd'', Q_trace_fd), (''trace-fds'', Q_trace_fd),
     (''fd'', Q_trace_fd), (''fds'', Q_trace_fd), (''abbrev'', Q_abbrev), (''a'', Q_abbrev),
     (''verbose'', Q_verbose), (''v'', Q_verbose), (''raw'', Q_raw), (''x'', Q_raw),
     (''signal'', Q_signals), (''signals'', Q_signals), (''s'', Q_signals), (''status'', Q_status),
     (''quiet'', Q_quiet), (''silent'', Q_quiet), (''silence'', Q_quiet), (''q'', Q_quiet),
     (''read'', Q_read), (''reads'', Q_read), (''r'', Q_read), (''write'', Q_write),
     (''writes'', Q_write), (''w'', Q_write), (''fault'', Q_fault), (''inject'', Q_inject),
     (''kvm'', Q_kvm), (''decode-fd'', Q_decode_fd), (''decode-fds'', Q_decode_fd),
     (''decode-pid'', Q_decode_pid), (''decode-pids'', Q_decode_pid),
     (''secontext'', Q_secontext), (''namespace'', Q_namespace)]"

fun call_qual :: "'a env_scheme \<Rightarrow> qual_fun \<Rightarrow> string \<Rightarrow> filters \<Rightarrow> die + filters" where
  "call_qual E Q_trace str F = qualify_trace E str F"
| "call_qual E Q_trace_fd str F = qualify_trace_fd str F"
| "call_qual E Q_abbrev str F = qualify_abbrev E str F"
| "call_qual E Q_verbose str F = qualify_verbose E str F"
| "call_qual E Q_raw str F = qualify_raw E str F"
| "call_qual E Q_signals str F = qualify_signals E str F"
| "call_qual E Q_status str F = qualify_status str F"
| "call_qual E Q_quiet str F = qualify_quiet str F"
| "call_qual E Q_read str F = qualify_read str F"
| "call_qual E Q_write str F = qualify_write str F"
| "call_qual E Q_fault str F = qualify_fault E str F"
| "call_qual E Q_inject str F = qualify_inject E str F"
| "call_qual E Q_kvm str F = qualify_kvm E str F"
| "call_qual E Q_decode_fd str F = qualify_decode_fd str F"
| "call_qual E Q_decode_pid str F = qualify_decode_pid str F"
| "call_qual E Q_secontext str F = qualify_secontext E str F"
| "call_qual E Q_namespace str F = qualify_namespace str F"

definition qualify :: "'a env_scheme \<Rightarrow> string \<Rightarrow> filters \<Rightarrow> die + filters" where
  "qualify E str F =
     (case find (\<lambda>(name, q). has_prefix name str \<and> char_at (drop (length name) str) 0 = CHR ''='')
        qual_options
      of Some (name, q) \<Rightarrow> call_qual E q (drop (length name + 1) str) F
       | None \<Rightarrow> call_qual E Q_trace str F)"

abbreviation QUAL_TRACE :: u32 where "QUAL_TRACE \<equiv> 0x001"
abbreviation QUAL_ABBREV :: u32 where "QUAL_ABBREV \<equiv> 0x002"
abbreviation QUAL_VERBOSE :: u32 where "QUAL_VERBOSE \<equiv> 0x004"
abbreviation QUAL_RAW :: u32 where "QUAL_RAW \<equiv> 0x008"
abbreviation QUAL_INJECT :: u32 where "QUAL_INJECT \<equiv> 0x010"

definition qual_flags :: "filters \<Rightarrow> nat \<Rightarrow> nat \<Rightarrow> u32" where
  "qual_flags F current_personality scno =
     (if is_number_in_set_array scno (trace_set F) current_personality then QUAL_TRACE else 0) OR
     (if is_number_in_set_array scno (abbrev_set F) current_personality then QUAL_ABBREV else 0) OR
     (if is_number_in_set_array scno (verbose_set F) current_personality then QUAL_VERBOSE else 0) OR
     (if is_number_in_set_array scno (raw_set F) current_personality then QUAL_RAW else 0) OR
     (if is_number_in_set_array scno (inject_set F) current_personality then QUAL_INJECT else 0)"

section \<open>Effect of an injection option\<close>

abbreviation (input) with_scno :: "nat \<Rightarrow> inject_opts \<Rightarrow> inject_opts" where
  "with_scno scno opts \<equiv> opts\<lparr>data := (data opts)\<lparr>inj_scno := scno\<rparr>\<rparr>"

lemma fold_inject_one:
  assumes "inject_set F = Some s" "inject_vec F ! p = Some v" "p < length (inject_vec F)"
  shows "fold (inject_one opts scno tmp p) is F =
    F\<lparr>inject_set := Some (fold (\<lambda>i s. if is_number_in_set_array i (Some tmp) p
           then add_number_to_set_array i s p else s) is s),
      inject_vec := (inject_vec F)[p := Some (fold (\<lambda>i v. if is_number_in_set_array i (Some tmp) p
           then v[i := with_scno scno opts] else v) is v)]\<rparr>"
  using assms
proof (induction "is" arbitrary: F s v)
  case Nil
  then have "(inject_vec F)[p := Some v] = inject_vec F" by (metis list_update_id)
  then show ?case using Nil.prems(1) by (cases F) simp
next
  case (Cons i "is")
  show ?case
  proof (cases "is_number_in_set_array i (Some tmp) p")
    case True
    let ?F = "inject_one opts scno tmp p i F"
    have "inject_set ?F = Some (add_number_to_set_array i s p)"
      "inject_vec ?F ! p = Some (v[i := with_scno scno opts])"
      "p < length (inject_vec ?F)"
      using Cons.prems True by (simp_all add: inject_one_def)
    from Cons.IH [OF this] show ?thesis using Cons.prems True by (simp add: inject_one_def)
  next
    case False
    then show ?thesis using Cons by (simp add: inject_one_def)
  qed
qed

lemma fold_update_nth:
  "i < length v \<Longrightarrow> fold (\<lambda>i v. if P i then v[i := x] else v) is v ! i = (if i \<in> set is \<and> P i then x else v ! i)"
proof (induction "is" arbitrary: v)
  case (Cons a "is")
  then show ?case by (cases "a = i") (auto simp: nth_list_update)
qed simp

lemma fold_update_length [simp]:
  "length (fold (\<lambda>i v. if P i then v[i := x] else v) is v) = length v"
  by (induction "is" arbitrary: v) auto

text \<open>The entry of a system call in the injection vector of a personality.\<close>

definition inj_entry :: "filters \<Rightarrow> nat \<Rightarrow> nat \<Rightarrow> inject_opts" where
  "inj_entry F p i = (case inject_vec F ! p of None \<Rightarrow> zero_opts | Some v \<Rightarrow> v ! i)"

text \<open>
  The invariant of the injection state: the vectors have the sizes of the tables, the set
  of injected calls is a plain set of known calls, and each of them has valid options.
\<close>

definition inj_set_ok :: "'a env_scheme \<Rightarrow> number_set_array \<Rightarrow> bool" where
  "inj_set_ok E s \<longleftrightarrow> nsa_wf (SUPPORTED_PERSONALITIES E) s \<and>
     (\<forall>p < SUPPORTED_PERSONALITIES E. \<not> ns_not (s ! p))"

definition inj_vec_ok :: "'a env_scheme \<Rightarrow> inject_opts list option list \<Rightarrow> bool" where
  "inj_vec_ok E vs \<longleftrightarrow> length vs = SUPPORTED_PERSONALITIES E \<and>
     (\<forall>p < SUPPORTED_PERSONALITIES E. \<forall>v. vs ! p = Some v \<longrightarrow> length v = nsyscall_vec E ! p)"

definition injected :: "filters \<Rightarrow> nat \<Rightarrow> nat \<Rightarrow> bool" where
  "injected F p i \<longleftrightarrow> is_number_in_set_array i (inject_set F) p"

definition inj_inv :: "'a env_scheme \<Rightarrow> filters \<Rightarrow> bool" where
  "inj_inv E F \<longleftrightarrow> pred_option (inj_set_ok E) (inject_set F) \<and> inj_vec_ok E (inject_vec F) \<and>
     tables_wf (inj_tables F) \<and>
     (\<forall>p < SUPPORTED_PERSONALITIES E. \<forall>i. injected F p i \<longrightarrow>
        i < nsyscall_vec E ! p \<and> opts_ok (nsig_bytes E * 8) (inj_tables F) (inj_entry F p i))"

lemma inj_set_ok_test:
  "inj_set_ok E s \<Longrightarrow> q < SUPPORTED_PERSONALITIES E \<Longrightarrow>
     is_number_in_set_array i (Some s) q \<longleftrightarrow> i \<in> ns_bits (s ! q)"
  by (simp add: inj_set_ok_def is_number_in_set_array_def ns_test_bits)

lemma inj_set_ok_alloc:
  "inj_set_ok E (alloc_number_set_array (SUPPORTED_PERSONALITIES E))"
  by (simp add: inj_set_ok_def nsa_wf_def alloc_number_set_array_def list_all_length)

lemma inj_set_ok_grown:
  assumes "inj_set_ok E s" "grown S s s'"
  shows "inj_set_ok E s' \<and> (\<forall>q < SUPPORTED_PERSONALITIES E. ns_bits (s' ! q) = ns_bits (s ! q) \<union> S q)"
  using assms by (simp add: inj_set_ok_def nsa_wf_def grown_def list_all_length)

lemma set_or_alloc_ok:
  assumes "pred_option (inj_set_ok E) s" "q < SUPPORTED_PERSONALITIES E"
  shows "inj_set_ok E (set_or_alloc (SUPPORTED_PERSONALITIES E) s) \<and>
    (i \<in> ns_bits (set_or_alloc (SUPPORTED_PERSONALITIES E) s ! q) \<longleftrightarrow> is_number_in_set_array i s q)"
proof (cases s)
  case None
  then show ?thesis using assms inj_set_ok_alloc [of E]
    by (simp add: set_or_alloc_def is_number_in_set_array_def alloc_number_set_array_def)
next
  case (Some a)
  then show ?thesis using assms inj_set_ok_test [of E a q i] by (simp add: set_or_alloc_def)
qed

lemma inject_pers_effect:
  fixes E :: "'a env_scheme" and opts :: inject_opts and pd :: "nat list" and tmp :: number_set_array
  assumes "pred_option (inj_set_ok E) (inject_set F)" "inj_vec_ok E (inject_vec F)"
    and "p < SUPPORTED_PERSONALITIES E"
  defines "F' \<equiv> inject_pers E opts pd tmp p F"
  shows "pred_option (inj_set_ok E) (inject_set F') \<and> inj_vec_ok E (inject_vec F') \<and>
    inj_tables F' = inj_tables F \<and>
    (\<forall>q < SUPPORTED_PERSONALITIES E. \<forall>i. injected F' q i \<longleftrightarrow> injected F q i \<or>
       q = p \<and> i < nsyscall_vec E ! p \<and> is_number_in_set_array i (Some tmp) p) \<and>
    (\<forall>q < SUPPORTED_PERSONALITIES E. \<forall>i < nsyscall_vec E ! q. inj_entry F' q i =
       (if q = p \<and> is_number_in_set_array i (Some tmp) p then with_scno (pd ! p) opts
        else inj_entry F q i))"
proof (cases "number_set_array_is_empty (Some tmp) p")
  case True
  then have "\<not> is_number_in_set_array i (Some tmp) p" for i
    by (simp add: number_set_array_is_empty_def is_number_in_set_array_def ns_test_def)
  then show ?thesis using True assms(1,2) by (simp add: F'_def inject_pers_def)
next
  case False
  let ?np = "SUPPORTED_PERSONALITIES E" and ?n = "nsyscall_vec E ! p"
  let ?sel = "\<lambda>i. is_number_in_set_array i (Some tmp) p"
  let ?s = "set_or_alloc ?np (inject_set F)"
  let ?v = "case inject_vec F ! p of None \<Rightarrow> replicate ?n zero_opts | Some v \<Rightarrow> v"
  let ?s' = "fold (\<lambda>i s. if ?sel i then add_number_to_set_array i s p else s) [0..<?n] ?s"
  let ?v' = "fold (\<lambda>i v. if ?sel i then v[i := with_scno (pd ! p) opts] else v) [0..<?n] ?v"
  have len: "length (inject_vec F) = ?np" using assms(2) by (simp add: inj_vec_ok_def)
  have F': "F' = F\<lparr>inject_set := Some ?s', inject_vec := (inject_vec F)[p := Some ?v']\<rparr>"
    using False assms(3) len unfolding F'_def inject_pers_def Let_def
    by (subst fold_inject_one [where s = ?s and v = ?v]) simp_all
  have lv: "length ?v = ?n" using assms(2,3) by (auto simp: inj_vec_ok_def split: option.split)
  have s: "inj_set_ok E ?s" using set_or_alloc_ok [OF assms(1,3)] by blast
  have s': "inj_set_ok E ?s'" "\<forall>q < ?np. ns_bits (?s' ! q) = ns_bits (?s ! q) \<union> at_pers p {i \<in> set [0..<?n]. ?sel i} q"
    using inj_set_ok_grown [OF s fold_add_grown [of p "[0..<?n]" ?sel ?s]] by blast+
  have "\<forall>q < ?np. \<forall>i. injected F' q i \<longleftrightarrow> injected F q i \<or> q = p \<and> i < ?n \<and> ?sel i"
  proof (intro allI impI)
    fix q i assume q: "q < ?np"
    show "injected F' q i \<longleftrightarrow> injected F q i \<or> q = p \<and> i < ?n \<and> ?sel i"
      using s' q inj_set_ok_test [OF s'(1) q, of i] set_or_alloc_ok [OF assms(1) q, of i]
      by (auto simp: injected_def F' at_pers_def split: if_splits)
  qed
  moreover have "\<forall>q < ?np. \<forall>i < nsyscall_vec E ! q. inj_entry F' q i =
       (if q = p \<and> ?sel i then with_scno (pd ! p) opts else inj_entry F q i)"
    using lv len assms(3)
    by (auto simp: inj_entry_def F' nth_list_update fold_update_nth split: option.splits)
  moreover have "inj_vec_ok E (inject_vec F')"
  proof -
    have "length v = nsyscall_vec E ! q"
      if "q < ?np" "(inject_vec F)[p := Some ?v'] ! q = Some v" for q v
      using that assms(2) lv len by (cases "q = p") (auto simp: inj_vec_ok_def)
    then show ?thesis using len by (simp add: F' inj_vec_ok_def)
  qed
  ultimately show ?thesis using s'(1) by (simp add: F')
qed

lemma fold_inject_pers:
  assumes "pred_option (inj_set_ok E) (inject_set F)" "inj_vec_ok E (inject_vec F)"
    and "\<forall>p \<in> set ps. p < SUPPORTED_PERSONALITIES E"
  shows "let F' = fold (inject_pers E opts pd tmp) ps F in
    pred_option (inj_set_ok E) (inject_set F') \<and> inj_vec_ok E (inject_vec F') \<and>
    inj_tables F' = inj_tables F \<and>
    (\<forall>q < SUPPORTED_PERSONALITIES E. \<forall>i. injected F' q i \<longleftrightarrow> injected F q i \<or>
       q \<in> set ps \<and> i < nsyscall_vec E ! q \<and> is_number_in_set_array i (Some tmp) q) \<and>
    (\<forall>q < SUPPORTED_PERSONALITIES E. \<forall>i < nsyscall_vec E ! q. inj_entry F' q i =
       (if q \<in> set ps \<and> is_number_in_set_array i (Some tmp) q then with_scno (pd ! q) opts
        else inj_entry F q i))"
  using assms
proof (induction ps arbitrary: F)
  case (Cons p ps)
  let ?F = "inject_pers E opts pd tmp p F"
  have p: "p < SUPPORTED_PERSONALITIES E" using Cons.prems by simp
  note step = inject_pers_effect [OF Cons.prems(1,2) p, of opts pd tmp]
  have "\<forall>p \<in> set ps. p < SUPPORTED_PERSONALITIES E" using Cons.prems by simp
  with Cons.IH [of ?F] step show ?case by (auto simp: Let_def)
qed simp

definition parse_start :: "'a env_scheme \<Rightarrow> filters \<Rightarrow> parse_state" where
  "parse_start E F = \<lparr>fopts = init_opts, pdata = replicate (SUPPORTED_PERSONALITIES E) 0,
     tables = inj_tables F\<rparr>"

lemma parse_start_inv: "tables_wf (inj_tables F) \<Longrightarrow> parse_inv E (parse_start E F)"
  by (simp add: parse_inv_def parse_start_def opts_ok_def init_opts_def has_flag_def idx_ok_def)

lemma qualify_inject_common_cases:
  assumes "qualify_inject_common E str fto descr F = Inr F'"
  obtains name st st' tmp where
    "parse_inject_expression E str fto (parse_start E F) = Inr (Some (name, st))"
    "qualify_syscall_tokens E (env_regcomp E) name
       (alloc_number_set_array (SUPPORTED_PERSONALITIES E)) = Inr tmp"
    "has_flag INJECT_ACTION_FLAGS (fopts st) \<and> st' = st \<or>
     \<not> has_flag INJECT_ACTION_FLAGS (fopts st) \<and> fto \<and> set_rval ENOSYS INJECT_F_ERROR st = Inr st'"
    "F' = fold (inject_pers E (fopts st') (pdata st') tmp) [0..<SUPPORTED_PERSONALITIES E]
       (F\<lparr>inj_tables := tables st'\<rparr>)"
proof -
  obtain name st tmp st' where
    "parse_inject_expression E str fto (parse_start E F) = Inr (Some (name, st))"
    "qualify_syscall_tokens E (env_regcomp E) name
       (alloc_number_set_array (SUPPORTED_PERSONALITIES E)) = Inr tmp"
    "(if \<not> has_flag INJECT_ACTION_FLAGS (fopts st) then
        if fto then set_rval ENOSYS INJECT_F_ERROR st
        else Inl (Die (''invalid '' @ descr @ '' '' @ quoted str))
      else Inr st) = Inr st'"
    "F' = fold (inject_pers E (fopts st') (pdata st') tmp) [0..<SUPPORTED_PERSONALITIES E]
       (F\<lparr>inj_tables := tables st'\<rparr>)"
    using assms unfolding qualify_inject_common_def parse_start_def [symmetric]
    by (auto simp: rbind_Inr_iff split: option.splits)
  then show thesis
    by (intro that [of name st tmp st']) (auto split: if_splits)
qed

lemma no_action_no_rval:
  "\<not> has_flag INJECT_ACTION_FLAGS fo \<Longrightarrow> \<not> has_flag (INJECT_F_ERROR OR INJECT_F_RETVAL) fo"
proof -
  have "INJECT_ACTION_FLAGS = (INJECT_F_ERROR OR INJECT_F_RETVAL) OR (0xd9 :: u8)" by simp
  then show "\<not> has_flag INJECT_ACTION_FLAGS fo \<Longrightarrow> ?thesis" using has_flag_or by metis
qed

lemma opts_ok_with_scno [simp]: "opts_ok n T (with_scno k fo) = opts_ok n T fo"
  by (simp add: opts_ok_def)

lemma alloc_nsa_wf: "nsa_wf k (alloc_number_set_array k)"
  by (simp add: nsa_wf_def alloc_number_set_array_def list_all_length)

text \<open>What an accepted injection option does, in terms of the parsed name and options.\<close>

definition inject_effect ::
    "'a env_scheme \<Rightarrow> string \<Rightarrow> parse_state \<Rightarrow> filters \<Rightarrow> filters \<Rightarrow> bool" where
  "inject_effect E name st F F' \<longleftrightarrow> inj_tables F' = tables st \<and>
     (\<forall>p < SUPPORTED_PERSONALITIES E. \<forall>i < nsyscall_vec E ! p.
        let sel = spec_selects name (\<lambda>tok. token_denot E (env_regcomp E) tok p) i in
        injected F' p i = (injected F p i \<or> sel) \<and>
        inj_entry F' p i = (if sel then with_scno (pdata st ! p) (fopts st) else inj_entry F p i))"

lemma inject_merge_effect:
  assumes "inj_inv E F" "parse_ok E (parse_start E F) st"
    and "qualify_syscall_tokens E (env_regcomp E) name
       (alloc_number_set_array (SUPPORTED_PERSONALITIES E)) = Inr tmp"
    and F': "F' = fold (inject_pers E (fopts st) (pdata st) tmp) [0..<SUPPORTED_PERSONALITIES E]
       (F\<lparr>inj_tables := tables st\<rparr>)"
  shows "inj_inv E F' \<and> inject_effect E name st F F'"
proof -
  let ?np = "SUPPORTED_PERSONALITIES E" and ?F = "F\<lparr>inj_tables := tables st\<rparr>"
  let ?sel = "\<lambda>p i. spec_selects name (\<lambda>tok. token_denot E (env_regcomp E) tok p) i"
  have eq: "injected ?F p i = injected F p i" "inj_entry ?F p i = inj_entry F p i" for p i
    by (simp_all add: injected_def inj_entry_def)
  have tmp: "is_number_in_set_array i (Some tmp) p = ?sel p i" if "p < ?np" for p i
    using qualify_syscall_tokens_step [OF alloc_nsa_wf that assms(3), of i]
    by (simp add: is_number_in_set_array_def)
  have inv: "pred_option (inj_set_ok E) (inject_set ?F)" "inj_vec_ok E (inject_vec ?F)"
    using assms(1) by (simp_all add: inj_inv_def)
  have F'_props: "pred_option (inj_set_ok E) (inject_set F')" "inj_vec_ok E (inject_vec F')"
    "inj_tables F' = tables st"
    and inj: "\<And>p i. p < ?np \<Longrightarrow> injected F' p i \<longleftrightarrow> injected F p i \<or> i < nsyscall_vec E ! p \<and> ?sel p i"
    and ent: "\<And>p i. p < ?np \<Longrightarrow> i < nsyscall_vec E ! p \<Longrightarrow> inj_entry F' p i =
       (if ?sel p i then with_scno (pdata st ! p) (fopts st) else inj_entry F p i)"
    using fold_inject_pers [OF inv, of "[0..<?np]" "fopts st" "pdata st" tmp] tmp
    unfolding F' [symmetric] Let_def by (simp_all add: eq)
  have st: "tables_wf (tables st)" "opts_ok (nsig_bytes E * 8) (tables st) (fopts st)"
    "tables_le (inj_tables F) (tables st)"
    using assms(2) by (simp_all add: parse_ok_def parse_start_def)
  have "i < nsyscall_vec E ! p \<and> opts_ok (nsig_bytes E * 8) (tables st) (inj_entry F' p i)"
    if "p < ?np" "injected F' p i" for p i
  proof (cases "i < nsyscall_vec E ! p \<and> ?sel p i")
    case True
    then show ?thesis using ent that(1) st(2) by simp
  next
    case False
    then have "injected F p i" using inj that by blast
    then have "i < nsyscall_vec E ! p" "opts_ok (nsig_bytes E * 8) (inj_tables F) (inj_entry F p i)"
      using assms(1) that(1) unfolding inj_inv_def by blast+
    then show ?thesis using ent [OF that(1)] False opts_ok_mono [OF _ st(3)] by simp
  qed
  then have "inj_inv E F'" using F'_props st(1) by (simp add: inj_inv_def)
  moreover have "inject_effect E name st F F'"
    using F'_props(3) inj ent by (simp add: inject_effect_def Let_def)
  ultimately show ?thesis by blast
qed

lemma qualify_inject_common_effect:
  assumes "inj_inv E F" "qualify_inject_common E str fto descr F = Inr F'"
  obtains name st st' where
    "parse_inject_expression E str fto (parse_start E F) = Inr (Some (name, st))"
    "has_flag INJECT_ACTION_FLAGS (fopts st) \<and> st' = st \<or>
     \<not> has_flag INJECT_ACTION_FLAGS (fopts st) \<and> fto \<and> set_rval ENOSYS INJECT_F_ERROR st = Inr st'"
    "parse_ok E (parse_start E F) st'" "inj_inv E F'" "inject_effect E name st' F F'"
proof -
  obtain name st st' tmp where
    1: "parse_inject_expression E str fto (parse_start E F) = Inr (Some (name, st))"
    "qualify_syscall_tokens E (env_regcomp E) name
       (alloc_number_set_array (SUPPORTED_PERSONALITIES E)) = Inr tmp"
    and 2: "has_flag INJECT_ACTION_FLAGS (fopts st) \<and> st' = st \<or>
     \<not> has_flag INJECT_ACTION_FLAGS (fopts st) \<and> fto \<and> set_rval ENOSYS INJECT_F_ERROR st = Inr st'"
    and 3: "F' = fold (inject_pers E (fopts st') (pdata st') tmp) [0..<SUPPORTED_PERSONALITIES E]
       (F\<lparr>inj_tables := tables st'\<rparr>)"
    using qualify_inject_common_cases [OF assms(2)] by metis
  have "parse_inv E (parse_start E F)" using assms(1) by (simp add: inj_inv_def parse_start_inv)
  then have st: "parse_ok E (parse_start E F) st" using 1(1) by (rule parse_inject_expression_ok)
  have "parse_ok E (parse_start E F) st'"
    using 2 st set_rval_ok [OF parse_ok_inv [OF st]] no_action_no_rval parse_ok_trans [OF st] by blast
  then show thesis using that [OF 1(1) 2] inject_merge_effect [OF assms(1) _ 1(2) 3] by blast
qed

section \<open>The invariant is kept by every option\<close>

text \<open>Options that leave the injection state alone, up to messages.\<close>

definition same_injection :: "filters \<Rightarrow> filters \<Rightarrow> bool" where
  "same_injection F F' \<longleftrightarrow> inject_set F' = inject_set F \<and> inject_vec F' = inject_vec F \<and>
     retval_vec (inj_tables F') = retval_vec (inj_tables F) \<and>
     delay_data_vec (inj_tables F') = delay_data_vec (inj_tables F) \<and>
     poke_data_vec (inj_tables F') = poke_data_vec (inj_tables F)"

lemma same_injection_inv: "same_injection F F' \<Longrightarrow> inj_inv E F \<Longrightarrow> inj_inv E F'"
  by (simp add: same_injection_def inj_inv_def injected_def inj_entry_def tables_wf_def opts_ok_def)

lemmas plain_option_defs = qualify_trace_def qualify_trace_fd_def qualify_abbrev_def
  qualify_verbose_def qualify_raw_def qualify_signals_def qualify_status_def qualify_quiet_def
  qualify_read_def qualify_write_def qualify_decode_fd_def qualify_decode_pid_def
  qualify_secontext_def qualify_namespace_def

lemma plain_option_same:
  assumes "call_qual E q str F = Inr F'" "q \<notin> {Q_fault, Q_inject}"
  shows "same_injection F F'"
proof (cases "q = Q_kvm")
  case True
  then show ?thesis using assms(1)
    by (auto simp: qualify_kvm_def Let_def same_injection_def split: if_splits)
next
  case False
  then show ?thesis using assms
    by (cases q) (auto simp: plain_option_defs Let_def rbind_Inr_iff same_injection_def split: if_splits)
qed

lemma call_qual_inv:
  assumes "inj_inv E F" "call_qual E q str F = Inr F'"
  shows "inj_inv E F'"
proof (cases "q \<in> {Q_fault, Q_inject}")
  case True
  then obtain fto descr where "qualify_inject_common E str fto descr F = Inr F'"
    using assms(2) by (auto simp: qualify_fault_def qualify_inject_def)
  then show ?thesis using qualify_inject_common_effect [OF assms(1)] by metis
next
  case False
  then show ?thesis using plain_option_same [OF assms(2)] same_injection_inv assms(1) by blast
qed

definition init_filters :: "'a env_scheme \<Rightarrow> filters" where
  "init_filters E = \<lparr>read_set = None, write_set = None, signal_set = None, status_set = None,
     quiet_set = None, decode_fd_set = None, decode_pid_set = None, secontext_set = None,
     trace_set = None, trace_fd_set = None, inject_set = None, abbrev_set = None, raw_set = None,
     verbose_set = None, quiet_set_updated = False, decode_fd_set_updated = False,
     tracing_fds = False, inject_vec = replicate (SUPPORTED_PERSONALITIES E) None,
     inj_tables = init_tables, kvm_run_mode = DECODE_KVM_RUN_STRUCTURE_NONE,
     namespace_auxstr = False\<rparr>"

lemma init_filters_inv: "inj_inv E (init_filters E)"
  by (simp add: inj_inv_def init_filters_def injected_def is_number_in_set_array_def inj_vec_ok_def
      tables_wf_def init_tables_def)

lemma strtok_r_whole: "str \<noteq> [] \<Longrightarrow> c \<notin> set str \<Longrightarrow> strtok_r [c] str = Some (str, [])"
proof -
  assume asm: "str \<noteq> []" "c \<notin> set str"
  then obtain x xs where x: "str = x # xs" "x \<noteq> c" "\<forall>d \<in> set xs. d \<noteq> c" by (cases str) auto
  then have w: "takeWhile (\<lambda>d. d \<noteq> c) xs = xs" "dropWhile (\<lambda>d. d \<noteq> c) xs = []"
    by (simp_all add: takeWhile_eq_all_conv)
  show ?thesis using x(1,2) by (simp add: strtok_r_def w)
qed

lemma tokens_Nil [simp]: "tokens delim [] = []"
  by (simp add: tokens.simps strtok_r_def)

lemma parse_inject_expression_plain:
  "name \<noteq> [] \<Longrightarrow> CHR '':'' \<notin> set name \<Longrightarrow>
     parse_inject_expression E name fto st = Inr (Some (name, st))"
  using strtok_r_whole [of name "CHR '':''"]
  by (cases name) (auto simp: parse_inject_expression_def)

section \<open>Evaluation\<close>

lemmas inject_eval = qualify_inject_def qualify_fault_def qualify_inject_common_def
  parse_inject_expression_def parse_inject_token_def has_prefix_def parse_error_token_def
  set_rval_def retval_new_def alloc_slot_def expand_vec_def has_flag_def set_flag_def
  init_opts_def init_filters_def init_tables_def empty_table_def alloc_number_set_array_def

lemma small_env_simps [simp]:
  "SUPPORTED_PERSONALITIES small_env = 2" "nsyscall_vec small_env = [3, 2]"
  "sysent_vec small_env = sysent_vec small_arch"
  "personality_designators small_env = [''64'', ''32'']"
  "env_regcomp small_env = (\<lambda>_. Inl ''no regular expressions'')" "nsig_bytes small_env = 8"
  by (simp_all add: small_env_def small_arch_def arch.defs)

lemma inject_example:
  "\<exists>F'. qualify_inject small_env ''write:error=5'' (init_filters small_env) = Inr F'"
  by (simp add: inject_eval string_eval syscall_spec_eval small_arch_def entry_def upt_rec)

lemma fault_example: "\<exists>F'. qualify_fault small_env ''write'' (init_filters small_env) = Inr F'"
  by (simp add: inject_eval string_eval syscall_spec_eval small_arch_def entry_def upt_rec)

lemma inject_example_dispatch:
  "qualify small_env ''inject=write:error=5'' F = qualify_inject small_env ''write:error=5'' F"
  by (simp add: qualify_def qual_options_def has_prefix_def char_at_def)

lemma write_selected:
  "spec_selects ''write'' (\<lambda>tok. token_denot small_env (env_regcomp small_env) tok 0) 1"
  by (simp add: spec_selects_def spec_body_def spec_neg_def token_denot_def pers_denot_def
      string_eval syscall_spec_eval small_arch_def entry_def)

section \<open>Properties\<close>

text \<open>C4: Every \<^verbatim>\<open>-e\<close> option keeps the injection state consistent: whatever options were given,
  each system call marked for injection has an entry whose error, return value, delay and
  poke indices are inside the tables, so that the later lookups cannot fail.\<close>

theorem qualify_keeps_injection_invariant:
  assumes "inj_inv E F" "qualify E str F = Inr F'"
  shows "inj_inv E F'"
  using assms(2) call_qual_inv [OF assms(1), of _ _ F']
  unfolding qualify_def by (auto simp del: call_qual.simps split: option.splits)

theorem qualify_keeps_injection_invariant_witness:
  "\<exists>F'. qualify small_env ''inject=write:error=5'' (init_filters small_env) = Inr F' \<and>
     inj_inv small_env F'"
  using inject_example qualify_keeps_injection_invariant [OF init_filters_inv]
  unfolding inject_example_dispatch [symmetric] by blast

text \<open>C5: An accepted \<^verbatim>\<open>inject=\<close> option names at least one action, adds exactly the system calls
  its first part selects to the injected ones in every personality, gives these the parsed
  options with the replacement call of their personality, and leaves all other entries
  alone.\<close>

theorem qualify_inject_correct:
  assumes "inj_inv E F" "qualify_inject E str F = Inr F'"
  shows "\<exists>name st. parse_inject_expression E str False (parse_start E F) = Inr (Some (name, st)) \<and>
    has_flag INJECT_ACTION_FLAGS (fopts st) \<and> inject_effect E name st F F'"
  using qualify_inject_common_effect [OF assms(1) assms(2) [unfolded qualify_inject_def]] by metis

theorem qualify_inject_correct_witness:
  "\<exists>F' name st. qualify_inject small_env ''write:error=5'' (init_filters small_env) = Inr F' \<and>
     inject_effect small_env name st (init_filters small_env) F'"
  using inject_example qualify_inject_correct [OF init_filters_inv] by metis

text \<open>A \<^verbatim>\<open>fault=\<close> option without any token injects the error \<^verbatim>\<open>ENOSYS\<close> into every system
  call its specification selects.\<close>

lemma qualify_fault_default:
  assumes "inj_inv E F" "str \<noteq> []" "CHR '':'' \<notin> set str" "qualify_fault E str F = Inr F'"
    and "p < SUPPORTED_PERSONALITIES E" "i < nsyscall_vec E ! p"
    and "spec_selects str (\<lambda>tok. token_denot E (env_regcomp E) tok p) i"
  shows "injected F' p i \<and> has_flag INJECT_F_ERROR (inj_entry F' p i) \<and>
    retval_get (rval_idx (data (inj_entry F' p i))) (retval_vec (inj_tables F')) = Inr ENOSYS"
proof -
  obtain name st st' where p: "parse_inject_expression E str True (parse_start E F) = Inr (Some (name, st))"
    and a: "has_flag INJECT_ACTION_FLAGS (fopts st) \<and> st' = st \<or>
     \<not> has_flag INJECT_ACTION_FLAGS (fopts st) \<and> True \<and> set_rval ENOSYS INJECT_F_ERROR st = Inr st'"
    and e: "inject_effect E name st' F F'"
    using qualify_inject_common_effect [OF assms(1) assms(4) [unfolded qualify_fault_def]] by metis
  have st: "name = str" "st = parse_start E F"
    using p parse_inject_expression_plain [OF assms(2,3), of E True "parse_start E F"] by simp_all
  have no: "\<not> has_flag INJECT_ACTION_FLAGS (fopts st)"
    by (simp add: st parse_start_def init_opts_def has_flag_def)
  with a have s: "set_rval ENOSYS INJECT_F_ERROR st = Inr st'" by blast
  have inv: "parse_inv E st" using assms(1) st(2) by (simp add: inj_inv_def parse_start_inv)
  have "retval_get (rval_idx (data (fopts st'))) (retval_vec (tables st')) = Inr ENOSYS"
    using set_rval_ok [OF inv s] no_action_no_rval [OF no] by blast
  moreover have "has_flag INJECT_F_ERROR (fopts st')"
    using s by (auto simp: set_rval_def rbind_Inr_iff has_flag_set_flag)
  ultimately show ?thesis using e assms(5-7) st(1) by (auto simp: inject_effect_def Let_def)
qed

text \<open>C29: After \<^verbatim>\<open>-e trace=SPEC\<close> a system call has the flag \<^verbatim>\<open>QUAL_TRACE\<close> in a personality exactly
  when the specification selects it there.\<close>

theorem qualify_trace_flag:
  assumes "qualify E (''trace='' @ spec) F = Inr F'"
    and "pred_option (nsa_wf (SUPPORTED_PERSONALITIES E)) (trace_set F)"
    and "p < SUPPORTED_PERSONALITIES E"
  shows "qual_flags F' p scno AND QUAL_TRACE \<noteq> 0
    \<longleftrightarrow> spec_selects spec (\<lambda>tok. token_denot E (env_regcomp E) tok p) scno"
proof -
  have "qualify E (''trace='' @ spec) F = qualify_trace E spec F"
    by (simp add: qualify_def qual_options_def has_prefix_def char_at_def)
  then obtain ns where ns: "qualify_syscall_tokens E (env_regcomp E) spec
      (set_or_alloc (SUPPORTED_PERSONALITIES E) (trace_set F)) = Inr ns" "trace_set F' = Some ns"
    using assms(1) by (auto simp: qualify_trace_def rbind_Inr_iff)
  have "nsa_wf (SUPPORTED_PERSONALITIES E) (set_or_alloc (SUPPORTED_PERSONALITIES E) (trace_set F))"
    using assms(2) alloc_nsa_wf by (auto simp: set_or_alloc_def split: option.split)
  from qualify_syscall_tokens_step [OF this assms(3) ns(1), of scno]
  have "is_number_in_set_array scno (trace_set F') p =
      spec_selects spec (\<lambda>tok. token_denot E (env_regcomp E) tok p) scno"
    using ns(2) by (simp add: is_number_in_set_array_def)
  moreover have "qual_flags F' p scno AND QUAL_TRACE \<noteq> 0 \<longleftrightarrow>
      is_number_in_set_array scno (trace_set F') p"
    by (simp add: qual_flags_def or_and_eq_0)
  ultimately show ?thesis by simp
qed

theorem qualify_trace_flag_witness:
  "\<exists>F'. qualify small_env (''trace='' @ ''write'') (init_filters small_env) = Inr F' \<and>
     qual_flags F' 0 1 AND QUAL_TRACE \<noteq> 0"
proof -
  obtain F' where F': "qualify small_env (''trace='' @ ''write'') (init_filters small_env) = Inr F'"
    by (simp add: qualify_def qual_options_def has_prefix_def char_at_def qualify_trace_def
        set_or_alloc_def init_filters_def alloc_number_set_array_def string_eval syscall_spec_eval
        small_arch_def entry_def upt_rec)
  have n: "pred_option (nsa_wf (SUPPORTED_PERSONALITIES small_env)) (trace_set (init_filters small_env))"
    by (simp add: init_filters_def)
  show ?thesis using F' qualify_trace_flag [OF F' n, of 0 1] write_selected by simp
qed

end
