(* ===== verification/Seccomp_Filter.thy ===== *)
theory Seccomp_Filter
  imports Filter_Qualify
begin

text \<open>
  \<^verbatim>\<open>src/src/filter_seccomp.c\<close>: the two generators of seccomp programs, the choice between
  them, and the test of the order of seccomp and system call stops. A program is a list of
  instructions; \<^verbatim>\<open>pos\<close> is its length. The machine that runs the programs is the kernel's:
  it is a parameter constrained by the locale \<open>cbpf\<close>, one law per operation used.
\<close>

section \<open>Instructions\<close>

record sock_filter =
  bcode :: u16
  jt :: nat
  jf :: nat
  bk :: u32

record seccomp_data =
  sd_nr :: u32
  sd_arch :: u32

abbreviation BPF_LD_W_ABS :: u16 where "BPF_LD_W_ABS \<equiv> 0x20"
abbreviation BPF_LD_IMM :: u16 where "BPF_LD_IMM \<equiv> 0x00"
abbreviation BPF_JMP :: u16 where "BPF_JMP \<equiv> 0x05"
abbreviation BPF_JA :: u16 where "BPF_JA \<equiv> 0x00"
abbreviation BPF_JEQ :: u16 where "BPF_JEQ \<equiv> 0x10"
abbreviation BPF_JGE :: u16 where "BPF_JGE \<equiv> 0x30"
abbreviation BPF_JSET :: u16 where "BPF_JSET \<equiv> 0x40"
abbreviation BPF_RET_K :: u16 where "BPF_RET_K \<equiv> 0x06"
abbreviation BPF_ALU_AND_K :: u16 where "BPF_ALU_AND_K \<equiv> 0x54"
abbreviation BPF_ALU_LSH_X :: u16 where "BPF_ALU_LSH_X \<equiv> 0x6c"
abbreviation BPF_ALU_RSH_K :: u16 where "BPF_ALU_RSH_K \<equiv> 0x74"
abbreviation BPF_MISC_TAX :: u16 where "BPF_MISC_TAX \<equiv> 0x07"
abbreviation BPF_MISC_TXA :: u16 where "BPF_MISC_TXA \<equiv> 0x87"
abbreviation SECCOMP_RET_TRACE :: u32 where "SECCOMP_RET_TRACE \<equiv> 0x7ff00000"
abbreviation SECCOMP_RET_ALLOW :: u32 where "SECCOMP_RET_ALLOW \<equiv> 0x7fff0000"
abbreviation OFF_NR :: u32 where "OFF_NR \<equiv> 0"
abbreviation OFF_ARCH :: u32 where "OFF_ARCH \<equiv> 4"
abbreviation BPF_MAXINSNS :: nat where "BPF_MAXINSNS \<equiv> 4096"
abbreviation JMP_PLACEHOLDER_NEXT :: nat where "JMP_PLACEHOLDER_NEXT \<equiv> 255"
abbreviation JMP_PLACEHOLDER_TRACE :: nat where "JMP_PLACEHOLDER_TRACE \<equiv> 254"
abbreviation JMP_PLACEHOLDER_ALLOW :: nat where "JMP_PLACEHOLDER_ALLOW \<equiv> 253"

definition SET_BPF :: "u16 \<Rightarrow> nat \<Rightarrow> nat \<Rightarrow> u32 \<Rightarrow> sock_filter" where
  "SET_BPF code t f k = \<lparr>bcode = code, jt = t, jf = f, bk = k\<rparr>"

definition SET_BPF_STMT :: "u16 \<Rightarrow> u32 \<Rightarrow> sock_filter" where
  "SET_BPF_STMT code k = SET_BPF code 0 0 k"

definition SET_BPF_JUMP :: "u16 \<Rightarrow> u32 \<Rightarrow> nat \<Rightarrow> nat \<Rightarrow> sock_filter" where
  "SET_BPF_JUMP code k t f = SET_BPF (BPF_JMP OR code) t f k"

section \<open>Generators\<close>

definition traced_by_seccomp ::
    "'a arch_scheme \<Rightarrow> filters \<Rightarrow> bool \<Rightarrow> nat \<Rightarrow> nat \<Rightarrow> bool" where
  "traced_by_seccomp A F stack_trace_mode scno p =
     (let always_trace_flags = TRACE_INDIRECT_SUBCALL OR TRACE_SECCOMP_DEFAULT OR
            (if stack_trace_mode then MEMORY_MAPPING_CHANGE else 0) OR
            (if is_number_in_set 1 (decode_pid_set F) then COMM_CHANGE else 0)
      in sys_flags (sysent_vec A ! p ! scno) AND always_trace_flags \<noteq> 0 \<or>
         is_number_in_set_array scno (trace_set F) p)"

definition replace_jmp_placeholders :: "nat \<Rightarrow> nat \<Rightarrow> nat \<Rightarrow> nat \<Rightarrow> nat" where
  "replace_jmp_placeholders jmp_offset jmp_next jmp_trace jmp_allow =
     (if jmp_offset = JMP_PLACEHOLDER_NEXT then jmp_next
      else if jmp_offset = JMP_PLACEHOLDER_TRACE then jmp_trace
      else if jmp_offset = JMP_PLACEHOLDER_ALLOW then jmp_allow else jmp_offset)"

definition bpf_syscalls_cmp :: "u32 \<Rightarrow> u32 \<Rightarrow> sock_filter list" where
  "bpf_syscalls_cmp lower upper =
     (if lower + 1 = upper then [SET_BPF_JUMP BPF_JEQ lower JMP_PLACEHOLDER_TRACE 0]
      else [SET_BPF_JUMP BPF_JGE lower 0 1,
            SET_BPF_JUMP BPF_JGE upper 0 JMP_PLACEHOLDER_TRACE])"

text \<open>The replacement of the placeholders of instruction \<open>i\<close> in a section of length \<open>n\<close>.\<close>

definition fix_insn :: "nat \<Rightarrow> nat \<Rightarrow> sock_filter \<Rightarrow> sock_filter" where
  "fix_insn n i f =
     (if bcode f AND 7 \<noteq> BPF_JMP then f
      else let jmp_next = (n - i - 1) mod 256; jmp_trace = (n - i - 2) mod 256;
               jmp_allow = (n - i - 3) mod 256;
               f = f\<lparr>jt := replace_jmp_placeholders (jt f) jmp_next jmp_trace jmp_allow,
                     jf := replace_jmp_placeholders (jf f) jmp_next jmp_trace jmp_allow\<rparr>
           in if bcode f AND 0xf0 = BPF_JA then f\<lparr>bk := word_of_nat jmp_next\<rparr> else f)"

definition fix_section :: "nat \<Rightarrow> sock_filter list \<Rightarrow> sock_filter list" where
  "fix_section e sec =
     map (\<lambda>i. if i < e then fix_insn (length sec) i (sec ! i) else sec ! i) [0..<length sec]"

fun linear_cmps :: "(nat \<Rightarrow> bool) \<Rightarrow> u32 \<Rightarrow> nat \<Rightarrow> nat list \<Rightarrow> nat option \<Rightarrow> sock_filter list" where
  "linear_cmps traced flag n [] lower =
     (case lower of None \<Rightarrow> []
      | Some l \<Rightarrow> bpf_syscalls_cmp (word_of_nat l OR flag) (word_of_nat n OR flag))"
| "linear_cmps traced flag n (i # is) lower =
     (if traced i then
        linear_cmps traced flag n is (Some (case lower of None \<Rightarrow> i | Some l \<Rightarrow> l))
      else case lower of
             None \<Rightarrow> linear_cmps traced flag n is None
           | Some l \<Rightarrow> bpf_syscalls_cmp (word_of_nat l OR flag) (word_of_nat i OR flag) @
                       linear_cmps traced flag n is None)"

definition personality_head :: "bool \<Rightarrow> u32 \<Rightarrow> u32 \<Rightarrow> sock_filter list" where
  "personality_head multi arch flag =
     (if multi then [SET_BPF_JUMP BPF_JEQ arch 0 JMP_PLACEHOLDER_NEXT] else []) @
     [SET_BPF_STMT BPF_LD_W_ABS OFF_NR] @
     (if multi \<and> flag \<noteq> 0 then
        [SET_BPF_JUMP BPF_JGE flag 2 0,
         SET_BPF_STMT BPF_LD_W_ABS OFF_ARCH,
         SET_BPF_JUMP BPF_JA (of_nat JMP_PLACEHOLDER_NEXT) 0 0] else [])"

definition linear_section :: "bool \<Rightarrow> u32 \<Rightarrow> u32 \<Rightarrow> nat \<Rightarrow> (nat \<Rightarrow> bool) \<Rightarrow> sock_filter list \<times> nat" where
  "linear_section multi arch flag n traced =
     (let body = personality_head multi arch flag @ linear_cmps traced flag n [0..<n] None
      in (body @ [SET_BPF_JUMP BPF_JGE (word_of_nat n OR flag) 1 0,
                  SET_BPF_STMT BPF_RET_K SECCOMP_RET_ALLOW,
                  SET_BPF_STMT BPF_RET_K SECCOMP_RET_TRACE], length body))"

type_synonym audit_arch = "u32 \<times> u32"

fun linear_sections ::
    "'a arch_scheme \<Rightarrow> audit_arch list \<Rightarrow> (nat \<Rightarrow> nat \<Rightarrow> bool) \<Rightarrow> nat list \<Rightarrow> sock_filter list \<Rightarrow>
     sock_filter list \<times> bool" where
  "linear_sections A audit_arch_vec traced [] prog = (prog, False)"
| "linear_sections A audit_arch_vec traced (p # ps) prog =
     (case linear_section (1 < SUPPORTED_PERSONALITIES A)
             (fst (audit_arch_vec ! p)) (snd (audit_arch_vec ! p)) (nsyscall_vec A ! p)
             (\<lambda>i. traced i p) of
        (sec, e) \<Rightarrow>
          if length sec > 255 then (prog @ sec, True)
          else linear_sections A audit_arch_vec traced ps (prog @ fix_section e sec))"

definition linear_filter_generator ::
    "'a arch_scheme \<Rightarrow> audit_arch list \<Rightarrow> (nat \<Rightarrow> nat \<Rightarrow> bool) \<Rightarrow> sock_filter list \<times> bool" where
  "linear_filter_generator A audit_arch_vec traced =
     (let multi = 1 < SUPPORTED_PERSONALITIES A
      in case linear_sections A audit_arch_vec traced (rev [0..<SUPPORTED_PERSONALITIES A])
                (if multi then [SET_BPF_STMT BPF_LD_W_ABS OFF_ARCH] else []) of
           (prog, overflow) \<Rightarrow>
             (if overflow \<or> \<not> multi then prog
              else prog @ [SET_BPF_STMT BPF_RET_K SECCOMP_RET_TRACE], overflow))"

definition bpf_syscalls_match :: "u32 \<Rightarrow> u32 \<Rightarrow> sock_filter list" where
  "bpf_syscalls_match bitarray bitarray_idx =
     (if bitarray = 0 then [SET_BPF_JUMP BPF_JEQ bitarray_idx JMP_PLACEHOLDER_ALLOW 0]
      else if bitarray = - 1 then [SET_BPF_JUMP BPF_JEQ bitarray_idx JMP_PLACEHOLDER_TRACE 0]
      else [SET_BPF_JUMP BPF_JEQ bitarray_idx 0 2,
            SET_BPF_STMT BPF_MISC_TXA 0,
            SET_BPF_JUMP BPF_JSET bitarray JMP_PLACEHOLDER_TRACE JMP_PLACEHOLDER_ALLOW])"

text \<open>
  The loop over the system calls, from position \<open>pos\<close> of the program on, and the word that is
  left over when it ends at \<open>i\<close>.
\<close>

definition leftover_match :: "nat \<Rightarrow> u32 \<Rightarrow> sock_filter list" where
  "leftover_match i bitarray =
     (if i mod 32 \<noteq> 0 then bpf_syscalls_match bitarray (word_of_nat (i div 32)) else [])"

fun binary_matches :: "(nat \<Rightarrow> bool) \<Rightarrow> nat \<Rightarrow> nat \<Rightarrow> nat list \<Rightarrow> u32 \<Rightarrow> sock_filter list" where
  "binary_matches traced n pos [] bitarray = leftover_match n bitarray"
| "binary_matches traced n pos (i # is) bitarray =
     (if pos > BPF_MAXINSNS then leftover_match i bitarray
      else let bitarray = (if traced i then bitarray OR push_bit (i mod 32) 1 else bitarray)
           in if i mod 32 = 31 then
                let m = bpf_syscalls_match bitarray (word_of_nat (i div 32))
                in m @ binary_matches traced n (pos + length m) is 0
              else binary_matches traced n pos is bitarray)"

definition binary_head :: "bool \<Rightarrow> u32 \<Rightarrow> sock_filter list" where
  "binary_head multi flag =
     (if multi \<and> flag \<noteq> 0 then [SET_BPF_STMT BPF_ALU_AND_K (NOT flag)] else []) @
     [SET_BPF_STMT BPF_ALU_AND_K 0x1F,
      SET_BPF_STMT BPF_MISC_TAX 0,
      SET_BPF_STMT BPF_LD_IMM 1,
      SET_BPF_STMT BPF_ALU_LSH_X 0,
      SET_BPF_STMT BPF_MISC_TAX 0,
      SET_BPF_STMT BPF_LD_W_ABS OFF_NR] @
     (if flag \<noteq> 0 then [SET_BPF_STMT BPF_ALU_AND_K (NOT flag)] else []) @
     [SET_BPF_STMT BPF_ALU_RSH_K 5]"

definition binary_section ::
    "bool \<Rightarrow> u32 \<Rightarrow> u32 \<Rightarrow> nat \<Rightarrow> (nat \<Rightarrow> bool) \<Rightarrow> nat \<Rightarrow> sock_filter list \<times> nat" where
  "binary_section multi arch flag n traced start =
     (let head = personality_head multi arch flag @ binary_head multi flag;
          body = head @ binary_matches traced n (start + length head) [0..<n] 0
      in (body @ [SET_BPF_STMT BPF_RET_K SECCOMP_RET_ALLOW,
                  SET_BPF_STMT BPF_RET_K SECCOMP_RET_TRACE], length body))"

fun binary_sections ::
    "'a arch_scheme \<Rightarrow> audit_arch list \<Rightarrow> (nat \<Rightarrow> nat \<Rightarrow> bool) \<Rightarrow> nat list \<Rightarrow> sock_filter list \<Rightarrow>
     sock_filter list \<times> bool" where
  "binary_sections A audit_arch_vec traced [] prog = (prog, False)"
| "binary_sections A audit_arch_vec traced (p # ps) prog =
     (if length prog > BPF_MAXINSNS then (prog, False)
      else case binary_section (1 < SUPPORTED_PERSONALITIES A)
             (fst (audit_arch_vec ! p)) (snd (audit_arch_vec ! p)) (nsyscall_vec A ! p)
             (\<lambda>i. traced i p) (length prog) of
        (sec, e) \<Rightarrow>
          if length sec > 255 then (prog @ sec, True)
          else binary_sections A audit_arch_vec traced ps (prog @ fix_section e sec))"

definition binary_match_filter_generator ::
    "'a arch_scheme \<Rightarrow> audit_arch list \<Rightarrow> (nat \<Rightarrow> nat \<Rightarrow> bool) \<Rightarrow> sock_filter list \<times> bool" where
  "binary_match_filter_generator A audit_arch_vec traced =
     (let multi = 1 < SUPPORTED_PERSONALITIES A
      in case binary_sections A audit_arch_vec traced (rev [0..<SUPPORTED_PERSONALITIES A])
                (if multi then [SET_BPF_STMT BPF_LD_W_ABS OFF_ARCH] else []) of
           (prog, overflow) \<Rightarrow>
             (if overflow \<or> \<not> multi then prog
              else prog @ [SET_BPF_STMT BPF_RET_K SECCOMP_RET_TRACE], overflow))"

section \<open>The choice of a program\<close>

text \<open>
  \<^verbatim>\<open>check_seccomp_filter_properties\<close>: \<open>supported\<close> is the outcome of the probing \<^verbatim>\<open>prctl\<close>. The
  result is \<^verbatim>\<open>bpf_prog\<close> (\<open>None\<close> for the initial length \<^verbatim>\<open>USHRT_MAX\<close>) and \<^verbatim>\<open>seccomp_filtering\<close>
  before the check of the order of the stops.
\<close>

definition shorter :: "sock_filter list option \<Rightarrow> sock_filter list \<times> bool \<Rightarrow> sock_filter list option" where
  "shorter bpf_prog g =
     (case g of (prog, overflow) \<Rightarrow>
        if length prog < (case bpf_prog of None \<Rightarrow> 65535 | Some f \<Rightarrow> length f) \<and> \<not> overflow
        then Some prog else bpf_prog)"

definition select_filter ::
    "'a arch_scheme \<Rightarrow> audit_arch list \<Rightarrow> (nat \<Rightarrow> nat \<Rightarrow> bool) \<Rightarrow> sock_filter list option" where
  "select_filter A audit_arch_vec traced =
     shorter (shorter None (linear_filter_generator A audit_arch_vec traced))
       (binary_match_filter_generator A audit_arch_vec traced)"

definition check_seccomp_filter_properties ::
    "'a arch_scheme \<Rightarrow> audit_arch list \<Rightarrow> (nat \<Rightarrow> nat \<Rightarrow> bool) \<Rightarrow> bool \<Rightarrow>
     sock_filter list option \<times> bool" where
  "check_seccomp_filter_properties A audit_arch_vec traced supported =
     (if \<not> supported then (None, False)
      else case select_filter A audit_arch_vec traced of
             None \<Rightarrow> (None, False)
           | Some prog \<Rightarrow> (Some prog, length prog \<le> BPF_MAXINSNS))"

section \<open>The machine\<close>

text \<open>
  What the programs rely on of the kernel's classic BPF machine: \<open>run P d pc a x\<close> is the value
  returned by the program \<open>P\<close> on the data \<open>d\<close> when instruction \<open>pc\<close> is next and the registers are
  \<open>a\<close> and \<open>x\<close>.
\<close>

locale cbpf =
  fixes run :: "sock_filter list \<Rightarrow> seccomp_data \<Rightarrow> nat \<Rightarrow> u32 \<Rightarrow> u32 \<Rightarrow> u32 option"
  assumes ld_nr: "\<lbrakk>pc < length P; P ! pc = SET_BPF_STMT BPF_LD_W_ABS OFF_NR\<rbrakk> \<Longrightarrow>
      run P d pc a x = run P d (Suc pc) (sd_nr d) x"
    and ld_arch: "\<lbrakk>pc < length P; P ! pc = SET_BPF_STMT BPF_LD_W_ABS OFF_ARCH\<rbrakk> \<Longrightarrow>
      run P d pc a x = run P d (Suc pc) (sd_arch d) x"
    and ld_imm: "\<lbrakk>pc < length P; P ! pc = SET_BPF_STMT BPF_LD_IMM k\<rbrakk> \<Longrightarrow>
      run P d pc a x = run P d (Suc pc) k x"
    and jeq: "\<lbrakk>pc < length P; P ! pc = SET_BPF_JUMP BPF_JEQ k t f\<rbrakk> \<Longrightarrow>
      run P d pc a x = run P d (Suc pc + (if a = k then t else f)) a x"
    and jge: "\<lbrakk>pc < length P; P ! pc = SET_BPF_JUMP BPF_JGE k t f\<rbrakk> \<Longrightarrow>
      run P d pc a x = run P d (Suc pc + (if k \<le> a then t else f)) a x"
    and jset: "\<lbrakk>pc < length P; P ! pc = SET_BPF_JUMP BPF_JSET k t f\<rbrakk> \<Longrightarrow>
      run P d pc a x = run P d (Suc pc + (if a AND k \<noteq> 0 then t else f)) a x"
    and ja: "\<lbrakk>pc < length P; P ! pc = SET_BPF_JUMP BPF_JA k t f\<rbrakk> \<Longrightarrow>
      run P d pc a x = run P d (Suc pc + unat k) a x"
    and and_k: "\<lbrakk>pc < length P; P ! pc = SET_BPF_STMT BPF_ALU_AND_K k\<rbrakk> \<Longrightarrow>
      run P d pc a x = run P d (Suc pc) (a AND k) x"
    and lsh_x: "\<lbrakk>pc < length P; P ! pc = SET_BPF_STMT BPF_ALU_LSH_X k; x < 32\<rbrakk> \<Longrightarrow>
      run P d pc a x = run P d (Suc pc) (push_bit (unat x) a) x"
    and rsh_k: "\<lbrakk>pc < length P; P ! pc = SET_BPF_STMT BPF_ALU_RSH_K k; k < 32\<rbrakk> \<Longrightarrow>
      run P d pc a x = run P d (Suc pc) (drop_bit (unat k) a) x"
    and tax: "\<lbrakk>pc < length P; P ! pc = SET_BPF_STMT BPF_MISC_TAX k\<rbrakk> \<Longrightarrow>
      run P d pc a x = run P d (Suc pc) a a"
    and txa: "\<lbrakk>pc < length P; P ! pc = SET_BPF_STMT BPF_MISC_TXA k\<rbrakk> \<Longrightarrow>
      run P d pc a x = run P d (Suc pc) x x"
    and ret_k: "\<lbrakk>pc < length P; P ! pc = SET_BPF_STMT BPF_RET_K k\<rbrakk> \<Longrightarrow>
      run P d pc a x = Some k"

text \<open>A machine with these laws.\<close>

function bpf_run :: "sock_filter list \<Rightarrow> seccomp_data \<Rightarrow> nat \<Rightarrow> u32 \<Rightarrow> u32 \<Rightarrow> u32 option" where
  "bpf_run P d pc a x =
     (if pc \<ge> length P then None
      else let i = P ! pc; c = bcode i; k = bk i; j = (\<lambda>b. Suc pc + (if b then jt i else jf i))
      in if c = BPF_LD_W_ABS then
           (if k = OFF_NR then bpf_run P d (Suc pc) (sd_nr d) x
            else if k = OFF_ARCH then bpf_run P d (Suc pc) (sd_arch d) x else None)
         else if c = BPF_LD_IMM then bpf_run P d (Suc pc) k x
         else if c = BPF_JMP OR BPF_JEQ then bpf_run P d (j (a = k)) a x
         else if c = BPF_JMP OR BPF_JGE then bpf_run P d (j (k \<le> a)) a x
         else if c = BPF_JMP OR BPF_JSET then bpf_run P d (j (a AND k \<noteq> 0)) a x
         else if c = BPF_JMP OR BPF_JA then bpf_run P d (Suc pc + unat k) a x
         else if c = BPF_ALU_AND_K then bpf_run P d (Suc pc) (a AND k) x
         else if c = BPF_ALU_LSH_X then
           (if x < 32 then bpf_run P d (Suc pc) (push_bit (unat x) a) x else None)
         else if c = BPF_ALU_RSH_K then
           (if k < 32 then bpf_run P d (Suc pc) (drop_bit (unat k) a) x else None)
         else if c = BPF_MISC_TAX then bpf_run P d (Suc pc) a a
         else if c = BPF_MISC_TXA then bpf_run P d (Suc pc) x x
         else if c = BPF_RET_K then Some k else None)"
  by pat_completeness auto
termination
  by (relation "measure (\<lambda>(P, d, pc, a, x). length P - pc)") auto

declare bpf_run.simps [simp del]

lemmas set_bpf_defs = SET_BPF_STMT_def SET_BPF_JUMP_def SET_BPF_def

interpretation bpf: cbpf bpf_run
  by unfold_locales (subst bpf_run.simps, simp add: set_bpf_defs)+

section \<open>Placed code\<close>

text \<open>
  The instructions \<open>C\<close> stand in \<open>P\<close> at position \<open>q\<close> of a section of length \<open>N\<close> that starts at
  \<open>off\<close>, with their placeholders replaced.
\<close>

definition code_at :: "sock_filter list \<Rightarrow> nat \<Rightarrow> nat \<Rightarrow> nat \<Rightarrow> sock_filter list \<Rightarrow> bool" where
  "code_at P off N q C \<longleftrightarrow> off + q + length C \<le> length P \<and>
     (\<forall>i < length C. P ! (off + q + i) = fix_insn N (q + i) (C ! i))"

lemma code_at_Nil [simp]: "code_at P off N q [] \<longleftrightarrow> off + q \<le> length P"
  by (simp add: code_at_def)

lemma code_at_Cons [simp]:
  "code_at P off N q (i # C) \<longleftrightarrow>
     off + q < length P \<and> P ! (off + q) = fix_insn N q i \<and> code_at P off N (Suc q) C"
  by (auto simp: code_at_def less_Suc_eq_0_disj)

lemma code_at_append [simp]:
  "code_at P off N q (C @ D) \<longleftrightarrow> code_at P off N q C \<and> code_at P off N (q + length C) D"
proof (induction C arbitrary: q)
  case Nil
  then show ?case by (auto simp: code_at_def)
qed auto

lemma fix_insn_stmt [simp]:
  "c AND 7 \<noteq> BPF_JMP \<Longrightarrow> fix_insn N q (SET_BPF_STMT c k) = SET_BPF_STMT c k"
  by (simp add: fix_insn_def set_bpf_defs)

lemma fix_insn_jump:
  "\<lbrakk>c = BPF_JEQ \<or> c = BPF_JGE \<or> c = BPF_JSET; N \<le> 255\<rbrakk> \<Longrightarrow>
   fix_insn N q (SET_BPF_JUMP c k t f) = SET_BPF_JUMP c k
     (replace_jmp_placeholders t (N - q - 1) (N - q - 2) (N - q - 3))
     (replace_jmp_placeholders f (N - q - 1) (N - q - 2) (N - q - 3))"
  by (elim disjE) (simp_all add: fix_insn_def set_bpf_defs Let_def)

lemmas fix_insn_jumps [simp] =
  fix_insn_jump [OF disjI1 [OF refl]] fix_insn_jump [OF disjI2 [OF disjI1 [OF refl]]]
  fix_insn_jump [OF disjI2 [OF disjI2 [OF refl]]]

lemma fix_insn_ja [simp]:
  "N \<le> 255 \<Longrightarrow> fix_insn N q (SET_BPF_JUMP BPF_JA k 0 0) =
     SET_BPF_JUMP BPF_JA (word_of_nat (N - q - 1)) 0 0"
  by (simp add: fix_insn_def set_bpf_defs Let_def replace_jmp_placeholders_def)

declare replace_jmp_placeholders_def [simp]

lemma code_at_section:
  assumes "P = pre @ fix_section e (C @ D) @ post" "length C = e"
  shows "code_at P (length pre) (length (C @ D)) 0 C"
    and "i < length D \<Longrightarrow> P ! (length pre + e + i) = D ! i"
    and "length pre + length (C @ D) \<le> length P"
  using assms by (auto simp: code_at_def fix_section_def nth_append)

lemma unat_small [simp]: "n \<le> 255 \<Longrightarrow> unat (word_of_nat n :: u32) = n"
  by (simp add: unat_of_nat)

text \<open>
  What the flag of a personality is: zero, or a single bit above every system call number of the
  table and above the five bits that select within a word.
\<close>

definition flag_ok :: "u32 \<Rightarrow> nat \<Rightarrow> bool" where
  "flag_ok flag n \<longleftrightarrow>
     flag = 0 \<and> n < 2 ^ 32 \<or> (\<exists>b. 5 \<le> b \<and> b < 32 \<and> flag = push_bit b 1 \<and> n < 2 ^ b)"

lemma unat_or_flag:
  assumes "flag_ok flag n" "i \<le> n"
  shows "unat (word_of_nat i OR flag) = i + unat flag"
  using assms(1) unfolding flag_ok_def
proof (elim disjE conjE exE)
  assume "flag = 0" "n < 2 ^ 32"
  then show ?thesis using assms(2) by (simp add: unat_of_nat)
next
  fix b assume b: "b < 32" "flag = push_bit b 1" "n < 2 ^ b"
  have lt: "i < 2 ^ b" using b(3) assms(2) by simp
  also have "(2 :: nat) ^ b \<le> 2 ^ 31" using b(1) by (intro power_increasing) auto
  finally have i: "i < 2 ^ 31" .
  have "word_of_nat i AND flag = 0"
    using lt by (auto simp: b(2) bit_eq_iff [where ?'a = "32 word"] bit_simps dest: bit_nat_less)
  then have "word_of_nat i OR flag = word_of_nat i + flag"
    by (simp add: disjunctive_add_eq_or)
  moreover have "unat flag = 2 ^ b"
    using b(1) unfolding b(2) by (intro unat_push_bit_1) simp
  moreover have "i + 2 ^ b < 2 ^ 32"
    using i \<open>(2 :: nat) ^ b \<le> 2 ^ 31\<close> by simp
  ultimately show ?thesis using i by (simp add: unat_plus_if' unat_of_nat)
qed

lemma or_flag_le:
  assumes "flag_ok flag n" "i \<le> n" "flag \<le> a"
  shows "word_of_nat i OR flag \<le> a \<longleftrightarrow> i \<le> unat a - unat flag"
  using assms(3) by (simp add: word_le_nat_alt unat_or_flag [OF assms(1,2)] le_diff_conv2)

lemma length_cmp_pos: "0 < length (bpf_syscalls_cmp lo hi)"
  by (simp add: bpf_syscalls_cmp_def)

definition skips :: "bool \<Rightarrow> u32 \<Rightarrow> u32 \<Rightarrow> seccomp_data \<Rightarrow> bool" where
  "skips multi arch flag d \<longleftrightarrow> multi \<and> (sd_arch d \<noteq> arch \<or> sd_nr d < flag)"

definition verdict :: "(nat \<Rightarrow> bool) \<Rightarrow> u32 \<Rightarrow> nat \<Rightarrow> u32 \<Rightarrow> u32 \<Rightarrow> u32" where
  "verdict traced unknown n flag nr =
     (let s = unat nr - unat flag
      in if s < n then if traced s then SECCOMP_RET_TRACE else SECCOMP_RET_ALLOW else unknown)"

text \<open>
  The specification of a program: the first personality, from the last one down, whose architecture
  and flag match decides; \<open>unknown\<close> is returned for numbers beyond its table.
\<close>

fun decide ::
    "'a arch_scheme \<Rightarrow> audit_arch list \<Rightarrow> (nat \<Rightarrow> nat \<Rightarrow> bool) \<Rightarrow> u32 \<Rightarrow> nat list \<Rightarrow> seccomp_data \<Rightarrow> u32 option" where
  "decide A audit_arch_vec traced unknown [] d = None"
| "decide A audit_arch_vec traced unknown (p # ps) d =
     (if skips (1 < SUPPORTED_PERSONALITIES A) (fst (audit_arch_vec ! p)) (snd (audit_arch_vec ! p)) d
      then decide A audit_arch_vec traced unknown ps d
      else Some (verdict (\<lambda>i. traced i p) unknown (nsyscall_vec A ! p) (snd (audit_arch_vec ! p)) (sd_nr d)))"

definition seccomp_spec ::
    "'a arch_scheme \<Rightarrow> audit_arch list \<Rightarrow> (nat \<Rightarrow> nat \<Rightarrow> bool) \<Rightarrow> u32 \<Rightarrow> seccomp_data \<Rightarrow> u32" where
  "seccomp_spec A audit_arch_vec traced unknown d =
     (case decide A audit_arch_vec traced unknown (rev [0..<SUPPORTED_PERSONALITIES A]) d of
        None \<Rightarrow> SECCOMP_RET_TRACE | Some v \<Rightarrow> v)"

text \<open>
  One to three personalities (\<^verbatim>\<open>src/src/syscall_name.c\<close>) with flags as above; with a single
  personality the numbers carry its flag.
\<close>

definition audit_ok :: "'a arch_scheme \<Rightarrow> audit_arch list \<Rightarrow> seccomp_data \<Rightarrow> bool" where
  "audit_ok A audit_arch_vec d \<longleftrightarrow> 0 < SUPPORTED_PERSONALITIES A \<and> SUPPORTED_PERSONALITIES A \<le> 3 \<and>
     (\<forall>p < SUPPORTED_PERSONALITIES A. flag_ok (snd (audit_arch_vec ! p)) (nsyscall_vec A ! p)) \<and>
     (1 < SUPPORTED_PERSONALITIES A \<or> snd (audit_arch_vec ! 0) \<le> sd_nr d)"

lemma audit_okD:
  assumes "audit_ok A aud d" "p < SUPPORTED_PERSONALITIES A"
  shows "flag_ok (snd (aud ! p)) (nsyscall_vec A ! p)"
    and "1 < SUPPORTED_PERSONALITIES A \<or> snd (aud ! p) \<le> sd_nr d"
proof -
  show "flag_ok (snd (aud ! p)) (nsyscall_vec A ! p)"
    using assms unfolding audit_ok_def by blast
  have "1 < SUPPORTED_PERSONALITIES A \<or> p = 0" using assms(2) by linarith
  then show "1 < SUPPORTED_PERSONALITIES A \<or> snd (aud ! p) \<le> sd_nr d"
    using assms unfolding audit_ok_def by blast
qed

definition rets :: "sock_filter list \<Rightarrow> nat \<Rightarrow> nat \<Rightarrow> bool" where
  "rets P off N \<longleftrightarrow> 2 \<le> N \<and> off + N \<le> length P \<and>
     P ! (off + N - 1) = SET_BPF_STMT BPF_RET_K SECCOMP_RET_TRACE \<and>
     P ! (off + N - 2) = SET_BPF_STMT BPF_RET_K SECCOMP_RET_ALLOW"

lemma less_by_word:
  "(t :: nat) div 32 = n div 32 \<Longrightarrow>
   32 * (n div 32) + t mod 32 = t \<and> (t mod 32 < n mod 32 \<longleftrightarrow> t < n)"
  by (metis mult_div_mod_eq nat_add_left_cancel_less)

lemma last_word:
  "(n :: nat) mod 32 \<noteq> 0 \<Longrightarrow>
   n div 32 \<le> t div 32 \<and> 32 * (t div 32) < n \<longleftrightarrow> t div 32 = n div 32"
  using mult_div_mod_eq [of 32 n] mod_less_divisor [of 32 n] by arith

lemma no_last_word:
  "(n :: nat) mod 32 = 0 \<Longrightarrow> \<not> (n div 32 \<le> t div 32 \<and> 32 * (t div 32) < n)"
  using mult_div_mod_eq [of 32 n] by auto

lemma Suc_div_32: "Suc j div 32 = (if j mod 32 = 31 then Suc (j div 32) else j div 32)"
  by (simp add: div_Suc mod_Suc)

lemma within_word:
  "\<lbrakk>(j :: nat) mod 32 = 31; j < n; t div 32 = j div 32\<rbrakk> \<Longrightarrow> t < n \<and> 32 * (t div 32) < n"
  using mult_div_mod_eq [of 32 j] mult_div_mod_eq [of 32 t] mod_less_divisor [of 32 t] by auto

text \<open>The word under construction holds the traced calls among those seen of it.\<close>

definition word_upto :: "(nat \<Rightarrow> bool) \<Rightarrow> nat \<Rightarrow> u32 \<Rightarrow> bool" where
  "word_upto traced j b \<longleftrightarrow>
     (\<forall>k < 32. bit b k \<longleftrightarrow> k < j mod 32 \<and> traced (32 * (j div 32) + k))"

lemma word_upto_Suc:
  assumes "j mod 32 \<noteq> 31" "word_upto traced j b"
  shows "word_upto traced (Suc j) (if traced j then b OR push_bit (j mod 32) 1 else b)"
proof -
  have "Suc j div 32 = j div 32" "Suc j mod 32 = Suc (j mod 32)"
    using assms(1) by (simp_all add: Suc_div_32 mod_Suc)
  moreover have "32 * (j div 32) + j mod 32 = j" by simp
  ultimately show ?thesis
    using assms(2) by (auto simp: word_upto_def bit_simps less_Suc_eq)
qed

lemma word_upto_full:
  assumes "word_upto traced j b" "j mod 32 = 31" "t div 32 = j div 32"
  shows "bit (if traced j then b OR push_bit (j mod 32) 1 else b) (t mod 32) \<longleftrightarrow> traced t"
proof -
  have t: "32 * (j div 32) + t mod 32 = t" using assms(3) by (metis mult_div_mod_eq)
  have "t mod 32 = 31 \<Longrightarrow> t = j" using assms(2,3) by (metis mult_div_mod_eq)
  moreover have "t mod 32 < 31 \<or> t mod 32 = 31" by presburger
  moreover have "bit (b OR push_bit (j mod 32) 1) (t mod 32) \<longleftrightarrow> bit b (t mod 32) \<or> t mod 32 = j mod 32"
    by (auto simp: bit_simps)
  ultimately show ?thesis
    using assms(1) t by (auto simp: word_upto_def assms(2) simp del: push_bit_numeral)
qed

lemma of_nat_inj_32: "\<lbrakk>m < 2 ^ 32; n < 2 ^ 32\<rbrakk> \<Longrightarrow> (word_of_nat m :: u32) = word_of_nat n \<longleftrightarrow> m = n"
  by (simp add: word_of_nat_eq_iff take_bit_nat_eq_self)

lemma unat_less_32: "unat (w :: u32) < 2 ^ 32"
  using unsigned_less [of w] by simp

lemma flag_disjoint:
  assumes "flag_ok flag n" "i \<le> n"
  shows "word_of_nat i AND flag = 0"
  using assms
  by (auto simp: flag_ok_def bit_eq_iff [where ?'a = "32 word"] bit_simps
      dest: bit_nat_less [OF le_less_trans])

text \<open>Masking the flag or subtracting it gives the same system call number.\<close>

lemma masked_number:
  assumes "flag_ok flag n" "flag \<le> nr"
  shows "unat (nr AND NOT flag) < n \<longleftrightarrow> unat nr - unat flag < n"
    and "unat nr - unat flag < n \<Longrightarrow> unat (nr AND NOT flag) = unat nr - unat flag"
proof -
  let ?t = "nr AND NOT flag" and ?s = "unat nr - unat flag"
  have le: "unat flag \<le> unat nr" using assms(2) by (simp add: word_le_nat_alt)
  have 1: "unat ?t = ?s" if "?s < n"
  proof -
    have "nr = word_of_nat ?s OR flag"
      using unat_or_flag [OF assms(1), of ?s] that le by (simp add: word_unat_eq_iff)
    then have "?t = (word_of_nat ?s OR flag) AND NOT flag" by (simp only:)
    also have "\<dots> = word_of_nat ?s"
      using flag_disjoint [OF assms(1), of ?s] that
      by (auto simp: bit_eq_iff [where ?'a = "32 word"] bit_simps)
    finally have "?t = word_of_nat ?s" .
    moreover have "?s < 2 ^ 32" using unat_less_32 [of nr] by simp
    ultimately show ?thesis by (simp only: unat_of_nat) (simp add: take_bit_nat_eq_self)
  qed
  moreover have "?s < n" if t: "unat ?t < n"
  proof (cases "nr AND flag = flag")
    case True
    have "nr = ?t OR (nr AND flag)" by (auto simp: bit_eq_iff [where ?'a = "32 word"] bit_simps)
    then have "unat nr = unat ?t + unat flag"
      unfolding True using unat_or_flag [OF assms(1), of "unat ?t"] t by simp
    then show ?thesis using t by simp
  next
    case False
    then obtain b where b: "b < 32" "flag = push_bit b 1" "n < 2 ^ b"
      using assms(1) by (auto simp: flag_ok_def)
    then have "\<not> bit nr b"
      using False by (auto simp: bit_eq_iff [where ?'a = "32 word"] bit_simps)
    then have "?t = nr" using b by (auto simp: bit_eq_iff [where ?'a = "32 word"] bit_simps)
    then show ?thesis using t le b unat_push_bit_1 [of b, where ?'a = 32] by simp
  qed
  ultimately show "unat ?t < n \<longleftrightarrow> ?s < n" "?s < n \<Longrightarrow> unat ?t = ?s" by auto
qed

lemma low_bits_of_masked: "flag_ok flag n \<Longrightarrow> (nr AND NOT flag) AND 0x1F = nr AND 0x1F"
proof -
  have mask: "(0x1F :: u32) = mask 5" by (simp add: mask_eq_exp_minus_1)
  show "flag_ok flag n \<Longrightarrow> ?thesis"
    unfolding mask by (auto simp: flag_ok_def bit_eq_iff [where ?'a = "32 word"] bit_simps)
qed

lemma word_index:
  "drop_bit 5 (t :: u32) = word_of_nat (unat t div 32)"
  "unat (t AND 0x1F) = unat t mod 32"
proof -
  have mask: "(0x1F :: u32) = mask 5" by (simp add: mask_eq_exp_minus_1)
  show "drop_bit 5 t = word_of_nat (unat t div 32)"
    using unat_less_32 [of t]
    by (simp add: drop_bit_eq_div word_unat_eq_iff unat_div unat_of_nat take_bit_nat_eq_self)
  show "unat (t AND 0x1F) = unat t mod 32"
    unfolding mask by (simp add: unsigned_take_bit_eq take_bit_eq_mod unat_mod flip: take_bit_eq_mask)
qed

context cbpf
begin

lemma cmp_run:
  assumes "code_at P off N q (bpf_syscalls_cmp lo hi)" "q + 4 \<le> N" "N \<le> 255" "lo < hi"
  shows "run P d (off + q) a x =
    (if lo \<le> a \<and> a < hi then run P d (off + N - 1) a x
     else run P d (off + (q + length (bpf_syscalls_cmp lo hi))) a x)"
proof -
  obtain M where N: "N = q + 4 + M" using assms(2) nat_le_iff_add by blast
  show ?thesis
  proof (cases "lo + 1 = hi")
    case True
    have eq: "lo \<le> a \<and> a < hi \<longleftrightarrow> a = lo"
      using assms(4) unfolding True [symmetric]
      by (auto simp: word_le_nat_alt word_less_nat_alt unat_plus_if' word_unat_eq_iff split: if_splits)
    have 1: "off + q < length P" "P ! (off + q) = SET_BPF_JUMP BPF_JEQ lo (M + 2) 0"
      using assms True N by (auto simp: bpf_syscalls_cmp_def)
    show ?thesis
      unfolding jeq [OF 1] eq using True N
      by (simp add: bpf_syscalls_cmp_def add_ac numeral_3_eq_3)
  next
    case False
    have 1: "off + q < length P" "P ! (off + q) = SET_BPF_JUMP BPF_JGE lo 0 1"
      and 2: "Suc (off + q) < length P"
        "P ! Suc (off + q) = SET_BPF_JUMP BPF_JGE hi 0 (M + 1)"
      using assms False N by (auto simp: bpf_syscalls_cmp_def)
    show ?thesis
      unfolding jge [OF 1] using False N
      by (auto simp: jge [OF 2] bpf_syscalls_cmp_def not_le add_ac numeral_3_eq_3)
  qed
qed

lemma cmp_run_flag:
  assumes "code_at P off N q (bpf_syscalls_cmp (word_of_nat l OR flag) (word_of_nat u OR flag))"
    and "q + 4 \<le> N" "N \<le> 255" "flag_ok flag n" "l < u" "u \<le> n" "flag \<le> a"
  shows "run P d (off + q) a x =
    (if l \<le> unat a - unat flag \<and> unat a - unat flag < u then run P d (off + N - 1) a x
     else run P d (off + (q + length (bpf_syscalls_cmp (word_of_nat l OR flag)
       (word_of_nat u OR flag)))) a x)"
proof -
  have "word_of_nat l OR flag < word_of_nat u OR flag"
    using assms by (simp add: word_less_nat_alt unat_or_flag [OF assms(4)])
  then show ?thesis
    using assms by (simp add: cmp_run or_flag_le [OF assms(4)] flip: not_le)
qed

lemma linear_cmps_run:
  assumes "flag_ok flag n" "flag \<le> a" "N \<le> 255" and s: "s = unat a - unat flag"
    and "code_at P off N q (linear_cmps traced flag n [j..<n] lower)"
    and "q + length (linear_cmps traced flag n [j..<n] lower) + 3 \<le> N"
    and "j \<le> n" "\<forall>l. lower = Some l \<longrightarrow> l < j"
  shows "run P d (off + q) a x =
    (if (\<exists>l. lower = Some l \<and> l \<le> s \<and> s < j) \<or> (j \<le> s \<and> s < n \<and> traced s)
     then run P d (off + N - 1) a x
     else run P d (off + (q + length (linear_cmps traced flag n [j..<n] lower))) a x)"
  using assms(5-)
proof (induction "n - j" arbitrary: j q lower)
  case 0
  then have "j = n" by simp
  show ?case
  proof (cases lower)
    case None
    then show ?thesis using \<open>j = n\<close> by auto
  next
    case (Some l)
    have "q + 4 \<le> N"
      using 0 Some \<open>j = n\<close> length_cmp_pos [of "word_of_nat l OR flag" "word_of_nat n OR flag"]
      by (simp del: length_greater_0_conv)
    then show ?thesis
      using 0 Some \<open>j = n\<close> cmp_run_flag [OF _ _ assms(3,1) _ _ assms(2), of P off q l n d x]
      by (auto simp flip: s)
  qed
next
  case (Suc k)
  then have j: "j < n" "k = n - Suc j" by auto
  note up = upt_conv_Cons [OF j(1)]
  show ?case
  proof (cases "traced j")
    case True
    show ?thesis
      using Suc.hyps(1) [OF j(2), of q "Some (case lower of None \<Rightarrow> j | Some l \<Rightarrow> l)"] Suc.prems True j
      by (cases lower; cases s j rule: linorder_cases) (auto simp: up)
  next
    case False
    show ?thesis
    proof (cases lower)
      case None
      show ?thesis
        using Suc.hyps(1) [OF j(2), of q None] Suc.prems False None j
        by (cases s j rule: linorder_cases) (auto simp: up)
    next
      case (Some l)
      let ?c = "bpf_syscalls_cmp (word_of_nat l OR flag) (word_of_nat j OR flag)"
      have "q + 4 \<le> N"
        using Suc.prems Some False
          length_cmp_pos [of "word_of_nat l OR flag" "word_of_nat j OR flag"]
        by (simp add: up del: length_greater_0_conv)
      then have "run P d (off + q) a x = (if l \<le> s \<and> s < j then run P d (off + N - 1) a x
          else run P d (off + (q + length ?c)) a x)"
        using Suc.prems Some False j
          cmp_run_flag [OF _ _ assms(3,1) _ _ assms(2), of P off q l j d x]
        by (auto simp: up simp flip: s)
      then show ?thesis
        using Suc.hyps(1) [OF j(2), of "q + length ?c" None] Suc.prems False Some j
        by (cases s j rule: linorder_cases) (auto simp: up add_ac)
    qed
  qed
qed

lemma personality_head_run:
  assumes "code_at P off N 0 (personality_head multi arch flag)" "N \<le> 255"
    and "length (personality_head multi arch flag) + 2 \<le> N" "multi \<longrightarrow> a = sd_arch d"
  shows "run P d off a x =
    (if skips multi arch flag d then run P d (off + N) (sd_arch d) x
     else run P d (off + length (personality_head multi arch flag)) (sd_nr d) x)"
proof (cases multi)
  case False
  then show ?thesis
    using assms ld_nr [of off P d a x] by (simp add: personality_head_def skips_def)
next
  case True
  show ?thesis
  proof (cases "flag = 0")
    case flag: True
    obtain M where N: "N = M + 4"
      using assms(3) True flag by (auto simp: personality_head_def dest: le_Suc_ex)
    have 1: "off < length P" "P ! off = SET_BPF_JUMP BPF_JEQ arch 0 (3 + M)"
      and 2: "Suc off < length P" "P ! Suc off = SET_BPF_STMT BPF_LD_W_ABS OFF_NR"
      using assms(1,2) True flag N by (auto simp: personality_head_def)
    show ?thesis
      using assms(4) True flag N
      by (simp add: jeq [OF 1] ld_nr [OF 2] personality_head_def skips_def eval_nat_numeral)
  next
    case flag: False
    obtain M where N: "N = M + 7"
      using assms(3) True flag by (auto simp: personality_head_def dest: le_Suc_ex)
    have 1: "off < length P" "P ! off = SET_BPF_JUMP BPF_JEQ arch 0 (6 + M)"
      and 2: "Suc off < length P" "P ! Suc off = SET_BPF_STMT BPF_LD_W_ABS OFF_NR"
      and 3: "Suc (Suc off) < length P" "P ! Suc (Suc off) = SET_BPF_JUMP BPF_JGE flag 2 0"
      and 4: "Suc (Suc (Suc off)) < length P"
        "P ! Suc (Suc (Suc off)) = SET_BPF_STMT BPF_LD_W_ABS OFF_ARCH"
      and 5: "Suc (Suc (Suc (Suc off))) < length P"
        "P ! Suc (Suc (Suc (Suc off))) = SET_BPF_JUMP BPF_JA (word_of_nat (M + 2)) 0 0"
      using assms(1,2) True flag N by (auto simp: personality_head_def)
    have "unat (word_of_nat (M + 2) :: u32) = M + 2"
      using assms(2) N by (intro unat_small) simp
    then show ?thesis
      using assms(4) True flag N
      by (auto simp: jeq [OF 1] ld_nr [OF 2] jge [OF 3] ld_arch [OF 4] ja [OF 5]
          personality_head_def skips_def eval_nat_numeral not_le simp del: of_nat_add of_nat_Suc)
  qed
qed

lemma linear_section_run:
  assumes "P = pre @ fix_section e sec @ post" "linear_section multi arch flag n traced = (sec, e)"
    and "length sec \<le> 255" "flag_ok flag n" "multi \<longrightarrow> a = sd_arch d" "multi \<or> flag \<le> sd_nr d"
  shows "run P d (length pre) a x =
    (if skips multi arch flag d then run P d (length pre + length sec) (sd_arch d) x
     else Some (verdict traced SECCOMP_RET_TRACE n flag (sd_nr d)))"
proof -
  let ?h = "personality_head multi arch flag"
  let ?c = "linear_cmps traced flag n [0..<n] None"
  let ?t = "[SET_BPF_JUMP BPF_JGE (word_of_nat n OR flag) 1 0,
    SET_BPF_STMT BPF_RET_K SECCOMP_RET_ALLOW, SET_BPF_STMT BPF_RET_K SECCOMP_RET_TRACE]"
  let ?N = "length sec" and ?off = "length pre" and ?nr = "sd_nr d"
  let ?s = "unat ?nr - unat flag"
  have sec: "sec = (?h @ ?c) @ ?t" "e = length (?h @ ?c)"
    using assms(2) by (simp_all add: linear_section_def Let_def)
  note placed = code_at_section [OF assms(1) [unfolded sec(1)] sec(2) [symmetric], folded sec(1)]
  have c: "code_at P ?off ?N 0 ?h" "code_at P ?off ?N (length ?h) ?c"
    using placed(1) by auto
  have len: "?N = e + 3" using sec by simp
  have t: "P ! (?off + e) = ?t ! 0" "P ! (?off + e + 1) = ?t ! 1" "P ! (?off + e + 2) = ?t ! 2"
    using placed(2) [of 0] placed(2) [of 1] placed(2) [of 2] by (simp_all add: add_ac)
  have l: "?off + e + 2 < length P" using placed(3) len by simp
  have ret: "run P d (?off + ?N - 1) ?nr x = Some SECCOMP_RET_TRACE" for x
    using t(3) l by (subst ret_k [of _ _ SECCOMP_RET_TRACE]) (auto simp: len add_ac)
  have last: "run P d (?off + e) ?nr x =
      Some (if n \<le> ?s then SECCOMP_RET_TRACE else SECCOMP_RET_ALLOW)" if "flag \<le> ?nr"
    using t l ret_k [of "?off + e + 2" P SECCOMP_RET_TRACE]
      ret_k [of "?off + e + 1" P SECCOMP_RET_ALLOW] or_flag_le [OF assms(4) order.refl that]
    by (subst jge [of _ _ "word_of_nat n OR flag" 1 0]) auto
  have body: "run P d (?off + length ?h) ?nr x =
      (if ?s < n \<and> traced ?s then Some SECCOMP_RET_TRACE
       else run P d (?off + e) ?nr x)" if "flag \<le> ?nr"
    using linear_cmps_run [OF assms(4) that assms(3) refl c(2), of d x] len ret sec(2) by simp
  have "skips multi arch flag d \<or> flag \<le> ?nr"
    using assms(6) by (auto simp: skips_def)
  then show ?thesis
    using personality_head_run [OF c(1) assms(3) _ assms(5), of x] len sec(2) body last
    by (auto simp: verdict_def Let_def)
qed

lemma linear_sections_run:
  assumes "linear_sections A aud traced ps prog = (prog', False)"
    and "audit_ok A aud d" "set ps \<subseteq> {..<SUPPORTED_PERSONALITIES A}"
    and "1 < SUPPORTED_PERSONALITIES A \<longrightarrow> a = sd_arch d"
  shows "(\<exists>sfx. prog' = prog @ sfx) \<and>
    run (prog' @ post) d (length prog) a x =
      (case decide A aud traced SECCOMP_RET_TRACE ps d of Some v \<Rightarrow> Some v
       | None \<Rightarrow> run (prog' @ post) d (length prog') a x)"
  using assms
proof (induction A aud traced ps prog arbitrary: a rule: linear_sections.induct)
  case (2 A aud traced p ps prog)
  let ?m = "1 < SUPPORTED_PERSONALITIES A"
  let ?ls = "linear_section ?m (fst (aud ! p)) (snd (aud ! p)) (nsyscall_vec A ! p) (\<lambda>i. traced i p)"
  obtain sec e where sec: "?ls = (sec, e)" by fastforce
  have short: "\<not> 255 < length sec" and
    rest: "linear_sections A aud traced ps (prog @ fix_section e sec) = (prog', False)"
    using "2.prems"(1) sec by (auto split: if_splits)
  have len: "length (fix_section e sec) = length sec" by (simp add: fix_section_def)
  have IH: "(\<exists>sfx. prog' = (prog @ fix_section e sec) @ sfx) \<and>
      run (prog' @ post) d (length prog + length sec) a x =
      (case decide A aud traced SECCOMP_RET_TRACE ps d of Some v \<Rightarrow> Some v
       | None \<Rightarrow> run (prog' @ post) d (length prog') a x)"
    if "?m \<longrightarrow> a = sd_arch d" for a
    using "2.IH" [OF sec [symmetric] short rest, of a] "2.prems" that len by simp
  obtain sfx where sfx: "prog' @ post = prog @ fix_section e sec @ (sfx @ post)"
    using IH [OF "2.prems"(4)] by auto
  have "flag_ok (snd (aud ! p)) (nsyscall_vec A ! p)" "?m \<or> snd (aud ! p) \<le> sd_nr d"
    using audit_okD [OF "2.prems"(2)] "2.prems"(3) by auto
  note run = linear_section_run [OF sfx sec _ this(1) "2.prems"(4) this(2), of x]
  show ?case
    using IH [OF "2.prems"(4)] IH [of "sd_arch d"] run short "2.prems"(4)
    by (auto simp: skips_def)
qed auto

lemma generator_run:
  assumes gen: "(let multi = 1 < SUPPORTED_PERSONALITIES A
      in case S (if multi then [SET_BPF_STMT BPF_LD_W_ABS OFF_ARCH] else []) of
           (prog, overflow) \<Rightarrow>
             (if overflow \<or> \<not> multi then prog
              else prog @ [SET_BPF_STMT BPF_RET_K SECCOMP_RET_TRACE], overflow)) = (prog, False)"
    and "audit_ok A aud d"
    and S: "\<And>prog prog' post a.
      \<lbrakk>S prog = (prog', False); 1 < SUPPORTED_PERSONALITIES A \<longrightarrow> a = sd_arch d; length prog \<le> 1\<rbrakk> \<Longrightarrow>
      (\<exists>sfx. prog' = prog @ sfx) \<and> run (prog' @ post) d (length prog) a x =
        (case decide A aud traced unknown (rev [0..<SUPPORTED_PERSONALITIES A]) d of Some v \<Rightarrow> Some v
         | None \<Rightarrow> run (prog' @ post) d (length prog') a x)"
  shows "run prog d 0 a x = Some (seccomp_spec A aud traced unknown d)"
proof (cases "1 < SUPPORTED_PERSONALITIES A")
  case True
  let ?l = "[SET_BPF_STMT BPF_LD_W_ABS OFF_ARCH]" and ?r = "[SET_BPF_STMT BPF_RET_K SECCOMP_RET_TRACE]"
  obtain prog' where p: "S ?l = (prog', False)" "prog = prog' @ ?r"
    using gen True by (auto simp: Let_def split: prod.splits)
  note run = S [OF p(1), of "sd_arch d" ?r, simplified]
  have *: "0 < length prog" "prog ! 0 = SET_BPF_STMT BPF_LD_W_ABS OFF_ARCH"
    using run p(2) by auto
  have "run prog d (length prog') a x = Some SECCOMP_RET_TRACE" for a
    by (rule ret_k) (simp_all add: p(2))
  then show ?thesis
    unfolding ld_arch [OF *] using run by (auto simp: seccomp_spec_def p(2) split: option.splits)
next
  case False
  then have one: "SUPPORTED_PERSONALITIES A = 1"
    using assms(2) unfolding audit_ok_def by linarith
  have "S [] = (prog, False)"
    using gen False by (auto simp: Let_def split: prod.splits)
  from S [OF this, of a "[]"] one show ?thesis
    by (simp add: seccomp_spec_def skips_def)
qed

lemma linear_filter_run:
  assumes "linear_filter_generator A aud traced = (prog, False)" "audit_ok A aud d"
  shows "run prog d 0 a x = Some (seccomp_spec A aud traced SECCOMP_RET_TRACE d)"
  using assms(1) unfolding linear_filter_generator_def
  by (rule generator_run [OF _ assms(2)]) (rule linear_sections_run [OF _ assms(2)]; auto)

lemma rets_run:
  assumes "rets P off N"
  shows "run P d (off + N - 1) a x = Some SECCOMP_RET_TRACE"
    and "run P d (off + N - 2) a x = Some SECCOMP_RET_ALLOW"
  using assms by (auto simp: rets_def intro!: ret_k)

lemma match_run:
  assumes "code_at P off N q (bpf_syscalls_match b w)" "q + length (bpf_syscalls_match b w) + 2 \<le> N"
    and "N \<le> 255" "rets P off N" "x = push_bit k 1" "k < 32"
  shows "run P d (off + q) a x =
    (if a = w then Some (if bit b k then SECCOMP_RET_TRACE else SECCOMP_RET_ALLOW)
     else run P d (off + (q + length (bpf_syscalls_match b w))) a x)"
proof (cases "b = 0 \<or> b = - 1")
  case True
  obtain M where N: "N = q + 3 + M" using assms(2) True
    by (auto simp: bpf_syscalls_match_def nat_le_iff_add split: if_splits)
  let ?t = "if b = 0 then M else M + 1"
  have 1: "off + q < length P" "P ! (off + q) = SET_BPF_JUMP BPF_JEQ w ?t 0"
    using assms(1,3) True N by (auto simp: bpf_syscalls_match_def)
  show ?thesis
    using True N assms(6) rets_run [OF assms(4), of d a x]
    by (auto simp: jeq [OF 1] bpf_syscalls_match_def add_ac numeral_3_eq_3)
next
  case False
  obtain M where N: "N = q + 5 + M" using assms(2) False
    by (auto simp: bpf_syscalls_match_def nat_le_iff_add)
  have 1: "off + q < length P" "P ! (off + q) = SET_BPF_JUMP BPF_JEQ w 0 2"
    and 2: "Suc (off + q) < length P" "P ! Suc (off + q) = SET_BPF_STMT BPF_MISC_TXA 0"
    and 3: "Suc (Suc (off + q)) < length P"
      "P ! Suc (Suc (off + q)) = SET_BPF_JUMP BPF_JSET b (M + 1) M"
    using assms(1,3) False N by (auto simp: bpf_syscalls_match_def)
  have "x AND b \<noteq> 0 \<longleftrightarrow> bit b k"
    using assms(6) unfolding assms(5)
    by (auto simp: bit_eq_iff [where ?'a = "32 word"] bit_simps)
  then show ?thesis
    using False N rets_run [OF assms(4), of d x x]
    by (auto simp: jeq [OF 1] txa [OF 2] jset [OF 3] bpf_syscalls_match_def add_ac eval_nat_numeral)
qed

lemma binary_matches_run:
  assumes "N \<le> 255" "rets P off N" "n < 2 ^ 32" "t < 2 ^ 32"
    and x: "x = push_bit (t mod 32) 1" and a: "a = word_of_nat (t div 32)"
    and "code_at P off N q (binary_matches traced n pos [j..<n] b)"
    and "q + length (binary_matches traced n pos [j..<n] b) + 2 \<le> N"
    and "pos + length (binary_matches traced n pos [j..<n] b) \<le> BPF_MAXINSNS"
    and "j \<le> n" "word_upto traced j b"
  shows "run P d (off + q) a x =
    (if j div 32 \<le> t div 32 \<and> 32 * (t div 32) < n
     then Some (if t < n \<and> traced t then SECCOMP_RET_TRACE else SECCOMP_RET_ALLOW)
     else run P d (off + (q + length (binary_matches traced n pos [j..<n] b))) a x)"
  using assms(7-)
proof (induction "n - j" arbitrary: j q pos b)
  case 0
  then have j: "j = n" by simp
  show ?case
  proof (cases "n mod 32 = 0")
    case True
    then show ?thesis
      unfolding j if_not_P [OF no_last_word [OF True, of t]] by (simp add: leftover_match_def)
  next
    case False
    let ?m = "bpf_syscalls_match b (word_of_nat (n div 32))"
    have m: "binary_matches traced n pos [j..<n] b = ?m"
      using False j by (simp add: leftover_match_def)
    have "a = word_of_nat (n div 32) \<longleftrightarrow> t div 32 = n div 32"
      unfolding a using assms(3,4) by (intro of_nat_inj_32) auto
    moreover have "t div 32 = n div 32 \<Longrightarrow> bit b (t mod 32) \<longleftrightarrow> t < n \<and> traced t"
      using "0.prems"(5) j less_by_word [of t n] by (simp add: word_upto_def)
    moreover note match_run [OF "0.prems"(1,2) [unfolded m] assms(1,2) x, of d a]
    ultimately show ?thesis unfolding m unfolding j last_word [OF False] by simp
  qed
next
  case (Suc k)
  then have j: "j < n" "k = n - Suc j" by auto
  note up = upt_conv_Cons [OF j(1)]
  let ?b = "if traced j then b OR push_bit (j mod 32) 1 else b"
  let ?C = "binary_matches traced n pos [j..<n] b"
  have pos: "\<not> pos > BPF_MAXINSNS" using Suc.prems(3) by linarith
  show ?case
  proof (cases "j mod 32 = 31")
    case False
    have C: "?C = binary_matches traced n pos [Suc j..<n] ?b"
      using False pos by (simp only: up binary_matches.simps Let_def if_False)
    have "word_upto traced (Suc j) ?b" using False Suc.prems(5) by (rule word_upto_Suc)
    moreover have "Suc j \<le> n" "Suc j div 32 = j div 32" using False j by (simp_all add: Suc_div_32)
    ultimately show ?thesis
      using Suc.hyps(1) [OF j(2) Suc.prems(1-3) [unfolded C]] unfolding C by (simp only:)
  next
    case True
    let ?m = "bpf_syscalls_match ?b (word_of_nat (j div 32))"
    let ?r = "binary_matches traced n (pos + length ?m) [Suc j..<n] 0"
    have C: "?C = ?m @ ?r"
      using True pos by (simp only: up binary_matches.simps Let_def if_False if_True refl)
    have w: "a = word_of_nat (j div 32) \<longleftrightarrow> t div 32 = j div 32"
      unfolding a using assms(3,4) j(1) by (intro of_nat_inj_32) auto
    have bit: "t div 32 = j div 32 \<Longrightarrow> bit ?b (t mod 32) \<longleftrightarrow> traced t"
      using Suc.prems(5) True by (rule word_upto_full)
    have run: "run P d (off + q) a x = (if a = word_of_nat (j div 32)
        then Some (if bit ?b (t mod 32) then SECCOMP_RET_TRACE else SECCOMP_RET_ALLOW)
        else run P d (off + (q + length ?m)) a x)"
      using Suc.prems(1,2) unfolding C by (intro match_run [OF _ _ assms(1,2) x]) simp_all
    have IH: "run P d (off + (q + length ?m)) a x =
      (if Suc j div 32 \<le> t div 32 \<and> 32 * (t div 32) < n
       then Some (if t < n \<and> traced t then SECCOMP_RET_TRACE else SECCOMP_RET_ALLOW)
       else run P d (off + (q + length ?m + length ?r)) a x)"
      using Suc.prems(1-3) j(1) True unfolding C
      by (intro Suc.hyps(1) [OF j(2)]) (simp_all add: word_upto_def mod_Suc)
    show ?thesis
      using w bit within_word [OF True j(1), of t]
      unfolding run IH unfolding C Suc_div_32 if_P [OF True]
      by (cases "t div 32" "j div 32" rule: linorder_cases) (simp_all add: add_ac)
  qed
qed

lemma bit_of_nr_run:
  assumes c: "P ! q = SET_BPF_STMT BPF_ALU_AND_K 0x1F" "P ! Suc q = SET_BPF_STMT BPF_MISC_TAX 0"
      "P ! Suc (Suc q) = SET_BPF_STMT BPF_LD_IMM 1"
      "P ! Suc (Suc (Suc q)) = SET_BPF_STMT BPF_ALU_LSH_X 0"
      "P ! Suc (Suc (Suc (Suc q))) = SET_BPF_STMT BPF_MISC_TAX 0"
      "P ! Suc (Suc (Suc (Suc (Suc q)))) = SET_BPF_STMT BPF_LD_W_ABS OFF_NR"
    and l: "Suc (Suc (Suc (Suc (Suc q)))) < length P"
  shows "run P d q a x =
    run P d (Suc (Suc (Suc (Suc (Suc (Suc q)))))) (sd_nr d) (push_bit (unat a mod 32) 1)"
proof -
  let ?k = "a AND 0x1F"
  have k: "unat ?k = unat a mod 32" by (rule word_index(2))
  then have "?k < 32" by (simp add: word_less_nat_alt)
  have "run P d q a x = run P d (Suc q) ?k x" by (rule and_k [OF _ c(1)]) (use l in simp)
  also have "\<dots> = run P d (Suc (Suc q)) ?k ?k" by (rule tax [OF _ c(2)]) (use l in simp)
  also have "\<dots> = run P d (Suc (Suc (Suc q))) 1 ?k" by (rule ld_imm [OF _ c(3)]) (use l in simp)
  also have "\<dots> = run P d (Suc (Suc (Suc (Suc q)))) (push_bit (unat ?k) 1) ?k"
    by (rule lsh_x [OF _ c(4) \<open>?k < 32\<close>]) (use l in simp)
  also have "\<dots> = run P d (Suc (Suc (Suc (Suc (Suc q))))) (push_bit (unat ?k) 1) (push_bit (unat ?k) 1)"
    by (rule tax [OF _ c(5)]) (use l in simp)
  also have "\<dots> = run P d (Suc (Suc (Suc (Suc (Suc (Suc q)))))) (sd_nr d) (push_bit (unat ?k) 1)"
    by (rule ld_nr [OF l c(6)])
  finally show ?thesis unfolding k .
qed

lemma index_of_nr_run:
  assumes "if flag \<noteq> 0 then P ! q = SET_BPF_STMT BPF_ALU_AND_K (NOT flag) \<and>
      P ! Suc q = SET_BPF_STMT BPF_ALU_RSH_K 5 \<and> Suc q < length P
    else P ! q = SET_BPF_STMT BPF_ALU_RSH_K 5 \<and> q < length P"
  shows "run P d q a x = run P d (if flag \<noteq> 0 then Suc (Suc q) else Suc q)
    (word_of_nat (unat (a AND NOT flag) div 32)) x"
proof (cases "flag = 0")
  case True
  then show ?thesis using assms rsh_k [of q P 5 d a x] by (simp add: word_index(1))
next
  case False
  then show ?thesis
    using assms and_k [of q P "NOT flag" d a x] rsh_k [of "Suc q" P 5 d "a AND NOT flag" x]
    unfolding word_index(1) [symmetric] by simp
qed

lemma binary_head_run:
  assumes "code_at P off N q (binary_head multi flag)" "flag_ok flag n" "t = unat (sd_nr d AND NOT flag)"
  shows "run P d (off + q) (sd_nr d) x =
    run P d (off + (q + length (binary_head multi flag))) (word_of_nat (t div 32)) (push_bit (t mod 32) 1)"
proof -
  let ?nr = "sd_nr d"
  let ?w = "?nr AND NOT flag"
  have low: "unat ?nr mod 32 = t mod 32"
    using word_index(2) [of ?w] word_index(2) [of ?nr] low_bits_of_masked [OF assms(2)] assms(3) by simp
  let ?q = "if multi \<and> flag \<noteq> 0 then Suc (off + q) else off + q"
  have 1: "run P d (off + q) ?nr x = run P d ?q (if multi \<and> flag \<noteq> 0 then ?w else ?nr) x"
    using assms(1) and_k [of "off + q" P "NOT flag" d ?nr x] by (auto simp: binary_head_def)
  have 2: "run P d ?q (if multi \<and> flag \<noteq> 0 then ?w else ?nr) x =
      run P d (Suc (Suc (Suc (Suc (Suc (Suc ?q)))))) ?nr (push_bit (t mod 32) 1)"
    using assms(1) low assms(3)
    by (subst bit_of_nr_run) (auto simp: binary_head_def)
  have 3: "\<dots> = run P d (off + (q + length (binary_head multi flag))) (word_of_nat (t div 32))
      (push_bit (t mod 32) 1)"
    using assms(1,3)
    by (subst index_of_nr_run [of flag]) (auto simp: binary_head_def)
  show ?thesis using 1 2 3 by simp
qed

lemma binary_section_run:
  assumes "P = pre @ fix_section e sec @ post"
    and "binary_section multi arch flag n traced start = (sec, e)" "start \<le> 3000"
    and "length sec \<le> 255" "flag_ok flag n" "multi \<longrightarrow> a = sd_arch d" "multi \<or> flag \<le> sd_nr d"
  shows "run P d (length pre) a x =
    (if skips multi arch flag d then run P d (length pre + length sec) (sd_arch d) x
     else Some (verdict traced SECCOMP_RET_ALLOW n flag (sd_nr d)))"
proof -
  let ?h = "personality_head multi arch flag" and ?b = "binary_head multi flag"
  let ?c = "binary_matches traced n (start + length (?h @ ?b)) [0..<n] 0"
  let ?t = "[SET_BPF_STMT BPF_RET_K SECCOMP_RET_ALLOW, SET_BPF_STMT BPF_RET_K SECCOMP_RET_TRACE]"
  let ?N = "length sec" and ?off = "length pre" and ?nr = "sd_nr d"
  let ?m = "unat (?nr AND NOT flag)"
  have sec: "sec = (?h @ ?b @ ?c) @ ?t" "e = length (?h @ ?b @ ?c)"
    using assms(2) by (simp_all add: binary_section_def Let_def)
  note placed = code_at_section [OF assms(1) [unfolded sec(1)] sec(2) [symmetric], folded sec(1)]
  have c: "code_at P ?off ?N 0 ?h" "code_at P ?off ?N (length ?h) ?b"
    "code_at P ?off ?N (length ?h + length ?b) ?c"
    using placed(1) by auto
  have len: "?N = e + 2" using sec by simp
  have rets: "rets P ?off ?N"
    using placed(2) [of 0] placed(2) [of 1] placed(3) len by (simp add: rets_def)
  have n: "n < 2 ^ 32"
    using assms(5) less_le_trans [OF _ power_increasing [of _ 32 "2 :: nat"], of n]
    by (auto simp: flag_ok_def)
  have tail: "?N - 2 = length ?h + length ?b + length ?c" using len sec(2) by simp
  have body: "run P d (?off + (length ?h + length ?b)) (word_of_nat (?m div 32)) (push_bit (?m mod 32) 1) =
      Some (if ?m < n \<and> traced ?m then SECCOMP_RET_TRACE else SECCOMP_RET_ALLOW)"
  proof -
    have "start + length (?h @ ?b) + length ?c \<le> BPF_MAXINSNS"
      using assms(3,4) len sec(2) by simp
    moreover have "length ?h + length ?b + length ?c + 2 \<le> ?N" using len sec(2) by simp
    moreover have "word_upto traced 0 0" by (simp add: word_upto_def)
    moreover have "\<not> 32 * (?m div 32) < n \<Longrightarrow> \<not> ?m < n"
      using times_div_less_eq_dividend [of 32 ?m] by linarith
    ultimately show ?thesis
      using binary_matches_run [OF assms(4) rets n unat_less_32 refl refl c(3), of d]
        rets_run(2) [OF rets] tail len
      by (auto simp: add_ac)
  qed
  have "skips multi arch flag d \<or> flag \<le> ?nr"
    using assms(7) by (auto simp: skips_def)
  then show ?thesis
    using personality_head_run [OF c(1) assms(4) _ assms(6), of x] len sec(2)
      binary_head_run [OF c(2) assms(5) refl, where x = x] body masked_number [OF assms(5), of ?nr]
    by (auto simp: verdict_def Let_def)
qed

lemma binary_sections_run:
  assumes "binary_sections A aud traced ps prog = (prog', False)"
    and "audit_ok A aud d" "set ps \<subseteq> {..<SUPPORTED_PERSONALITIES A}"
    and "1 < SUPPORTED_PERSONALITIES A \<longrightarrow> a = sd_arch d" "length prog + 255 * length ps \<le> 3000"
  shows "(\<exists>sfx. prog' = prog @ sfx) \<and>
    run (prog' @ post) d (length prog) a x =
      (case decide A aud traced SECCOMP_RET_ALLOW ps d of Some v \<Rightarrow> Some v
       | None \<Rightarrow> run (prog' @ post) d (length prog') a x)"
  using assms
proof (induction A aud traced ps prog arbitrary: a rule: binary_sections.induct)
  case (2 A aud traced p ps prog)
  let ?m = "1 < SUPPORTED_PERSONALITIES A"
  let ?bs = "binary_section ?m (fst (aud ! p)) (snd (aud ! p)) (nsyscall_vec A ! p) (\<lambda>i. traced i p)
    (length prog)"
  obtain sec e where sec: "?bs = (sec, e)" by fastforce
  have pos: "\<not> BPF_MAXINSNS < length prog" "length prog \<le> 3000" using "2.prems"(5) by auto
  have short: "\<not> 255 < length sec" and
    rest: "binary_sections A aud traced ps (prog @ fix_section e sec) = (prog', False)"
    using "2.prems"(1) sec pos by (auto split: if_splits)
  have len: "length (fix_section e sec) = length sec" by (simp add: fix_section_def)
  have IH: "(\<exists>sfx. prog' = (prog @ fix_section e sec) @ sfx) \<and>
      run (prog' @ post) d (length prog + length sec) a x =
      (case decide A aud traced SECCOMP_RET_ALLOW ps d of Some v \<Rightarrow> Some v
       | None \<Rightarrow> run (prog' @ post) d (length prog') a x)"
    if "?m \<longrightarrow> a = sd_arch d" for a
    using "2.IH" [OF pos(1) sec [symmetric] short rest, of a] "2.prems" that len short by simp
  obtain sfx where sfx: "prog' @ post = prog @ fix_section e sec @ (sfx @ post)"
    using IH [OF "2.prems"(4)] by auto
  have "flag_ok (snd (aud ! p)) (nsyscall_vec A ! p)" "?m \<or> snd (aud ! p) \<le> sd_nr d"
    using audit_okD [OF "2.prems"(2)] "2.prems"(3) by auto
  note run = binary_section_run [OF sfx sec pos(2) _ this(1) "2.prems"(4) this(2), of x]
  show ?case
    using IH [OF "2.prems"(4)] IH [of "sd_arch d"] run short "2.prems"(4)
    by (auto simp: skips_def)
qed auto

lemma binary_filter_run:
  assumes "binary_match_filter_generator A aud traced = (prog, False)" "audit_ok A aud d"
  shows "run prog d 0 a x = Some (seccomp_spec A aud traced SECCOMP_RET_ALLOW d)"
  using assms(1) unfolding binary_match_filter_generator_def
  by (rule generator_run [OF _ assms(2)])
    (rule binary_sections_run [OF _ assms(2)]; use assms(2) in \<open>simp add: audit_ok_def atLeast0LessThan\<close>)

end

section \<open>Properties\<close>

text \<open>The personality that a call belongs to.\<close>

definition personality_of :: "'a arch_scheme \<Rightarrow> audit_arch list \<Rightarrow> seccomp_data \<Rightarrow> nat option" where
  "personality_of A audit_arch_vec d =
     find (\<lambda>p. \<not> skips (1 < SUPPORTED_PERSONALITIES A) (fst (audit_arch_vec ! p)) (snd (audit_arch_vec ! p)) d)
       (rev [0..<SUPPORTED_PERSONALITIES A])"

definition syscall_nr :: "audit_arch list \<Rightarrow> seccomp_data \<Rightarrow> nat \<Rightarrow> nat" where
  "syscall_nr audit_arch_vec d p = unat (sd_nr d) - unat (snd (audit_arch_vec ! p))"

lemma decide_find:
  "decide A aud traced unknown ps d =
     map_option (\<lambda>p. verdict (\<lambda>i. traced i p) unknown (nsyscall_vec A ! p) (snd (aud ! p)) (sd_nr d))
       (find (\<lambda>p. \<not> skips (1 < SUPPORTED_PERSONALITIES A) (fst (aud ! p)) (snd (aud ! p)) d) ps)"
  by (induction ps) auto

lemma seccomp_spec_eq:
  "seccomp_spec A aud traced unknown d =
     (case personality_of A aud d of
        None \<Rightarrow> SECCOMP_RET_TRACE
      | Some p \<Rightarrow> let s = syscall_nr aud d p
          in if s < nsyscall_vec A ! p then if traced s p then SECCOMP_RET_TRACE else SECCOMP_RET_ALLOW
             else unknown)"
  by (simp add: seccomp_spec_def decide_find personality_of_def verdict_def syscall_nr_def
      split: option.splits)

lemma select_filter_Some:
  assumes "select_filter A aud traced = Some prog"
  shows "linear_filter_generator A aud traced = (prog, False) \<or>
    binary_match_filter_generator A aud traced = (prog, False)"
  using assms by (auto simp: select_filter_def shorter_def split: prod.splits if_splits option.splits)

lemma linear_sections_length:
  "linear_sections A aud traced ps prog = (prog', False) \<Longrightarrow>
     length prog' \<le> length prog + 255 * length ps"
  by (induction A aud traced ps prog rule: linear_sections.induct)
    (fastforce simp: fix_section_def split: prod.splits if_splits)+

lemma binary_sections_length:
  "binary_sections A aud traced ps prog = (prog', False) \<Longrightarrow>
     length prog' \<le> length prog + 255 * length ps"
  by (induction A aud traced ps prog rule: binary_sections.induct)
    (fastforce simp: fix_section_def split: prod.splits if_splits)+

lemma generator_length:
  "linear_filter_generator A aud traced = (prog, False) \<Longrightarrow>
     length prog \<le> 2 + 255 * SUPPORTED_PERSONALITIES A"
  "binary_match_filter_generator A aud traced = (prog, False) \<Longrightarrow>
     length prog \<le> 2 + 255 * SUPPORTED_PERSONALITIES A"
  by (auto simp: linear_filter_generator_def binary_match_filter_generator_def Let_def
      dest!: linear_sections_length binary_sections_length split: prod.splits if_splits)

lemma select_filter_exists:
  assumes "\<not> snd (linear_filter_generator A aud traced)" "SUPPORTED_PERSONALITIES A \<le> 3"
  shows "\<exists>prog. select_filter A aud traced = Some prog"
proof -
  obtain prog where "linear_filter_generator A aud traced = (prog, False)"
    using assms(1) by (metis eq_snd_iff)
  then show ?thesis
    using generator_length(1) [of A aud traced prog] assms(2)
    by (auto simp: select_filter_def shorter_def split: prod.splits)
qed

text \<open>A machine with two personalities of one architecture, told apart by a flag.\<close>

definition small_audit :: "audit_arch list" where
  "small_audit = [(0xC000003E, 0), (0xC000003E, 0x40000000)]"

lemma small_audit_ok: "audit_ok small_arch small_audit d"
proof -
  have "flag_ok 0x40000000 2"
    unfolding flag_ok_def by (intro disjI2 exI [of _ 30]) (simp add: push_bit_eq_mult)
  then show ?thesis
    by (auto simp: audit_ok_def small_audit_def small_arch_def flag_ok_def [of 0] nth_Cons
        split: nat.splits)
qed

definition small_filters :: filters where
  "small_filters = (init_filters small_env)
     \<lparr>trace_set := Some (let s = \<lparr>vec = [2], nslots = 1, ns_not = False\<rparr> in [s, s])\<rparr>"

lemma small_generators:
  "linear_filter_generator small_arch small_audit T =
     (fst (linear_filter_generator small_arch small_audit T), False)"
  "binary_match_filter_generator small_arch small_audit T =
     (fst (binary_match_filter_generator small_arch small_audit T), False)"
  by (rule prod_eqI; simp add: linear_filter_generator_def linear_section_def
      binary_match_filter_generator_def binary_section_def small_arch_def small_audit_def
      upt_rec personality_head_def bpf_syscalls_cmp_def binary_head_def leftover_match_def
      bpf_syscalls_match_def fix_section_def)+

lemma small_selected: "\<exists>prog. select_filter small_arch small_audit T = Some prog"
proof (rule select_filter_exists)
  show "\<not> snd (linear_filter_generator small_arch small_audit T)"
    using small_generators(1) [of T] by (metis snd_conv)
  show "SUPPORTED_PERSONALITIES small_arch \<le> 3" by (simp add: small_arch_def)
qed

lemma small_traced:
  "traced_by_seccomp small_arch small_filters False 1 0"
  "\<not> traced_by_seccomp small_arch small_filters False 0 1"
  by (simp_all add: traced_by_seccomp_def small_arch_def small_filters_def init_filters_def
      is_number_in_set_array_def is_number_in_set_def entry_def ns_test_def number_isset_def Let_def)

lemma small_personality:
  "personality_of small_arch small_audit \<lparr>sd_nr = 1, sd_arch = 0xC000003E\<rparr> = Some 0"
  "personality_of small_arch small_audit \<lparr>sd_nr = 0x40000000, sd_arch = 0xC000003E\<rparr> = Some 1"
  "personality_of small_arch small_audit \<lparr>sd_nr = 0x40000005, sd_arch = 0xC000003E\<rparr> = Some 1"
  by (simp_all add: personality_of_def small_arch_def small_audit_def skips_def upt_rec)

text \<open>C2: Whatever classic BPF machine runs it, the program chosen for the kernel returns, on a
  system call known to its personality, \<^verbatim>\<open>SECCOMP_RET_TRACE\<close> if the filters ask for the call and
  \<^verbatim>\<open>SECCOMP_RET_ALLOW\<close> if they do not.\<close>

theorem seccomp_filter_correct:
  assumes "cbpf run" "audit_ok A aud d"
    and "select_filter A aud (traced_by_seccomp A F stack) = Some prog"
    and "personality_of A aud d = Some p" "syscall_nr aud d p < nsyscall_vec A ! p"
  shows "run prog d 0 a x = Some (if traced_by_seccomp A F stack (syscall_nr aud d p) p
    then SECCOMP_RET_TRACE else SECCOMP_RET_ALLOW)"
  using select_filter_Some [OF assms(3)] cbpf.linear_filter_run [OF assms(1) _ assms(2)]
    cbpf.binary_filter_run [OF assms(1) _ assms(2)] assms(4,5)
  by (auto simp: seccomp_spec_eq)

theorem seccomp_filter_correct_witness:
  "\<exists>prog. select_filter small_arch small_audit
       (traced_by_seccomp small_arch small_filters False) = Some prog \<and>
     bpf_run prog \<lparr>sd_nr = 1, sd_arch = 0xC000003E\<rparr> 0 0 0 = Some SECCOMP_RET_TRACE \<and>
     bpf_run prog \<lparr>sd_nr = 0x40000000, sd_arch = 0xC000003E\<rparr> 0 0 0 = Some SECCOMP_RET_ALLOW"
proof -
  let ?T = "traced_by_seccomp small_arch small_filters False"
  obtain prog where prog: "select_filter small_arch small_audit ?T = Some prog"
    using small_selected by blast
  note correct = seccomp_filter_correct [OF bpf.cbpf_axioms small_audit_ok prog]
  show ?thesis
    using prog correct [OF small_personality(1)] correct [OF small_personality(2)] small_traced
    by (simp add: syscall_nr_def small_audit_def) (simp add: small_arch_def)
qed

text \<open>C24: When neither generator overflows, the two programs agree on every call of a known number
  and on every call of no personality.\<close>

theorem seccomp_generators_agree:
  assumes "cbpf run" "audit_ok A aud d"
    and "linear_filter_generator A aud traced = (lin, False)"
    and "binary_match_filter_generator A aud traced = (bin, False)"
    and "\<forall>p. personality_of A aud d = Some p \<longrightarrow> syscall_nr aud d p < nsyscall_vec A ! p"
  shows "run lin d 0 a x = run bin d 0 a' x'"
  using cbpf.linear_filter_run [OF assms(1,3,2)] cbpf.binary_filter_run [OF assms(1,4,2)] assms(5)
  by (auto simp: seccomp_spec_eq split: option.splits)

theorem seccomp_generators_agree_witness:
  "let T = \<lambda>scno p. scno = (1 :: nat); d = \<lparr>sd_nr = 1, sd_arch = 0xC000003E\<rparr>
   in bpf_run (fst (linear_filter_generator small_arch small_audit T)) d 0 0 0 =
      bpf_run (fst (binary_match_filter_generator small_arch small_audit T)) d 0 0 0"
  unfolding Let_def
  using small_personality(1)
  by (intro seccomp_generators_agree [OF bpf.cbpf_axioms small_audit_ok small_generators])
    (auto simp: syscall_nr_def small_audit_def small_arch_def)

text \<open>C39: On a number beyond the table of its personality the two programs differ: the linear one
  traces it, as its comments say, the other lets it pass.\<close>

theorem seccomp_generators_differ:
  assumes "cbpf run" "audit_ok A aud d"
    and "linear_filter_generator A aud traced = (lin, False)"
    and "binary_match_filter_generator A aud traced = (bin, False)"
    and "personality_of A aud d = Some p" "nsyscall_vec A ! p \<le> syscall_nr aud d p"
  shows "run lin d 0 a x = Some SECCOMP_RET_TRACE \<and> run bin d 0 a x = Some SECCOMP_RET_ALLOW"
  using cbpf.linear_filter_run [OF assms(1,3,2)] cbpf.binary_filter_run [OF assms(1,4,2)] assms(5,6)
  by (simp add: seccomp_spec_eq)

theorem seccomp_generators_differ_witness:
  "let T = \<lambda>scno p. True; d = \<lparr>sd_nr = 0x40000005, sd_arch = 0xC000003E\<rparr>
   in bpf_run (fst (linear_filter_generator small_arch small_audit T)) d 0 0 0 =
        Some SECCOMP_RET_TRACE \<and>
      bpf_run (fst (binary_match_filter_generator small_arch small_audit T)) d 0 0 0 =
        Some SECCOMP_RET_ALLOW"
  unfolding Let_def
  using small_personality(3)
  by (intro seccomp_generators_differ [OF bpf.cbpf_axioms small_audit_ok small_generators, where p = 1])
    (auto simp: syscall_nr_def small_audit_def small_arch_def)

text \<open>C31: The program chosen has at most 767 instructions, so it is never refused for its size.\<close>

theorem seccomp_filter_fits:
  assumes "select_filter A aud traced = Some prog" "SUPPORTED_PERSONALITIES A \<le> 3"
  shows "length prog \<le> 767 \<and> check_seccomp_filter_properties A aud traced True = (Some prog, True)"
  using select_filter_Some [OF assms(1)] generator_length [of A aud traced prog] assms
  by (auto simp: check_seccomp_filter_properties_def)

theorem seccomp_filter_fits_witness:
  "\<exists>prog. check_seccomp_filter_properties small_arch small_audit (\<lambda>scno p. True) True = (Some prog, True)"
proof -
  let ?T = "\<lambda>scno p. True"
  have np: "SUPPORTED_PERSONALITIES small_arch \<le> 3" by (simp add: small_arch_def)
  obtain prog where "select_filter small_arch small_audit ?T = Some prog"
    using small_selected by blast
  from seccomp_filter_fits [OF this np] show ?thesis by blast
qed

end
