(* ===== verification/Wait_Status.thy ===== *)
theory Wait_Status
  imports Prelude
begin

text \<open>
  The status word of \<^verbatim>\<open>waitpid\<close> and \<^verbatim>\<open>wait4\<close> and the macros that read it, shared by
  \<^verbatim>\<open>src/src/filter_seccomp.c\<close> and \<^verbatim>\<open>src/src/strace.c\<close>.
\<close>

unbundle bit_operations_syntax

definition WTERMSIG :: "u32 \<Rightarrow> u32" where "WTERMSIG status = status AND 0x7f"
definition WIFEXITED :: "u32 \<Rightarrow> bool" where "WIFEXITED status \<longleftrightarrow> WTERMSIG status = 0"
definition WEXITSTATUS :: "u32 \<Rightarrow> u32" where "WEXITSTATUS status = drop_bit 8 (status AND 0xff00)"
definition WIFSTOPPED :: "u32 \<Rightarrow> bool" where "WIFSTOPPED status \<longleftrightarrow> status AND 0xff = 0x7f"
definition WSTOPSIG :: "u32 \<Rightarrow> u32" where "WSTOPSIG status = WEXITSTATUS status"
definition WIFSIGNALED :: "u32 \<Rightarrow> bool" where
  "WIFSIGNALED status \<longleftrightarrow> WTERMSIG status \<noteq> 0 \<and> WTERMSIG status \<noteq> 0x7f"
definition status_event :: "u32 \<Rightarrow> u32" where "status_event status = drop_bit 16 status"

lemmas wait_defs =
  WTERMSIG_def WIFEXITED_def WEXITSTATUS_def WIFSTOPPED_def WSTOPSIG_def WIFSIGNALED_def
  status_event_def

abbreviation SIGKILL :: u32 where "SIGKILL \<equiv> 9"
abbreviation SIGTRAP :: u32 where "SIGTRAP \<equiv> 5"
abbreviation SIGSTOP :: u32 where "SIGSTOP \<equiv> 19"
abbreviation syscall_trap_sig :: u32 where "syscall_trap_sig \<equiv> SIGTRAP OR 0x80"

abbreviation PTRACE_EVENT_FORK :: u32 where "PTRACE_EVENT_FORK \<equiv> 1"
abbreviation PTRACE_EVENT_VFORK :: u32 where "PTRACE_EVENT_VFORK \<equiv> 2"
abbreviation PTRACE_EVENT_CLONE :: u32 where "PTRACE_EVENT_CLONE \<equiv> 3"
abbreviation PTRACE_EVENT_EXEC :: u32 where "PTRACE_EVENT_EXEC \<equiv> 4"
abbreviation PTRACE_EVENT_VFORK_DONE :: u32 where "PTRACE_EVENT_VFORK_DONE \<equiv> 5"
abbreviation PTRACE_EVENT_EXIT :: u32 where "PTRACE_EVENT_EXIT \<equiv> 6"
abbreviation PTRACE_EVENT_SECCOMP :: u32 where "PTRACE_EVENT_SECCOMP \<equiv> 7"
abbreviation PTRACE_EVENT_STOP :: u32 where "PTRACE_EVENT_STOP \<equiv> 128"

text \<open>The three kinds of status exclude each other.\<close>

lemma status_kinds:
  "WIFEXITED status \<Longrightarrow> \<not> WIFSIGNALED status"
  "WIFEXITED status \<Longrightarrow> \<not> WIFSTOPPED status"
  "WIFSIGNALED status \<Longrightarrow> \<not> WIFSTOPPED status"
proof -
  have 7: "status AND 0x7f = (status AND 0xff) AND 0x7f"
    by (simp add: and.assoc)
  show "WIFEXITED status \<Longrightarrow> \<not> WIFSIGNALED status" by (simp add: wait_defs)
  show "WIFEXITED status \<Longrightarrow> \<not> WIFSTOPPED status" using 7 by (auto simp: wait_defs)
  show "WIFSIGNALED status \<Longrightarrow> \<not> WIFSTOPPED status" using 7 by (auto simp: wait_defs)
qed

end
