(* ===== verification/Seccomp_Setup.thy ===== *)
theory Seccomp_Setup
  imports Seccomp_Filter Wait_Status
begin

text \<open>
  The rest of \<^verbatim>\<open>src/src/filter_seccomp.c\<close>: whether filtering is used at all, the test that finds
  out in which order the kernel reports seccomp and system call stops, the restart operator, and
  the dump of a program. Answers of the kernel (\<^verbatim>\<open>waitpid\<close>, \<^verbatim>\<open>ptrace\<close>, \<^verbatim>\<open>prctl\<close>, \<^verbatim>\<open>fork\<close>) are arguments.
\<close>

section \<open>Order of the stops\<close>

record seccomp_state =
  seccomp_filtering :: bool
  seccomp_before_sysentry :: bool

datatype wait_answer = Wait_EINTR | Wait_Error | Wait_Status u32

text \<open>The program of the child: stop in \<^verbatim>\<open>gettid\<close>, number \<open>gettid\<close>, only.\<close>

definition check_seccomp_order_child_filter :: "u32 \<Rightarrow> sock_filter list" where
  "check_seccomp_order_child_filter gettid =
     [SET_BPF_STMT BPF_LD_W_ABS OFF_NR,
      SET_BPF_JUMP BPF_JEQ gettid 0 1,
      SET_BPF_STMT BPF_RET_K SECCOMP_RET_TRACE,
      SET_BPF_STMT BPF_RET_K SECCOMP_RET_ALLOW]"

text \<open>A stop of the child at a step: the state after it, and whether the test goes on.\<close>

definition check_seccomp_order_stop ::
    "bool \<Rightarrow> nat \<Rightarrow> u32 \<Rightarrow> seccomp_state \<Rightarrow> seccomp_state \<times> bool" where
  "check_seccomp_order_stop setoptions_ok n status st =
     (let sig = WSTOPSIG status; event = status_event status
      in if sig = SIGSTOP then (st, n = 0 \<and> setoptions_ok)
         else if sig = SIGTRAP then
           if event \<noteq> PTRACE_EVENT_SECCOMP then (st, False)
           else if n = 1 then (st\<lparr>seccomp_before_sysentry := True\<rparr>, True)
           else (st, n = 2 \<and> \<not> seccomp_before_sysentry st)
         else if sig = SIGTRAP OR 0x80 then
           if n = 3 \<or> n = 4 then (st, True)
           else if n = 1 then (st\<lparr>seccomp_before_sysentry := False\<rparr>, True)
           else (st, n = 2 \<and> seccomp_before_sysentry st)
         else (st, False))"

text \<open>
  The loop, over the answers of \<^verbatim>\<open>waitpid\<close>: the state when it ends and whether the child is still
  there; \<open>None\<close> while it waits for an answer.
\<close>

fun check_seccomp_order_tracer ::
    "bool \<Rightarrow> (nat \<Rightarrow> bool) \<Rightarrow> nat \<Rightarrow> seccomp_state \<Rightarrow> wait_answer list \<Rightarrow> (seccomp_state \<times> bool) option" where
  "check_seccomp_order_tracer setoptions_ok restart_ok n st [] = None"
| "check_seccomp_order_tracer setoptions_ok restart_ok n st (Wait_EINTR # ws) =
     check_seccomp_order_tracer setoptions_ok restart_ok n st ws"
| "check_seccomp_order_tracer setoptions_ok restart_ok n st (Wait_Error # ws) = Some (st, True)"
| "check_seccomp_order_tracer setoptions_ok restart_ok n st (Wait_Status status # ws) =
     (if WIFEXITED status then
        Some (if n = 5 \<and> WEXITSTATUS status = 0 then st\<lparr>seccomp_filtering := True\<rparr> else st, False)
      else if WIFSIGNALED status then Some (st, False)
      else if \<not> WIFSTOPPED status then Some (st, True)
      else case check_seccomp_order_stop setoptions_ok n status st of (st, go) \<Rightarrow>
        if \<not> go \<or> \<not> restart_ok n then Some (st, True)
        else check_seccomp_order_tracer setoptions_ok restart_ok (Suc n) st ws)"

definition check_seccomp_order ::
    "bool \<Rightarrow> bool \<Rightarrow> (nat \<Rightarrow> bool) \<Rightarrow> seccomp_state \<Rightarrow> wait_answer list \<Rightarrow> (seccomp_state \<times> bool) option" where
  "check_seccomp_order fork_ok setoptions_ok restart_ok st ws =
     (let st = st\<lparr>seccomp_filtering := False\<rparr>
      in if \<not> fork_ok then Some (st, False)
         else check_seccomp_order_tracer setoptions_ok restart_ok 0 st ws)"

section \<open>Use of the filter\<close>

text \<open>
  \<^verbatim>\<open>check_seccomp_filter\<close>: \<open>order\<close> is the outcome of \<^verbatim>\<open>check_seccomp_order\<close>, called when there is a
  program.
\<close>

definition check_seccomp_filter ::
    "'a arch_scheme \<Rightarrow> audit_arch list \<Rightarrow> filters \<Rightarrow> bool \<Rightarrow> bool \<Rightarrow> bool \<Rightarrow> sock_filter list option \<times> bool" where
  "check_seccomp_filter A audit_arch_vec F stack_trace_mode supported order =
     (if (case trace_set F of None \<Rightarrow> False
          | Some ns \<Rightarrow> is_complete_set_array ns (nsyscall_vec A) (SUPPORTED_PERSONALITIES A))
      then (None, False)
      else case check_seccomp_filter_properties A audit_arch_vec
             (traced_by_seccomp A F stack_trace_mode) supported of
             (prog, filtering) \<Rightarrow> (prog, filtering \<and> order))"

datatype restart_operator = PTRACE_SYSCALL | PTRACE_CONT | PTRACE_LISTEN | PTRACE_DETACH

definition seccomp_filter_restart_operator ::
    "'a arch_scheme \<Rightarrow> filters \<Rightarrow> bool \<Rightarrow> nat \<Rightarrow> bool \<Rightarrow> nat \<Rightarrow> restart_operator" where
  "seccomp_filter_restart_operator A F stack_trace_mode current_personality exiting scno =
     (if exiting \<and> scno < nsyscall_vec A ! current_personality \<and>
         traced_by_seccomp A F stack_trace_mode scno current_personality
      then PTRACE_SYSCALL else PTRACE_CONT)"

text \<open>
  \<^verbatim>\<open>init_seccomp_filter\<close>, in the child: the arguments are the results of the \<^verbatim>\<open>prctl\<close> calls, the error
  of the first being \<^verbatim>\<open>EACCES\<close> or not.
\<close>

datatype prctl_answer = Prctl_Ok | Prctl_EACCES | Prctl_Error

definition init_seccomp_filter :: "prctl_answer \<Rightarrow> bool \<Rightarrow> bool \<Rightarrow> die + unit" where
  "init_seccomp_filter set1 no_new_privs set2 =
     (case set1 of
        Prctl_Ok \<Rightarrow> Inr ()
      | Prctl_EACCES \<Rightarrow>
          if \<not> no_new_privs then Inl (Die ''init_seccomp_filter: prctl(PR_SET_NO_NEW_PRIVS)'')
          else if set2 then Inr ()
          else Inl (Die ''init_seccomp_filter: prctl(PR_SET_SECCOMP, SECCOMP_MODE_FILTER)'')
      | Prctl_Error \<Rightarrow> Inl (Die ''init_seccomp_filter: prctl(PR_SET_SECCOMP, SECCOMP_MODE_FILTER)''))"

definition dump_insn :: "sock_filter \<Rightarrow> string" where
  "dump_insn f =
     (let u = dec_string; x = (\<lambda>w. ''0x'' @ hex_string (unat (w :: u32)));
          jump = (\<lambda>op k. ''JUMP('' @ op @ '', '' @ u (jt f) @ '', '' @ u (jf f) @ '', '' @ k @ '')'')
      in if bcode f = BPF_LD_W_ABS then
           (if bk f = OFF_ARCH then ''STMT(BPF_LDWABS, data->arch)''
            else if bk f = OFF_NR then ''STMT(BPF_LDWABS, data->nr)''
            else ''STMT(BPF_LDWABS, '' @ x (bk f) @ '')'')
         else if bcode f = BPF_LD_IMM then ''STMT(BPF_LDWIMM, '' @ x (bk f) @ '')''
         else if bcode f = BPF_RET_K then
           (if bk f = SECCOMP_RET_TRACE then ''STMT(BPF_RET, SECCOMP_RET_TRACE)''
            else if bk f = SECCOMP_RET_ALLOW then ''STMT(BPF_RET, SECCOMP_RET_ALLOW)''
            else ''STMT(BPF_RET, '' @ x (bk f) @ '')'')
         else if bcode f = BPF_JMP OR BPF_JEQ then jump ''BPF_JEQ'' (u (unat (bk f)))
         else if bcode f = BPF_JMP OR BPF_JGE then jump ''BPF_JGE'' (u (unat (bk f)))
         else if bcode f = BPF_JMP OR BPF_JSET then jump ''BPF_JSET'' (x (bk f))
         else if bcode f = BPF_JMP OR BPF_JA then ''JUMP(BPF_JA, '' @ u (unat (bk f)) @ '')''
         else if bcode f = BPF_ALU_RSH_K then ''STMT(BPF_RSH, '' @ u (unat (bk f)) @ '')''
         else if bcode f = BPF_ALU_LSH_X then ''STMT(BPF_LSH, X)''
         else if bcode f = BPF_ALU_AND_K then ''STMT(BPF_AND, '' @ x (bk f) @ '')''
         else if bcode f = BPF_MISC_TAX then ''STMT(BPF_TAX)''
         else if bcode f = BPF_MISC_TXA then ''STMT(BPF_TXA)''
         else ''STMT(0x'' @ hex_string (unat (bcode f)) @ '', '' @ u (jt f) @ '', '' @ u (jf f) @ '', '' @
              x (bk f) @ '')'')"

definition dump_seccomp_bpf :: "sock_filter list \<Rightarrow> string list" where
  "dump_seccomp_bpf prog = map dump_insn prog"

section \<open>Properties\<close>

text \<open>The stops that the test expects, when seccomp stops come first (\<open>b\<close>) and when they do not.\<close>

definition stop_by :: "u32 \<Rightarrow> u32 \<Rightarrow> bool" where
  "stop_by sig status \<longleftrightarrow> WIFSTOPPED status \<and> WSTOPSIG status = sig"

definition seccomp_stop :: "u32 \<Rightarrow> bool" where
  "seccomp_stop status \<longleftrightarrow> stop_by SIGTRAP status \<and> status_event status = PTRACE_EVENT_SECCOMP"

definition expected_stops :: "bool \<Rightarrow> (u32 \<Rightarrow> bool) list" where
  "expected_stops b =
     [stop_by SIGSTOP, if b then seccomp_stop else stop_by syscall_trap_sig,
      if b then stop_by syscall_trap_sig else seccomp_stop,
      stop_by syscall_trap_sig, stop_by syscall_trap_sig,
      (\<lambda>status. WIFEXITED status \<and> WEXITSTATUS status = 0)]"

fun follows :: "(u32 \<Rightarrow> bool) list \<Rightarrow> wait_answer list \<Rightarrow> bool" where
  "follows [] ws = True"
| "follows (p # ps) [] = False"
| "follows (p # ps) (Wait_EINTR # ws) = follows (p # ps) ws"
| "follows (p # ps) (Wait_Error # ws) = False"
| "follows (p # ps) (Wait_Status status # ws) \<longleftrightarrow> p status \<and> follows ps ws"

lemma check_seccomp_order_stop_go:
  assumes "WIFSTOPPED status"
  shows "snd (check_seccomp_order_stop True n status st) \<longleftrightarrow>
    n = 0 \<and> stop_by SIGSTOP status \<or> n = 1 \<and> (seccomp_stop status \<or> stop_by syscall_trap_sig status) \<or>
    n = 2 \<and> (if seccomp_before_sysentry st then stop_by syscall_trap_sig status else seccomp_stop status) \<or>
    (n = 3 \<or> n = 4) \<and> stop_by syscall_trap_sig status"
  using assms
  by (auto simp: check_seccomp_order_stop_def Let_def stop_by_def seccomp_stop_def)

lemma check_seccomp_order_stop_state:
  assumes "WIFSTOPPED status"
  shows "fst (check_seccomp_order_stop True n status st) =
    (if n = 1 \<and> seccomp_stop status then st\<lparr>seccomp_before_sysentry := True\<rparr>
     else if n = 1 \<and> stop_by syscall_trap_sig status then st\<lparr>seccomp_before_sysentry := False\<rparr> else st)"
  using assms
  by (auto simp: check_seccomp_order_stop_def Let_def stop_by_def seccomp_stop_def)

definition detects :: "bool \<Rightarrow> (seccomp_state \<times> bool) option \<Rightarrow> bool" where
  "detects b r \<longleftrightarrow> (case r of None \<Rightarrow> False
     | Some (st, alive) \<Rightarrow> seccomp_filtering st \<and> seccomp_before_sysentry st = b)"

lemma drop_expected:
  "n < 6 \<Longrightarrow> drop n (expected_stops b) = expected_stops b ! n # drop (Suc n) (expected_stops b)"
  by (rule Cons_nth_drop_Suc [symmetric]) (simp add: expected_stops_def)

lemma stop_excludes:
  "stop_by sig status \<Longrightarrow> \<not> WIFEXITED status" "seccomp_stop status \<Longrightarrow> \<not> WIFEXITED status"
  "stop_by sig status \<Longrightarrow> \<not> WIFSIGNALED status" "seccomp_stop status \<Longrightarrow> \<not> WIFSIGNALED status"
  "stop_by sig status \<Longrightarrow> WIFSTOPPED status" "seccomp_stop status \<Longrightarrow> WIFSTOPPED status"
  "seccomp_stop status \<Longrightarrow> \<not> stop_by syscall_trap_sig status"
  using status_kinds [of status] by (auto simp: stop_by_def seccomp_stop_def)

lemma step_cases:
  assumes "n < (6 :: nat)"
  obtains "n = 0" | "n = 1" | "n = 2" | "n = 3" | "n = 4" | "n = 5"
  using assms by linarith

lemma order_step:
  assumes "WIFSTOPPED status"
  shows "snd (check_seccomp_order_stop True n status st) \<and> Suc n < 6 \<and>
      (2 \<le> Suc n \<longrightarrow> seccomp_before_sysentry (fst (check_seccomp_order_stop True n status st)) = b) \<longleftrightarrow>
    n < 6 \<and> (2 \<le> n \<longrightarrow> seccomp_before_sysentry st = b) \<and> (expected_stops b ! n) status"
proof (cases "n < 6")
  case True
  then show ?thesis
    unfolding check_seccomp_order_stop_go [OF assms] check_seccomp_order_stop_state [OF assms]
    using status_kinds [of status] assms stop_excludes(7) [of status]
    by (elim step_cases) (auto simp: expected_stops_def)
next
  case False
  then show ?thesis by simp
qed

lemma order_exit:
  assumes "\<not> WIFSTOPPED status" "n < 6"
  shows "(expected_stops b ! n) status \<longleftrightarrow> n = 5 \<and> WIFEXITED status \<and> WEXITSTATUS status = 0"
  using assms(2,1)
  by (elim step_cases) (auto simp: expected_stops_def stop_by_def seccomp_stop_def)

lemma tracer_detects_iff:
  assumes "\<not> seccomp_filtering st"
  shows "detects b (check_seccomp_order_tracer True (\<lambda>n. True) n st ws) \<longleftrightarrow>
    n < 6 \<and> (2 \<le> n \<longrightarrow> seccomp_before_sysentry st = b) \<and> follows (drop n (expected_stops b)) ws"
  using assms
proof (induction ws arbitrary: n st)
  case Nil
  show ?case by (cases "n < 6") (simp_all add: detects_def drop_expected)
next
  case (Cons w ws)
  show ?case
  proof (cases w)
    case Wait_EINTR
    then show ?thesis using Cons by (cases "n < 6") (simp_all add: drop_expected)
  next
    case Wait_Error
    then show ?thesis using Cons.prems by (cases "n < 6") (simp_all add: detects_def drop_expected)
  next
    case (Wait_Status status)
    show ?thesis
    proof (cases "WIFSTOPPED status")
      case True
      then have not: "\<not> WIFEXITED status" "\<not> WIFSIGNALED status" using status_kinds by auto
      let ?st = "fst (check_seccomp_order_stop True n status st)"
      let ?go = "snd (check_seccomp_order_stop True n status st)"
      have "\<not> seccomp_filtering ?st"
        using Cons.prems by (simp add: check_seccomp_order_stop_state [OF True])
      then have "detects b (check_seccomp_order_tracer True (\<lambda>n. True) n st (w # ws)) \<longleftrightarrow>
          (?go \<and> Suc n < 6 \<and> (2 \<le> Suc n \<longrightarrow> seccomp_before_sysentry ?st = b)) \<and>
          follows (drop (Suc n) (expected_stops b)) ws"
        using Cons.IH [of ?st "Suc n"] not True
        by (auto simp: Wait_Status case_prod_unfold detects_def split: if_splits)
      also have "\<dots> \<longleftrightarrow> (n < 6 \<and> (2 \<le> n \<longrightarrow> seccomp_before_sysentry st = b) \<and> (expected_stops b ! n) status) \<and>
          follows (drop (Suc n) (expected_stops b)) ws"
        unfolding order_step [OF True] ..
      finally show ?thesis
        by (cases "n < 6") (auto simp: Wait_Status drop_expected)
    next
      case False
      have fin: "follows (drop (Suc 5) (expected_stops b)) ws" by (simp add: expected_stops_def)
      show ?thesis
      proof (cases "n < 6")
        case n: True
        then show ?thesis
          using Cons.prems False fin unfolding Wait_Status drop_expected [OF n] follows.simps
            order_exit [OF False n]
          by (auto simp: detects_def)
      qed (use Cons.prems False in \<open>auto simp: Wait_Status detects_def\<close>)
    qed
  qed
qed

text \<open>C32: The test of the order of the stops turns filtering on exactly when the child's stops were
  the six it expects, with either the seccomp stop or the system call stop of \<^verbatim>\<open>gettid\<close> first, and
  then \<^verbatim>\<open>seccomp_before_sysentry\<close> says which.\<close>

theorem seccomp_order_detected:
  "(\<exists>st' alive. check_seccomp_order True True (\<lambda>n. True) st ws = Some (st', alive) \<and>
      seccomp_filtering st' \<and> seccomp_before_sysentry st' = b) \<longleftrightarrow> follows (expected_stops b) ws"
  using tracer_detects_iff [of "st\<lparr>seccomp_filtering := False\<rparr>" b 0 ws]
  by (auto simp: check_seccomp_order_def detects_def split: option.splits)

text \<open>C25: A call is restarted for a stop at its exit exactly when the chosen program makes it stop at
  its entry.\<close>

theorem seccomp_restart_matches_filter:
  assumes "cbpf run" "audit_ok A aud d"
    and "check_seccomp_filter A aud F stack supported order = (Some prog, True)"
    and "personality_of A aud d = Some p" "syscall_nr aud d p < nsyscall_vec A ! p"
  shows "seccomp_filter_restart_operator A F stack p exiting (syscall_nr aud d p) =
    (if exiting \<and> run prog d 0 a x = Some SECCOMP_RET_TRACE then PTRACE_SYSCALL else PTRACE_CONT)"
proof -
  have "select_filter A aud (traced_by_seccomp A F stack) = Some prog"
    using assms(3)
    by (auto simp: check_seccomp_filter_def check_seccomp_filter_properties_def
        split: if_splits option.splits)
  from select_filter_Some [OF this] show ?thesis
    using cbpf.linear_filter_run [OF assms(1) _ assms(2)] cbpf.binary_filter_run [OF assms(1) _ assms(2)]
      assms(4,5)
    by (auto simp: seccomp_filter_restart_operator_def seccomp_spec_eq)
qed

theorem seccomp_restart_matches_filter_witness:
  "\<exists>prog. check_seccomp_filter small_arch small_audit small_filters False True True = (Some prog, True) \<and>
     seccomp_filter_restart_operator small_arch small_filters False 0 True 1 = PTRACE_SYSCALL \<and>
     bpf_run prog \<lparr>sd_nr = 1, sd_arch = 0xC000003E\<rparr> 0 0 0 = Some SECCOMP_RET_TRACE"
proof -
  let ?T = "traced_by_seccomp small_arch small_filters False"
  obtain prog where "select_filter small_arch small_audit ?T = Some prog"
    using small_selected by blast
  then have "check_seccomp_filter_properties small_arch small_audit ?T True = (Some prog, True)"
    using select_filter_Some generator_length [of small_arch small_audit ?T prog]
    by (fastforce simp: check_seccomp_filter_properties_def small_arch_def)
  then have c: "check_seccomp_filter small_arch small_audit small_filters False True True = (Some prog, True)"
    by (simp add: check_seccomp_filter_def small_filters_def is_complete_set_array_def
        is_complete_set_def get_number_setbit_def small_arch_def upt_rec Let_def)
  have op: "seccomp_filter_restart_operator small_arch small_filters False 0 True 1 = PTRACE_SYSCALL"
    using small_traced(1) by (simp add: seccomp_filter_restart_operator_def) (simp add: small_arch_def)
  have nr: "syscall_nr small_audit \<lparr>sd_nr = 1, sd_arch = 0xC000003E\<rparr> 0 = 1"
    by (simp add: syscall_nr_def small_audit_def)
  show ?thesis
    using c op seccomp_restart_matches_filter [OF bpf.cbpf_axioms small_audit_ok c small_personality(1),
        of True 0 0] unfolding nr
    by (auto simp: small_arch_def split: if_splits)
qed

end
