(* ===== verification/String_Quote.thy ===== *)
theory String_Quote
  imports C_String
begin

text \<open>
  The quoting of strings: \<^verbatim>\<open>src/src/print_utils.h\<close> and \<^verbatim>\<open>string_quote\<close> and its callers of
  \<^verbatim>\<open>src/src/util.c\<close>. Bytes are characters of HOL (eight bits); the output buffer is the list of
  the bytes written, without the terminating zero.
\<close>

section \<open>Bytes\<close>

definition hex_char :: "nat \<Rightarrow> char" where
  "hex_char d = ''0123456789abcdef'' ! d"

definition is_print :: "char \<Rightarrow> bool" where
  "is_print c \<longleftrightarrow> 32 \<le> ord c \<and> ord c < 127"

definition sprint_byte_oct :: "char \<Rightarrow> bool \<Rightarrow> string" where
  "sprint_byte_oct c unabbrev =
     (let n = ord c
      in (if unabbrev then [char_of (48 + n div 64), char_of (48 + n div 8 mod 8)]
          else if n div 8 \<noteq> 0 then
            (if n div 64 \<noteq> 0 then [char_of (48 + n div 64)] else []) @ [char_of (48 + n div 8 mod 8)]
          else []) @
         [char_of (48 + n mod 8)])"

definition sprint_byte_hex :: "char \<Rightarrow> string" where
  "sprint_byte_hex c = [hex_char (ord c div 16), hex_char (ord c mod 16)]"

definition sprint_char :: "char \<Rightarrow> bool \<Rightarrow> bool \<Rightarrow> string" where
  "sprint_char c quotes esc_ws =
     (if quotes then [CHR 0x27] else []) @
     (if is_print c then (if c = CHR 0x27 \<or> c = CHR 0x5c then [CHR 0x5c] else []) @ [c]
      else if esc_ws \<and> 9 \<le> ord c \<and> ord c \<le> 13 then [CHR 0x5c, ''tnvfr'' ! (ord c - 9)]
      else CHR 0x5c # CHR ''x'' # sprint_byte_hex c) @
     (if quotes then [CHR 0x27] else [])"

section \<open>Quoting\<close>

datatype xflag_opts = HEXSTR_NONE | HEXSTR_NON_ASCII | HEXSTR_ALL | HEXSTR_NON_ASCII_CHARS

abbreviation QUOTE_0_TERMINATED :: u32 where "QUOTE_0_TERMINATED \<equiv> 0x01"
abbreviation QUOTE_OMIT_LEADING_TRAILING_QUOTES :: u32 where
  "QUOTE_OMIT_LEADING_TRAILING_QUOTES \<equiv> 0x02"
abbreviation QUOTE_OMIT_TRAILING_0 :: u32 where "QUOTE_OMIT_TRAILING_0 \<equiv> 0x08"
abbreviation QUOTE_EXPECT_TRAILING_0 :: u32 where "QUOTE_EXPECT_TRAILING_0 \<equiv> 0x10"
abbreviation QUOTE_EMIT_COMMENT :: u32 where "QUOTE_EMIT_COMMENT \<equiv> 0x40"
abbreviation QUOTE_OVERWRITE_HEXSTR :: u32 where "QUOTE_OVERWRITE_HEXSTR \<equiv> 0x80"
abbreviation QUOTE_HEXSTR_MASK :: u32 where "QUOTE_HEXSTR_MASK \<equiv> 0x300"

definition xstyle_of :: "u32 \<Rightarrow> xflag_opts \<Rightarrow> xflag_opts" where
  "xstyle_of style xflag =
     (if style AND QUOTE_OVERWRITE_HEXSTR \<noteq> 0
      then [HEXSTR_NONE, HEXSTR_NON_ASCII, HEXSTR_ALL, HEXSTR_NON_ASCII_CHARS] !
             unat (drop_bit 8 (style AND QUOTE_HEXSTR_MASK))
      else xflag)"

text \<open>The search for a byte that makes the whole string hexadecimal.\<close>

fun scan_usehex :: "nat \<Rightarrow> string \<Rightarrow> bool" where
  "scan_usehex eol [] = False"
| "scan_usehex eol (c # cs) =
     (if ord c = eol then False
      else if ord c > 0x7e then True
      else if ord c < 32 \<and> \<not> (9 \<le> ord c \<and> ord c < 14) then True
      else scan_usehex eol cs)"

text \<open>The two loops: the text, and whether they jump to \<^verbatim>\<open>asciz_ended\<close>.\<close>

fun quote_hex :: "nat \<Rightarrow> string \<Rightarrow> string \<times> bool" where
  "quote_hex eol [] = ([], False)"
| "quote_hex eol (c # cs) =
     (if ord c = eol then ([], True)
      else case quote_hex eol cs of (s, ended) \<Rightarrow>
        (CHR 0x5c # CHR ''x'' # sprint_byte_hex c @ s, ended))"

definition quote_char :: "xflag_opts \<Rightarrow> string option \<Rightarrow> char \<Rightarrow> string \<Rightarrow> string" where
  "quote_char xstyle escape_chars c follow =
     (if c = CHR 0x22 \<or> c = CHR 0x5c then [CHR 0x5c, c]
      else if ord c = 12 then [CHR 0x5c, CHR ''f'']
      else if ord c = 10 then [CHR 0x5c, CHR ''n'']
      else if ord c = 13 then [CHR 0x5c, CHR ''r'']
      else if ord c = 9 then [CHR 0x5c, CHR ''t'']
      else if ord c = 11 then [CHR 0x5c, CHR ''v'']
      else if is_print c \<and> (case escape_chars of None \<Rightarrow> True | Some e \<Rightarrow> c \<notin> set e) then [c]
      else if xstyle = HEXSTR_NON_ASCII_CHARS then CHR 0x5c # CHR ''x'' # sprint_byte_hex c
      else CHR 0x5c # sprint_byte_oct c
             (case follow of [] \<Rightarrow> False | d # _ \<Rightarrow> 48 \<le> ord d \<and> ord d \<le> 55))"

fun quote_chars :: "xflag_opts \<Rightarrow> string option \<Rightarrow> bool \<Rightarrow> nat \<Rightarrow> string \<Rightarrow> string \<times> bool" where
  "quote_chars xstyle escape_chars omit0 eol [] = ([], False)"
| "quote_chars xstyle escape_chars omit0 eol (c # cs) =
     (if ord c = eol then ([], True)
      else if cs = [] \<and> omit0 \<and> ord c = 0 then ([], True)
      else case quote_chars xstyle escape_chars omit0 eol cs of (s, ended) \<Rightarrow>
        (quote_char xstyle escape_chars c cs @ s, ended))"

definition quote_body :: "string \<Rightarrow> nat \<Rightarrow> u32 \<Rightarrow> string option \<Rightarrow> xflag_opts \<Rightarrow> string \<times> bool" where
  "quote_body instr sz style escape_chars xflag =
     (let xstyle = xstyle_of style xflag;
          eol = (if style AND QUOTE_0_TERMINATED \<noteq> 0 then 0 else 0x100);
          bytes = take sz instr;
          usehex = (xstyle = HEXSTR_ALL \<or> xstyle = HEXSTR_NON_ASCII \<and> scan_usehex eol bytes)
      in if usehex then quote_hex eol bytes
         else quote_chars xstyle escape_chars (style AND QUOTE_OMIT_TRAILING_0 \<noteq> 0) eol bytes)"

definition string_quote :: "string \<Rightarrow> nat \<Rightarrow> u32 \<Rightarrow> string option \<Rightarrow> xflag_opts \<Rightarrow> string \<times> int" where
  "string_quote instr sz style escape_chars xflag =
     (let q = (if style AND QUOTE_OMIT_LEADING_TRAILING_QUOTES = 0 then [CHR 0x22] else []);
          comment = (style AND QUOTE_EMIT_COMMENT \<noteq> 0)
      in case quote_body instr sz style escape_chars xflag of (s, ended) \<Rightarrow>
           ((if comment then '' /* '' else []) @ q @ s @ q @ (if comment then '' */'' else []),
            if ended then 0
            else if style AND QUOTE_0_TERMINATED \<noteq> 0 \<and> ord (instr ! sz) = 0 then 0 else 1))"

text \<open>
  \<^verbatim>\<open>print_quoted_string_ex\<close>: \<open>malloc_ok\<close> tells whether the allocation of a large buffer succeeds.
  The size of the buffer is kept apart, to be compared with what is written to it.
\<close>

definition quote_alloc_size :: "nat \<Rightarrow> u32 \<Rightarrow> nat" where
  "quote_alloc_size sz style =
     ((4 * sz) mod 2 ^ 32 + 1 + (if style AND QUOTE_OMIT_LEADING_TRAILING_QUOTES \<noteq> 0 then 0 else 2) +
      (if style AND QUOTE_EMIT_COMMENT \<noteq> 0 then 7 else 0)) mod 2 ^ 32"

definition print_quoted_string_ex ::
    "string \<Rightarrow> nat \<Rightarrow> u32 \<Rightarrow> string option \<Rightarrow> xflag_opts \<Rightarrow> bool \<Rightarrow> string \<times> int" where
  "print_quoted_string_ex str sz style escape_chars xflag malloc_ok =
     (let sz = (if sz \<noteq> 0 \<and> style AND QUOTE_0_TERMINATED \<noteq> 0 then sz - 1 else sz)
      in if (4 * sz) mod 2 ^ 32 div 4 \<noteq> sz then (''???'', - 1)
         else if \<not> quote_alloc_size sz style \<le> 4032 \<and> \<not> malloc_ok then (''???'', - 1)
         else case string_quote str sz style escape_chars xflag of (outstr, rc) \<Rightarrow>
           (outstr @
            (if style AND (QUOTE_0_TERMINATED OR QUOTE_EXPECT_TRAILING_0) =
                QUOTE_0_TERMINATED OR QUOTE_EXPECT_TRAILING_0 \<and> rc \<noteq> 0 then ''...'' else []), rc))"

definition print_quoted_cstring :: "string \<Rightarrow> nat \<Rightarrow> xflag_opts \<Rightarrow> bool \<Rightarrow> string \<times> int" where
  "print_quoted_cstring str sz xflag malloc_ok =
     (case print_quoted_string_ex str sz QUOTE_0_TERMINATED None xflag malloc_ok of (s, unterminated) \<Rightarrow>
        (s @ (if unterminated \<noteq> 0 then ''...'' else []), unterminated))"

section \<open>Bounds\<close>

lemma length_quote_char: "length (quote_char xstyle e c cs) \<le> 4"
  by (simp add: quote_char_def sprint_byte_hex_def sprint_byte_oct_def Let_def)

lemma length_quote_hex: "length (fst (quote_hex eol cs)) \<le> 4 * length cs"
  by (induction cs) (auto simp: sprint_byte_hex_def split: prod.splits)

lemma length_quote_chars: "length (fst (quote_chars xstyle e omit0 eol cs)) \<le> 4 * length cs"
proof (induction cs)
  case (Cons c cs)
  then show ?case using length_quote_char [of xstyle e c cs] by (auto split: prod.splits)
qed simp

lemma length_quote_body: "length (fst (quote_body instr sz style e xflag)) \<le> 4 * sz"
proof -
  have "4 * length (take sz instr) \<le> 4 * sz" by simp
  note order.trans [OF length_quote_hex this] order.trans [OF length_quote_chars this]
  then show ?thesis by (simp add: quote_body_def Let_def)
qed



section \<open>Reading a quoted string back\<close>

definition is_oct :: "char \<Rightarrow> bool" where
  "is_oct c \<longleftrightarrow> 48 \<le> ord c \<and> ord c \<le> 55"

definition hex_val :: "char \<Rightarrow> nat" where
  "hex_val c = (if ord c \<le> 57 then ord c - 48 else ord c - 87)"

definition oct_val :: "string \<Rightarrow> nat" where
  "oct_val = foldl (\<lambda>n c. 8 * n + (ord c - 48)) 0"

definition letter_escape :: "char \<Rightarrow> char" where
  "letter_escape c =
     (if c = CHR ''f'' then char_of (12 :: nat) else if c = CHR ''n'' then char_of (10 :: nat)
      else if c = CHR ''r'' then char_of (13 :: nat) else if c = CHR ''t'' then char_of (9 :: nat)
      else if c = CHR ''v'' then char_of (11 :: nat) else c)"

text \<open>An escape after its backslash: the byte it stands for and the rest.\<close>

definition read_escape :: "string \<Rightarrow> (char \<times> string) option" where
  "read_escape s =
     (case s of [] \<Rightarrow> None
      | c # t \<Rightarrow>
          if c = CHR ''x'' then
            (case t of a # b # u \<Rightarrow> Some (char_of (16 * hex_val a + hex_val b), u) | _ \<Rightarrow> None)
          else if is_oct c then
            let ds = takeWhile is_oct (take 3 s) in Some (char_of (oct_val ds), drop (length ds) s)
          else Some (letter_escape c, t))"

lemma read_escape_shorter: "read_escape s = Some (c, r) \<Longrightarrow> length r < length s"
  by (auto simp: read_escape_def Let_def split: list.splits if_splits)

text \<open>The bytes up to the closing quote and the text behind it.\<close>

function read_quoted :: "string \<Rightarrow> (string \<times> string) option" where
  "read_quoted [] = None"
| "read_quoted (c # s) =
     (if c = CHR 0x22 then Some ([], s)
      else if c = CHR 0x5c then
        case read_escape s of None \<Rightarrow> None
        | Some (b, r) \<Rightarrow> map_option (apfst ((#) b)) (read_quoted r)
      else map_option (apfst ((#) c)) (read_quoted s))"
  by pat_completeness auto
termination
  by (relation "measure length") (auto dest: read_escape_shorter)

definition reads :: "string \<Rightarrow> char \<Rightarrow> string \<Rightarrow> bool" where
  "reads s b r \<longleftrightarrow> read_quoted s = map_option (apfst ((#) b)) (read_quoted r)"

lemma hex_char_val: "d < 16 \<Longrightarrow> hex_val (hex_char d) = d"
proof -
  assume "d < 16"
  then show ?thesis
    by (simp add: less_eq_Suc_le numeral_eq_Suc le_Suc_eq)
      (elim disjE; simp add: hex_char_def hex_val_def ord_def)
qed

lemma reads_hex: "reads (CHR 0x5c # CHR ''x'' # sprint_byte_hex c @ r) c r"
proof -
  have "ord c div 16 < 16" "ord c mod 16 < 16"
    using ord_less [of c] by (auto simp: less_mult_imp_div_less)
  moreover have "char_of (ord c) = c" by (simp add: ord_def)
  ultimately show ?thesis
    by (simp add: reads_def read_escape_def sprint_byte_hex_def hex_char_val)
qed

lemma reads_plain: "c \<noteq> CHR 0x22 \<Longrightarrow> c \<noteq> CHR 0x5c \<Longrightarrow> reads (c # r) c r"
  by (simp add: reads_def)

lemma oct_digit:
  assumes "d < (8 :: nat)" shows "is_oct (char_of (48 + d))" "ord (char_of (48 + d)) = 48 + d"
  using assms by (auto simp: is_oct_def)

lemma reads_digits:
  assumes "ds \<noteq> []" "list_all is_oct ds" "length ds \<le> 3" "length ds = 3 \<or> r = [] \<or> \<not> is_oct (hd r)"
    and "oct_val ds = ord c"
  shows "reads (CHR 0x5c # ds @ r) c r"
proof -
  obtain d ds' where ds: "ds = d # ds'" using assms(1) by (cases ds) auto
  have oct: "is_oct d" using assms(2) ds by simp
  then have x: "d \<noteq> CHR ''x''" by (auto simp: is_oct_def ord_def)
  have "takeWhile is_oct (take 3 (ds @ r)) = ds @ takeWhile is_oct (take (3 - length ds) r)"
    using assms(2,3) by (simp add: list_all_iff)
  also have "takeWhile is_oct (take (3 - length ds) r) = []"
    using assms(4) by (cases r; cases "3 - length ds") auto
  finally have "takeWhile is_oct (take 3 (ds @ r)) = ds" by simp
  moreover have "char_of (ord c) = c" by (simp add: ord_def)
  ultimately have "read_escape (ds @ r) = Some (c, r)"
    using x oct assms(5) unfolding read_escape_def by (simp add: ds Let_def)
  then show ?thesis by (simp add: reads_def)
qed

lemma reads_oct:
  assumes "\<not> unabbrev \<longrightarrow> r = [] \<or> \<not> is_oct (hd r)"
  shows "reads (CHR 0x5c # sprint_byte_oct c unabbrev @ r) c r"
proof (rule reads_digits)
  let ?n = "ord c"
  have n: "?n div 64 < 8" "?n div 8 mod 8 < 8" "?n mod 8 < 8"
    using less_trans [OF ord_less [of c], of 512] less_mult_imp_div_less [of ?n 8 64] by auto
  note dig = oct_digit [OF n(1)] oct_digit [OF n(2)] oct_digit [OF n(3)]
  have "?n div 64 = ?n div 8 div 8" by (simp add: div_mult2_eq [symmetric])
  then have val: "8 * (8 * (?n div 64) + ?n div 8 mod 8) + ?n mod 8 = ?n" by simp
  show "sprint_byte_oct c unabbrev \<noteq> []" "length (sprint_byte_oct c unabbrev) \<le> 3"
    by (simp_all add: sprint_byte_oct_def Let_def)
  show "list_all is_oct (sprint_byte_oct c unabbrev)"
    using dig by (simp add: sprint_byte_oct_def Let_def)
  show "length (sprint_byte_oct c unabbrev) = 3 \<or> r = [] \<or> \<not> is_oct (hd r)"
    using assms by (auto simp: sprint_byte_oct_def Let_def)
  show "oct_val (sprint_byte_oct c unabbrev) = ?n"
    using val dig by (auto simp: sprint_byte_oct_def Let_def oct_val_def)
qed

lemma letter_ords:
  "ord (CHR ''f'') = 102" "ord (CHR ''n'') = 110" "ord (CHR ''r'') = 114" "ord (CHR ''t'') = 116"
  "ord (CHR ''v'') = 118" "ord (CHR 0x22) = 34" "ord (CHR 0x5c) = 92"
  by (simp_all add: ord_def)

lemma reads_quote_char:
  assumes "(case cs of [] \<Rightarrow> False | d # _ \<Rightarrow> is_oct d) \<or> r = [] \<or> \<not> is_oct (hd r)"
  shows "reads (quote_char xstyle e c cs @ r) c r"
proof -
  have letter: "reads (CHR 0x5c # d # r) (letter_escape d) r" if "d \<noteq> CHR ''x''" "\<not> is_oct d" for d
    using that by (simp add: reads_def read_escape_def)
  have eq: "ord c = n \<Longrightarrow> char_of n = c" for n by (auto simp: ord_def)
  have ws: "ord c = 12 \<Longrightarrow> reads (CHR 0x5c # CHR ''f'' # r) c r"
    "ord c = 10 \<Longrightarrow> reads (CHR 0x5c # CHR ''n'' # r) c r" "ord c = 13 \<Longrightarrow> reads (CHR 0x5c # CHR ''r'' # r) c r"
    "ord c = 9 \<Longrightarrow> reads (CHR 0x5c # CHR ''t'' # r) c r" "ord c = 11 \<Longrightarrow> reads (CHR 0x5c # CHR ''v'' # r) c r"
    using letter [of "CHR ''f''"] letter [of "CHR ''n''"] letter [of "CHR ''r''"]
      letter [of "CHR ''t''"] letter [of "CHR ''v''"] eq [of 12] eq [of 10] eq [of 13] eq [of 9] eq [of 11]
    by (simp_all add: letter_escape_def is_oct_def letter_ords)
  let ?f = "case cs of [] \<Rightarrow> False | d # _ \<Rightarrow> 48 \<le> ord d \<and> ord d \<le> 55"
  have oct: "reads (CHR 0x5c # sprint_byte_oct c ?f @ r) c r"
    by (rule reads_oct) (use assms in \<open>auto simp: is_oct_def split: list.splits\<close>)
  consider "c = CHR 0x22 \<or> c = CHR 0x5c" | "ord c = 12" | "ord c = 10" | "ord c = 13" | "ord c = 9" | "ord c = 11"
    | "quote_char xstyle e c cs = [c]" "c \<noteq> CHR 0x22" "c \<noteq> CHR 0x5c"
    | "quote_char xstyle e c cs = CHR 0x5c # CHR ''x'' # sprint_byte_hex c"
    | "quote_char xstyle e c cs = CHR 0x5c # sprint_byte_oct c ?f"
    unfolding quote_char_def by argo
  then show ?thesis
  proof cases
    case 1
    then show ?thesis
      using letter [of c] by (auto simp: quote_char_def letter_escape_def is_oct_def ord_def)
  qed (use ws oct reads_hex [of c r] reads_plain [of c r] in \<open>auto simp: quote_char_def letter_ords\<close>)
qed

lemma hd_quote_char:
  "quote_char xstyle e c cs \<noteq> []" "\<not> is_oct c \<Longrightarrow> \<not> is_oct (hd (quote_char xstyle e c cs))"
  by (auto simp: quote_char_def is_oct_def letter_ords)

lemma quote_not_oct: "\<not> is_oct (CHR 0x22)"
  by (simp add: is_oct_def letter_ords)

lemma quote_hex_reads:
  "read_quoted (fst (quote_hex eol cs) @ CHR 0x22 # r) = Some (takeWhile (\<lambda>c. ord c \<noteq> eol) cs, r)"
proof (induction cs)
  case (Cons c cs)
  then show ?case
    using reads_hex [of c "fst (quote_hex eol cs) @ CHR 0x22 # r"]
    by (auto simp: reads_def split: prod.splits)
qed simp

lemma quote_chars_reads:
  "read_quoted (fst (quote_chars xstyle e False eol cs) @ CHR 0x22 # r) =
     Some (takeWhile (\<lambda>c. ord c \<noteq> eol) cs, r)"
proof (induction cs)
  case (Cons c cs)
  let ?s = "fst (quote_chars xstyle e False eol cs) @ CHR 0x22 # r"
  have "(case cs of [] \<Rightarrow> False | d # _ \<Rightarrow> is_oct d) \<or> ?s = [] \<or> \<not> is_oct (hd ?s)"
    using hd_quote_char quote_not_oct by (cases cs) (auto simp: hd_append split: prod.splits)
  from reads_quote_char [OF this] Cons show ?case
    by (auto simp: reads_def split: prod.splits)
qed simp

lemma takeWhile_no_eol: "takeWhile (\<lambda>c. ord c \<noteq> 256) cs = cs"
proof -
  have "ord c \<noteq> 256" for c using ord_less [of c] by linarith
  then show ?thesis by simp
qed

lemma quote_body_reads:
  assumes "style AND QUOTE_OMIT_TRAILING_0 = 0"
  shows "read_quoted (fst (quote_body instr sz style e xflag) @ CHR 0x22 # rest) =
    Some (if style AND QUOTE_0_TERMINATED \<noteq> 0
      then takeWhile (\<lambda>c. ord c \<noteq> 0) (take sz instr) else take sz instr, rest)"
  using assms unfolding quote_body_def Let_def
  by (simp add: quote_hex_reads quote_chars_reads takeWhile_no_eol)

text \<open>C18: What \<^verbatim>\<open>string_quote\<close> writes between quotes can be read back: up to its closing quote it
  stands for the bytes of the string, up to the first zero for a zero-terminated one, in every
  hexadecimal mode and for every set of characters to escape.\<close>

theorem string_quote_roundtrip:
  assumes "style AND QUOTE_OMIT_LEADING_TRAILING_QUOTES = 0" "style AND QUOTE_EMIT_COMMENT = 0"
    and "style AND QUOTE_OMIT_TRAILING_0 = 0"
  shows "\<exists>out. fst (string_quote instr sz style escape_chars xflag) = CHR 0x22 # out \<and>
    read_quoted (out @ rest) = Some (if style AND QUOTE_0_TERMINATED \<noteq> 0
      then takeWhile (\<lambda>c. ord c \<noteq> 0) (take sz instr) else take sz instr, rest)"
  using assms quote_body_reads [OF assms(3), of instr sz escape_chars xflag rest]
  by (simp add: string_quote_def Let_def case_prod_unfold)

theorem string_quote_roundtrip_witness:
  "\<exists>out. fst (string_quote [CHR ''a'', CHR 0x01, CHR ''7'', CHR 0x22, CHR 0x00, CHR ''b''] 6
        QUOTE_0_TERMINATED None HEXSTR_NONE) = CHR 0x22 # out \<and>
     read_quoted (out @ '', 3'') = Some ([CHR ''a'', CHR 0x01, CHR ''7'', CHR 0x22], '', 3'')"
  using string_quote_roundtrip [of QUOTE_0_TERMINATED
      "[CHR ''a'', CHR 0x01, CHR ''7'', CHR 0x22, CHR 0x00, CHR ''b'']" 6 None HEXSTR_NONE "'', 3''"]
  by (simp add: ord_def)

text \<open>For a zero-terminated string \<^verbatim>\<open>string_quote\<close> returns 0 exactly when one of the first
  \<^verbatim>\<open>size + 1\<close> bytes is zero.\<close>

lemma string_quote_terminated:
  assumes "style AND QUOTE_0_TERMINATED \<noteq> 0" "sz < length instr"
  shows "snd (string_quote instr sz style escape_chars xflag) = 0 \<longleftrightarrow>
    (\<exists>c \<in> set (take (Suc sz) instr). ord c = 0)"
proof -
  have hex: "snd (quote_hex 0 cs) \<longleftrightarrow> (\<exists>c \<in> set cs. ord c = 0)" for cs
    by (induction cs) (auto split: prod.splits)
  have chars: "snd (quote_chars x e o0 0 cs) \<longleftrightarrow> (\<exists>c \<in> set cs. ord c = 0)" for x e o0 cs
    by (induction cs) (auto split: prod.splits)
  have "snd (quote_body instr sz style escape_chars xflag) \<longleftrightarrow> (\<exists>c \<in> set (take sz instr). ord c = 0)"
    using assms(1) hex chars by (simp add: quote_body_def Let_def)
  then show ?thesis
    using assms by (auto simp: string_quote_def Let_def take_Suc_conv_app_nth split: prod.splits)
qed

end
