(* ===== verification/Tcb.thy ===== *)
theory Tcb
  imports Filter_Qualify Wait_Status
begin

text \<open>
  The trace control block of \<^verbatim>\<open>src/src/defs.h\<close>: its flags, and the fields that the injection code
  and the event loop read and write. Pointers to other blocks or buffers are not part of it.
\<close>

abbreviation TCB_STARTUP :: u32 where "TCB_STARTUP \<equiv> 0x01"
abbreviation TCB_IGNORE_ONE_SIGSTOP :: u32 where "TCB_IGNORE_ONE_SIGSTOP \<equiv> 0x02"
abbreviation TCB_INSYSCALL :: u32 where "TCB_INSYSCALL \<equiv> 0x04"
abbreviation TCB_ATTACHED :: u32 where "TCB_ATTACHED \<equiv> 0x08"
abbreviation TCB_REPRINT :: u32 where "TCB_REPRINT \<equiv> 0x10"
abbreviation TCB_FILTERED :: u32 where "TCB_FILTERED \<equiv> 0x20"
abbreviation TCB_TAMPERED :: u32 where "TCB_TAMPERED \<equiv> 0x40"
abbreviation TCB_HIDE_LOG :: u32 where "TCB_HIDE_LOG \<equiv> 0x80"
abbreviation TCB_CHECK_EXEC_SYSCALL :: u32 where "TCB_CHECK_EXEC_SYSCALL \<equiv> 0x100"
abbreviation TCB_SKIP_DETACH_ON_FIRST_EXEC :: u32 where "TCB_SKIP_DETACH_ON_FIRST_EXEC \<equiv> 0x200"
abbreviation TCB_GRABBED :: u32 where "TCB_GRABBED \<equiv> 0x400"
abbreviation TCB_RECOVERING :: u32 where "TCB_RECOVERING \<equiv> 0x800"
abbreviation TCB_INJECT_DELAY_EXIT :: u32 where "TCB_INJECT_DELAY_EXIT \<equiv> 0x1000"
abbreviation TCB_INJECT_POKE_EXIT :: u32 where "TCB_INJECT_POKE_EXIT \<equiv> 0x2000"
abbreviation TCB_DELAYED :: u32 where "TCB_DELAYED \<equiv> 0x4000"
abbreviation TCB_TAMPERED_DELAYED :: u32 where "TCB_TAMPERED_DELAYED \<equiv> 0x8000"
abbreviation TCB_TAMPERED_POKED :: u32 where "TCB_TAMPERED_POKED \<equiv> 0x10000"
abbreviation TCB_TAMPERED_NO_FAIL :: u32 where "TCB_TAMPERED_NO_FAIL \<equiv> 0x20000"
abbreviation TCB_SECCOMP_FILTER :: u32 where "TCB_SECCOMP_FILTER \<equiv> 0x40000"
abbreviation TCP_AFTER_KVM_RUN :: u32 where "TCP_AFTER_KVM_RUN \<equiv> 0x80000"

abbreviation DEFAULT_QUAL_FLAGS :: u32 where
  "DEFAULT_QUAL_FLAGS \<equiv> QUAL_TRACE OR QUAL_ABBREV OR QUAL_VERBOSE"

abbreviation MAX_ARGS :: nat where "MAX_ARGS \<equiv> 6"
abbreviation MAX_ERRNO_VALUE64 :: u64 where "MAX_ERRNO_VALUE64 \<equiv> 4095"

text \<open>
  What a wait told about a tracee. The signal information that belongs to it is only printed and is
  left out.
\<close>

datatype trace_event =
    TE_BREAK | TE_NEXT | TE_RESTART | TE_SYSCALL_STOP | TE_SIGNAL_DELIVERY_STOP | TE_SIGNALLED
  | TE_GROUP_STOP | TE_EXITED | TE_STOP_BEFORE_EXECVE | TE_STOP_BEFORE_EXIT | TE_SECCOMP

record tcb_wait_data =
  wd_te :: trace_event
  wd_status :: u32
  wd_msg :: u64

record tcb =
  t_flags :: u32
  t_pid :: nat
  t_qual_flg :: u32
  t_currpers :: nat
  t_u_error :: u64
  t_scno :: u64
  t_true_scno :: u64
  t_u_arg :: "u64 list"
  t_u_rval :: u64
  t_sys_func_rval :: int
  t_s_ent :: "sysent option"
  t_s_prev_ent :: "sysent option"
  t_inject_vec :: "inject_opts list option list"
  t_stime :: timespec
  t_ltime :: timespec
  t_atime :: timespec
  t_etime :: timespec
  t_delay_expiration_time :: timespec
  t_wait_data_idx :: nat
  t_delayed_wait_data :: "tcb_wait_data option"

definition has :: "u32 \<Rightarrow> tcb \<Rightarrow> bool" where
  "has f tcp \<longleftrightarrow> t_flags tcp AND f \<noteq> 0"

definition set_tcb_flag :: "u32 \<Rightarrow> tcb \<Rightarrow> tcb" where
  "set_tcb_flag f tcp = tcp\<lparr>t_flags := t_flags tcp OR f\<rparr>"

definition clear_tcb_flag :: "u32 \<Rightarrow> tcb \<Rightarrow> tcb" where
  "clear_tcb_flag f tcp = tcp\<lparr>t_flags := t_flags tcp AND NOT f\<rparr>"

definition qual :: "u32 \<Rightarrow> tcb \<Rightarrow> bool" where
  "qual q tcp \<longleftrightarrow> t_qual_flg tcp AND q \<noteq> 0"

abbreviation exiting :: "tcb \<Rightarrow> bool" where "exiting \<equiv> has TCB_INSYSCALL"
abbreviation entering :: "tcb \<Rightarrow> bool" where "entering tcp \<equiv> \<not> exiting tcp"
abbreviation filtered :: "tcb \<Rightarrow> bool" where "filtered \<equiv> has TCB_FILTERED"
abbreviation hide_log :: "tcb \<Rightarrow> bool" where "hide_log \<equiv> has TCB_HIDE_LOG"
abbreviation check_exec_syscall :: "tcb \<Rightarrow> bool" where
  "check_exec_syscall \<equiv> has TCB_CHECK_EXEC_SYSCALL"
abbreviation syscall_tampered :: "tcb \<Rightarrow> bool" where "syscall_tampered \<equiv> has TCB_TAMPERED"
abbreviation recovering :: "tcb \<Rightarrow> bool" where "recovering \<equiv> has TCB_RECOVERING"
abbreviation syscall_delayed :: "tcb \<Rightarrow> bool" where "syscall_delayed \<equiv> has TCB_DELAYED"
abbreviation syscall_tampered_nofail :: "tcb \<Rightarrow> bool" where
  "syscall_tampered_nofail \<equiv> has TCB_TAMPERED_NO_FAIL"
abbreviation has_seccomp_filter :: "tcb \<Rightarrow> bool" where "has_seccomp_filter \<equiv> has TCB_SECCOMP_FILTER"
abbreviation syserror :: "tcb \<Rightarrow> bool" where "syserror tcp \<equiv> t_u_error tcp \<noteq> 0"

text \<open>
  The entry of an unknown call; the number \<open>SEN_printargs\<close> comes from a generated file and is an
  argument.
\<close>

definition stub_sysent :: "nat \<Rightarrow> sysent" where
  "stub_sysent SEN_printargs =
     \<lparr>nargs = MAX_ARGS, sys_flags = MEMORY_MAPPING_CHANGE, sen = SEN_printargs, sys_func = True,
      sys_name = Some ''???''\<rparr>"

definition tcp_sysent :: "nat \<Rightarrow> tcb \<Rightarrow> sysent" where
  "tcp_sysent SEN_printargs tcp =
     (case t_s_ent tcp of None \<Rightarrow> stub_sysent SEN_printargs | Some e \<Rightarrow> e)"

definition n_args :: "nat \<Rightarrow> tcb \<Rightarrow> nat" where
  "n_args SEN_printargs tcp = min (nargs (tcp_sysent SEN_printargs tcp)) MAX_ARGS"

section \<open>Flags\<close>

named_theorems tcb_simps

lemma has_set [tcb_simps]: "has g (set_tcb_flag f tcp) \<longleftrightarrow> has g tcp \<or> f AND g \<noteq> 0"
  by (simp add: has_def set_tcb_flag_def or_and_eq_0)

lemma has_clear_disjoint [tcb_simps]: "f AND g = 0 \<Longrightarrow> has g (clear_tcb_flag f tcp) \<longleftrightarrow> has g tcp"
proof -
  assume "f AND g = 0"
  then have "NOT f AND g = g"
    by (auto simp: bit_eq_iff [where ?'a = "32 word"] bit_simps)
  then show ?thesis by (simp add: has_def clear_tcb_flag_def and.assoc)
qed

lemma has_clear_subset: "NOT f AND g = 0 \<Longrightarrow> \<not> has g (clear_tcb_flag f tcp)"
  by (simp add: has_def clear_tcb_flag_def and.assoc)

lemma set_tcb_flag_fields [simp]:
  "t_pid (set_tcb_flag f tcp) = t_pid tcp" "t_qual_flg (set_tcb_flag f tcp) = t_qual_flg tcp"
  "t_currpers (set_tcb_flag f tcp) = t_currpers tcp" "t_u_error (set_tcb_flag f tcp) = t_u_error tcp"
  "t_scno (set_tcb_flag f tcp) = t_scno tcp" "t_u_arg (set_tcb_flag f tcp) = t_u_arg tcp"
  "t_u_rval (set_tcb_flag f tcp) = t_u_rval tcp" "t_s_ent (set_tcb_flag f tcp) = t_s_ent tcp"
  "t_inject_vec (set_tcb_flag f tcp) = t_inject_vec tcp"
  "t_delay_expiration_time (set_tcb_flag f tcp) = t_delay_expiration_time tcp"
  by (simp_all add: set_tcb_flag_def)

lemma clear_tcb_flag_fields [simp]:
  "t_pid (clear_tcb_flag f tcp) = t_pid tcp" "t_qual_flg (clear_tcb_flag f tcp) = t_qual_flg tcp"
  "t_currpers (clear_tcb_flag f tcp) = t_currpers tcp" "t_u_error (clear_tcb_flag f tcp) = t_u_error tcp"
  "t_scno (clear_tcb_flag f tcp) = t_scno tcp" "t_u_arg (clear_tcb_flag f tcp) = t_u_arg tcp"
  "t_u_rval (clear_tcb_flag f tcp) = t_u_rval tcp" "t_s_ent (clear_tcb_flag f tcp) = t_s_ent tcp"
  "t_inject_vec (clear_tcb_flag f tcp) = t_inject_vec tcp"
  "t_delay_expiration_time (clear_tcb_flag f tcp) = t_delay_expiration_time tcp"
  by (simp_all add: clear_tcb_flag_def)

end
