(* ===== verification/Syscall_Regs.thy ===== *)
theory Syscall_Regs
  imports Tcb
begin

text \<open>
  How \<^verbatim>\<open>src/src/syscall.c\<close> reads and changes the number, the arguments and the result of a system
  call, with the x86-64 files of \<^verbatim>\<open>src/src/linux/x86_64\<close>. The requests to the kernel are the
  operations of a record over an unknown tracee state \<open>'k\<close>. The registers fetched last, the last
  answer of \<^verbatim>\<open>PTRACE_GET_SYSCALL_INFO\<close> and the current personality are the state of this part.
\<close>

section \<open>State\<close>

datatype sci_op = SCI_NONE | SCI_ENTRY | SCI_EXIT | SCI_SECCOMP | SCI_UNSET

record ptrace_sci =
  sci_op :: sci_op
  sci_arch :: u32
  sci_nr :: u64
  sci_args :: "u64 list"
  sci_is_error :: bool
  sci_rval :: u64

record x86_64_regs =
  rax :: u64
  orig_rax :: u64
  rbx :: u64
  rcx :: u64
  rdx :: u64
  rsi :: u64
  rdi :: u64
  rbp :: u64
  r8 :: u64
  r9 :: u64
  r10 :: u64
  cs :: u64

record i386_regs =
  eax :: u32
  orig_eax :: u32
  ebx :: u32
  ecx :: u32
  edx :: u32
  esi :: u32
  edi :: u32
  ebp :: u32

text \<open>The union of the two layouts; the constructor is the size the kernel reported.\<close>

datatype x86_regs = X86_64 x86_64_regs | I386 i386_regs

datatype getregset_answer = Regset x86_regs | Regset_Gone | Regset_Error

record 'k ptrace_ops =
  get_info_supported :: bool
  set_info_supported :: bool
  op_get_syscall_info :: "'k \<Rightarrow> ptrace_sci option"
  op_set_syscall_info :: "ptrace_sci \<Rightarrow> 'k \<Rightarrow> 'k option"
  op_getregset :: "'k \<Rightarrow> getregset_answer"
  op_getregs :: "'k \<Rightarrow> x86_64_regs option"
  op_upoke :: "nat \<Rightarrow> u64 \<Rightarrow> 'k \<Rightarrow> 'k option"

record 'k sysst =
  sci :: ptrace_sci
  get_regs_error :: int
  use_getregs_old :: int
  regs :: x86_regs
  current_personality :: nat
  kst :: 'k

abbreviation X32_SYSCALL_BIT :: u64 where "X32_SYSCALL_BIT \<equiv> 0x40000000"
abbreviation AUDIT_ARCH_I386 :: u32 where "AUDIT_ARCH_I386 \<equiv> 0x40000003"
abbreviation OFF_RAX :: nat where "OFF_RAX \<equiv> 80"
abbreviation OFF_ORIG_RAX :: nat where "OFF_ORIG_RAX \<equiv> 120"

section \<open>Personality\<close>

definition set_personality :: "'a arch_scheme \<Rightarrow> nat \<Rightarrow> 'k sysst \<Rightarrow> die + 'k sysst" where
  "set_personality A p st =
     (if p = current_personality st then Inr st
      else if p \<ge> SUPPORTED_PERSONALITIES A then
        Inl (Die (''Requested switch to unsupported personality '' @ dec_string p))
      else Inr (st\<lparr>current_personality := p\<rparr>))"

definition update_personality ::
    "'a arch_scheme \<Rightarrow> nat \<Rightarrow> 'k sysst \<times> tcb \<Rightarrow> die + 'k sysst \<times> tcb" where
  "update_personality A p = (\<lambda>(st, tcp).
     rbind (set_personality A p st) (\<lambda>st. Inr (st, tcp\<lparr>t_currpers := p\<rparr>)))"

definition klongsize :: "nat \<Rightarrow> nat" where
  "klongsize personality = (if personality = 1 then 4 else 8)"

definition get_personality_from_syscall_info :: "ptrace_sci \<Rightarrow> int" where
  "get_personality_from_syscall_info s =
     (let pers = (if sci_arch s = AUDIT_ARCH_I386 then 1 else 0)
      in if sci_op s = SCI_ENTRY \<or> sci_op s = SCI_SECCOMP then
           (if pers = 0 \<and> sci_nr s AND X32_SYSCALL_BIT \<noteq> 0 \<and> sci_nr s \<noteq> - 1 then 2 else pers)
         else - 1)"

section \<open>Registers\<close>

definition clear_regs :: "'k sysst \<Rightarrow> 'k sysst" where
  "clear_regs st = st\<lparr>sci := (sci st)\<lparr>sci_op := SCI_UNSET\<rparr>, get_regs_error := - 1\<rparr>"

definition getregs_old :: "'k ptrace_ops \<Rightarrow> 'k sysst \<Rightarrow> int \<times> 'k sysst" where
  "getregs_old K st =
     (case op_getregs K (kst st) of
        None \<Rightarrow> (- 1, st)
      | Some r \<Rightarrow>
          (0, st\<lparr>regs := (if cs r = 0x23 then
              I386 \<lparr>eax = ucast (rax r), orig_eax = ucast (orig_rax r), ebx = ucast (rbx r),
                    ecx = ucast (rcx r), edx = ucast (rdx r), esi = ucast (rsi r),
                    edi = ucast (rdi r), ebp = ucast (rbp r)\<rparr>
              else X86_64 r)\<rparr>))"

definition get_regs :: "'k ptrace_ops \<Rightarrow> 'k sysst \<Rightarrow> int \<times> 'k sysst" where
  "get_regs K st =
     (let old = (\<lambda>st. case getregs_old K st of (e, st) \<Rightarrow> (e, st\<lparr>get_regs_error := e\<rparr>))
      in if get_regs_error st \<noteq> - 1 then (get_regs_error st, st)
         else if use_getregs_old st < 0 then
           (case op_getregset K (kst st) of
              Regset r \<Rightarrow> (0, st\<lparr>regs := r, get_regs_error := 0\<rparr>)
            | _ \<Rightarrow> (- 1, st\<lparr>get_regs_error := - 1\<rparr>))
         else if use_getregs_old st = 0 then
           (case op_getregset K (kst st) of
              Regset r \<Rightarrow> (0, st\<lparr>regs := r, get_regs_error := 0, use_getregs_old := - 1\<rparr>)
            | Regset_Gone \<Rightarrow> (- 1, st\<lparr>get_regs_error := - 1\<rparr>)
            | Regset_Error \<Rightarrow> old (st\<lparr>use_getregs_old := 1\<rparr>))
         else old st)"

definition ptrace_syscall_info_is_valid :: "'k ptrace_ops \<Rightarrow> 'k sysst \<Rightarrow> bool" where
  "ptrace_syscall_info_is_valid K st \<longleftrightarrow> get_info_supported K \<and> sci_op (sci st) \<noteq> SCI_UNSET"

definition ptrace_syscall_info_is_entry :: "'k ptrace_ops \<Rightarrow> 'k sysst \<Rightarrow> bool" where
  "ptrace_syscall_info_is_entry K st \<longleftrightarrow>
     get_info_supported K \<and> (sci_op (sci st) = SCI_ENTRY \<or> sci_op (sci st) = SCI_SECCOMP)"

definition ptrace_syscall_info_is_exit :: "'k ptrace_ops \<Rightarrow> 'k sysst \<Rightarrow> bool" where
  "ptrace_syscall_info_is_exit K st \<longleftrightarrow> get_info_supported K \<and> sci_op (sci st) = SCI_EXIT"

definition strace_get_syscall_info ::
    "'a arch_scheme \<Rightarrow> 'k ptrace_ops \<Rightarrow> 'k sysst \<times> tcb \<Rightarrow> die + bool \<times> 'k sysst \<times> tcb" where
  "strace_get_syscall_info A K = (\<lambda>(st, tcp).
     if sci_op (sci st) = SCI_UNSET then
       (case op_get_syscall_info K (kst st) of
          None \<Rightarrow> Inr (False, st\<lparr>get_regs_error := - 2\<rparr>, tcp)
        | Some s \<Rightarrow>
            let st = st\<lparr>sci := s\<rparr>; newpers = get_personality_from_syscall_info s
            in if newpers \<ge> 0 then
                 rbind (update_personality A (nat newpers) (st, tcp)) (\<lambda>r. Inr (True, r))
               else Inr (True, st, tcp))
     else Inr (True, st, tcp))"

definition get_syscall_regs ::
    "'a arch_scheme \<Rightarrow> 'k ptrace_ops \<Rightarrow> 'k sysst \<times> tcb \<Rightarrow> die + int \<times> 'k sysst \<times> tcb" where
  "get_syscall_regs A K = (\<lambda>(st, tcp).
     let fetch = (\<lambda>(st, tcp). case get_regs K st of (e, st) \<Rightarrow> Inr (e, st, tcp))
     in if get_regs_error st \<noteq> - 1 then Inr (get_regs_error st, st, tcp)
        else if get_info_supported K then
          rbind (strace_get_syscall_info A K (st, tcp)) (\<lambda>(ok, st, tcp).
            if \<not> ok then Inr (get_regs_error st, st, tcp)
            else if entering tcp \<and> ptrace_syscall_info_is_entry K st \<or>
                    exiting tcp \<and> ptrace_syscall_info_is_exit K st then Inr (0, st, tcp)
            else fetch (st, tcp))
        else fetch (st, tcp))"

section \<open>Number and arguments\<close>

definition arch_get_scno ::
    "'a arch_scheme \<Rightarrow> 'k sysst \<times> tcb \<Rightarrow> die + int \<times> 'k sysst \<times> tcb" where
  "arch_get_scno A = (\<lambda>(st, tcp).
     let (scno, currpers) =
       (case regs st of
          I386 r \<Rightarrow> (ucast (orig_eax r), 1)
        | X86_64 r \<Rightarrow> (orig_rax r, if orig_rax r AND X32_SYSCALL_BIT \<noteq> 0 \<and> orig_rax r \<noteq> - 1 then 2 else 0))
     in rbind (update_personality A currpers (st, tcp)) (\<lambda>(st, tcp). Inr (1, st, tcp\<lparr>t_scno := scno\<rparr>)))"

definition shuffle_scno :: "'a arch_scheme \<Rightarrow> nat \<Rightarrow> u64 \<Rightarrow> u64" where
  "shuffle_scno A pers scno = word_of_nat (shuffle_scno_pers A (unat scno) pers)"

definition invalid_sysent :: "'a arch_scheme \<Rightarrow> nat \<Rightarrow> nat \<Rightarrow> u64 \<Rightarrow> sysent" where
  "invalid_sysent A SEN_printargs pers scno =
     (let n = unat (shuffle_scno A pers scno)
      in (stub_sysent SEN_printargs)
           \<lparr>sys_name := Some (''syscall_'' @ (if n = 0 then ''0'' else ''0x'' @ hex_string n))\<rparr>)"

text \<open>The entry of the table, or one for an unknown call, and the flags of the call.\<close>

definition classify_scno :: "'a arch_scheme \<Rightarrow> nat \<Rightarrow> filters \<Rightarrow> nat \<Rightarrow> tcb \<Rightarrow> tcb" where
  "classify_scno A SEN_printargs F pers tcp =
     (let tcp = tcp\<lparr>t_true_scno := t_scno tcp, t_scno := shuffle_scno A pers (t_scno tcp)\<rparr>;
          scno = unat (t_scno tcp);
          tcp = (if scno_pers_is_valid A scno pers
                 then tcp\<lparr>t_s_ent := Some (sysent_vec A ! pers ! scno), t_qual_flg := qual_flags F pers scno\<rparr>
                 else tcp\<lparr>t_s_ent := Some (invalid_sysent A SEN_printargs pers (t_scno tcp))\<rparr>)
      in if recovering tcp then tcp\<lparr>t_qual_flg := t_qual_flg tcp OR QUAL_RAW\<rparr> else tcp)"

definition get_scno ::
    "'a arch_scheme \<Rightarrow> 'k ptrace_ops \<Rightarrow> nat \<Rightarrow> filters \<Rightarrow> 'k sysst \<times> tcb \<Rightarrow> die + int \<times> 'k sysst \<times> tcb" where
  "get_scno A K SEN_printargs F = (\<lambda>(st, tcp).
     let tcp = tcp\<lparr>t_scno := - 1, t_s_ent := None, t_qual_flg := QUAL_RAW OR DEFAULT_QUAL_FLAGS\<rparr>
     in rbind (get_syscall_regs A K (st, tcp)) (\<lambda>(e, st, tcp).
       if e < 0 then Inr (- 1, st, tcp)
       else rbind
         (if ptrace_syscall_info_is_entry K st then Inr (1, st, tcp\<lparr>t_scno := sci_nr (sci st)\<rparr>)
          else arch_get_scno A (st, tcp)) (\<lambda>(rc, st, tcp).
         if rc \<noteq> 1 then Inr (rc, st, tcp)
         else Inr (1, st, classify_scno A SEN_printargs F (current_personality st) tcp))))"

definition lo32 :: "u64 \<Rightarrow> u64" where
  "lo32 v = ucast (ucast v :: u32)"

definition arch_get_syscall_args :: "x86_regs \<Rightarrow> bool \<Rightarrow> u64 list" where
  "arch_get_syscall_args r x32 =
     (case r of
        X86_64 r \<Rightarrow>
          map (\<lambda>v. if x32 then lo32 v else v) [rdi r, rsi r, rdx r, r10 r, r8 r, r9 r]
      | I386 r \<Rightarrow> map ucast [ebx r, ecx r, edx r, esi r, edi r, ebp r])"

definition get_syscall_args :: "'k ptrace_ops \<Rightarrow> nat \<Rightarrow> 'k sysst \<Rightarrow> tcb \<Rightarrow> tcb" where
  "get_syscall_args K SEN_printargs st tcp =
     (let x32 = (sys_flags (tcp_sysent SEN_printargs tcp) AND COMPAT_SYSCALL_TYPES \<noteq> 0)
      in if ptrace_syscall_info_is_entry K st then
           tcp\<lparr>t_u_arg := map (\<lambda>v. if x32 then lo32 v else v) (take MAX_ARGS (sci_args (sci st)))\<rparr>
         else tcp\<lparr>t_u_arg := arch_get_syscall_args (regs st) x32\<rparr>)"

section \<open>Result\<close>

definition is_negated_errno :: "nat \<Rightarrow> u64 \<Rightarrow> bool" where
  "is_negated_errno pers val =
     (if klongsize pers < 8 then lo32 val \<ge> lo32 (- MAX_ERRNO_VALUE64) else val \<ge> - MAX_ERRNO_VALUE64)"

definition arch_get_error :: "bool \<Rightarrow> 'k sysst \<Rightarrow> tcb \<Rightarrow> tcb" where
  "arch_get_error check_errno st tcp =
     (let ax = (case regs st of I386 r \<Rightarrow> scast (eax r) | X86_64 r \<Rightarrow> rax r)
      in if check_errno \<and> is_negated_errno (current_personality st) ax
         then tcp\<lparr>t_u_rval := - 1, t_u_error := - ax\<rparr>
         else tcp\<lparr>t_u_rval := (case regs st of I386 r \<Rightarrow> lo32 ax | X86_64 r \<Rightarrow> ax)\<rparr>)"

definition get_error :: "'k ptrace_ops \<Rightarrow> bool \<Rightarrow> 'k sysst \<Rightarrow> tcb \<Rightarrow> tcb" where
  "get_error K check_errno st tcp =
     (if ptrace_syscall_info_is_exit K st then
        if sci_is_error (sci st) then tcp\<lparr>t_u_rval := - 1, t_u_error := - sci_rval (sci st)\<rparr>
        else tcp\<lparr>t_u_error := 0, t_u_rval := sci_rval (sci st)\<rparr>
      else arch_get_error check_errno st (tcp\<lparr>t_u_error := 0\<rparr>))"

definition get_syscall_result ::
    "'a arch_scheme \<Rightarrow> 'k ptrace_ops \<Rightarrow> nat \<Rightarrow> 'k sysst \<times> tcb \<Rightarrow> die + int \<times> 'k sysst \<times> tcb" where
  "get_syscall_result A K SEN_printargs = (\<lambda>(st, tcp).
     rbind (get_syscall_regs A K (st, tcp)) (\<lambda>(e, st, tcp).
       if e < 0 then Inr (- 1, st, tcp)
       else let check = (sys_flags (tcp_sysent SEN_printargs tcp) AND SYSCALL_NEVER_FAILS = 0 \<or>
                         syscall_tampered tcp) \<and> \<not> syscall_tampered_nofail tcp
            in Inr (1, st, get_error K check st tcp)))"

section \<open>Changes\<close>

definition poke :: "'k ptrace_ops \<Rightarrow> nat \<Rightarrow> u64 \<Rightarrow> 'k sysst \<Rightarrow> int \<times> 'k sysst" where
  "poke K off val st =
     (case op_upoke K off val (kst st) of None \<Rightarrow> (- 1, st) | Some k \<Rightarrow> (0, st\<lparr>kst := k\<rparr>))"

definition set_scno :: "'k ptrace_ops \<Rightarrow> u64 \<Rightarrow> 'k sysst \<Rightarrow> int \<times> 'k sysst" where
  "set_scno K scno st =
     (if set_info_supported K \<and> ptrace_syscall_info_is_entry K st then
        let st = st\<lparr>sci := (sci st)\<lparr>sci_nr := scno\<rparr>\<rparr>
        in case op_set_syscall_info K (sci st) (kst st) of
             Some k \<Rightarrow> (1, st\<lparr>kst := k\<rparr>)
           | None \<Rightarrow> poke K OFF_ORIG_RAX scno st
      else poke K OFF_ORIG_RAX scno st)"

text \<open>
  The store to the fetched registers and the poke of \<^verbatim>\<open>arch_set_error\<close> and \<^verbatim>\<open>arch_set_success\<close>. The
  two layouts overlay each other in memory so that a store to the result register of one does not
  touch that of the other.
\<close>

definition set_result_reg :: "nat \<Rightarrow> u64 \<Rightarrow> x86_regs \<Rightarrow> x86_regs" where
  "set_result_reg currpers rval rs =
     (case rs of
        I386 r \<Rightarrow> if currpers = 1 then I386 (r\<lparr>eax := ucast rval\<rparr>) else rs
      | X86_64 r \<Rightarrow> if currpers = 1 then rs else X86_64 (r\<lparr>rax := rval\<rparr>))"

definition arch_set_result :: "'k ptrace_ops \<Rightarrow> nat \<Rightarrow> u64 \<Rightarrow> 'k sysst \<Rightarrow> int \<times> 'k sysst" where
  "arch_set_result K currpers rval st =
     poke K OFF_RAX rval (st\<lparr>regs := set_result_reg currpers rval (regs st)\<rparr>)"

definition arch_set_error :: "'k ptrace_ops \<Rightarrow> tcb \<Rightarrow> 'k sysst \<Rightarrow> int \<times> 'k sysst" where
  "arch_set_error K tcp st = arch_set_result K (t_currpers tcp) (- t_u_error tcp) st"

definition arch_set_success :: "'k ptrace_ops \<Rightarrow> tcb \<Rightarrow> 'k sysst \<Rightarrow> int \<times> 'k sysst" where
  "arch_set_success K tcp st = arch_set_result K (t_currpers tcp) (t_u_rval tcp) st"

definition set_error :: "'k ptrace_ops \<Rightarrow> nat \<Rightarrow> u64 \<Rightarrow> 'k sysst \<times> tcb \<Rightarrow> 'k sysst \<times> tcb" where
  "set_error K SEN_printargs new_error = (\<lambda>(st, tcp).
     let old_error = t_u_error tcp
     in if new_error = old_error \<or> new_error > MAX_ERRNO_VALUE64 then (st, tcp)
        else let tcp = tcp\<lparr>t_u_error := new_error\<rparr>;
                 s = (sci st)\<lparr>sci_is_error := True, sci_rval := - new_error\<rparr>
             in case (if set_info_supported K \<and> ptrace_syscall_info_is_exit K st
                      then op_set_syscall_info K s (kst st) else None) of
                  Some k \<Rightarrow> (st\<lparr>sci := s, kst := k\<rparr>, tcp\<lparr>t_u_rval := - 1\<rparr>)
                | None \<Rightarrow>
                    (case arch_set_error K tcp st of (rc, st) \<Rightarrow>
                       if rc \<noteq> 0 then (st, tcp\<lparr>t_u_error := old_error\<rparr>)
                       else if ptrace_syscall_info_is_valid K st then (st, tcp\<lparr>t_u_rval := - 1\<rparr>)
                       else (st, get_error K (sys_flags (tcp_sysent SEN_printargs tcp) AND
                               SYSCALL_NEVER_FAILS = 0) st tcp)))"

definition set_success :: "'k ptrace_ops \<Rightarrow> nat \<Rightarrow> u64 \<Rightarrow> 'k sysst \<times> tcb \<Rightarrow> 'k sysst \<times> tcb" where
  "set_success K SEN_printargs new_rval = (\<lambda>(st, tcp).
     let old_rval = t_u_rval tcp; tcp = tcp\<lparr>t_u_rval := new_rval\<rparr>;
         s = (sci st)\<lparr>sci_is_error := False, sci_rval := new_rval\<rparr>
     in case (if set_info_supported K \<and> ptrace_syscall_info_is_exit K st
              then op_set_syscall_info K s (kst st) else None) of
          Some k \<Rightarrow> (st\<lparr>sci := s, kst := k\<rparr>, tcp\<lparr>t_u_error := 0\<rparr>)
        | None \<Rightarrow>
            (case arch_set_success K tcp st of (rc, st) \<Rightarrow>
               if rc \<noteq> 0 then (st, tcp\<lparr>t_u_rval := old_rval\<rparr>)
               else if ptrace_syscall_info_is_valid K st then (st, tcp\<lparr>t_u_error := 0\<rparr>)
               else (st, get_error K (sys_flags (tcp_sysent SEN_printargs tcp) AND
                       SYSCALL_NEVER_FAILS = 0) st tcp)))"

end
