(* ===== verification/Tamper.thy ===== *)
theory Tamper
  imports Syscall_Regs
begin

text \<open>
  Tampering with system calls: \<^verbatim>\<open>delay_tcb\<close> of \<^verbatim>\<open>src/src/delay.c\<close>, \<^verbatim>\<open>poke_tcb\<close> of
  \<^verbatim>\<open>src/src/poke.c\<close>, and the two functions of \<^verbatim>\<open>src/src/syscall.c\<close> that carry out the options of
  \<^verbatim>\<open>-e inject\<close> at the entry and at the exit of a call. The clock and the timer of the kernel are
  answers in a record.
\<close>

section \<open>Delays\<close>

record delay_timer =
  timer_created :: bool
  timer_armed :: bool
  timer_at :: timespec

record clock =
  clk_now :: timespec
  clk_remaining :: "delay_timer \<Rightarrow> timespec option"
  clk_create_ok :: bool
  clk_settime_ok :: bool

definition delay_timer_expired :: "delay_timer \<Rightarrow> delay_timer" where
  "delay_timer_expired dt = dt\<lparr>timer_armed := False\<rparr>"

definition arm_delay_timer :: "clock \<Rightarrow> tcb \<Rightarrow> delay_timer \<Rightarrow> die + delay_timer" where
  "arm_delay_timer clk tcp dt =
     (if \<not> clk_settime_ok clk then Inl (Die ''timer_settime'')
      else Inr (dt\<lparr>timer_armed := True, timer_at := t_delay_expiration_time tcp\<rparr>))"

definition delay_tcb ::
    "clock \<Rightarrow> delay_table \<Rightarrow> nat \<Rightarrow> bool \<Rightarrow> delay_timer \<times> tcb \<Rightarrow> die + delay_timer \<times> tcb" where
  "delay_tcb clk t idx isenter = (\<lambda>(dt, tcp).
     if idx \<ge> used t then Inl (Die ''delay_tcb: delay_idx >= delay_data_vec_size'')
     else
       let ts_diff = (if isenter then ts_enter (arena t ! idx) else ts_exit (arena t ! idx));
           tcp = (set_tcb_flag TCB_TAMPERED_DELAYED (set_tcb_flag TCB_DELAYED tcp))
             \<lparr>t_delay_expiration_time := ts_add (clk_now clk) ts_diff\<rparr>
       in if timer_created dt then
            (case clk_remaining clk dt of
               None \<Rightarrow> Inl (Die ''timer_gettime'')
             | Some ts_old \<Rightarrow>
                 if ts_nz ts_old \<and> ts_cmp ts_diff ts_old > 0 then Inr (dt, tcp)
                 else rbind (arm_delay_timer clk tcp dt) (\<lambda>dt. Inr (dt, tcp)))
          else if \<not> clk_create_ok clk then Inl (Die ''timer_create'')
          else rbind (arm_delay_timer clk tcp (dt\<lparr>timer_created := True\<rparr>)) (\<lambda>dt. Inr (dt, tcp)))"

section \<open>Pokes\<close>

text \<open>
  \<open>upoken\<close> writes bytes to an address of the tracee and returns how many it wrote
  (\<^verbatim>\<open>src/src/ucopy.c\<close>).
\<close>

type_synonym 'k upoken = "u64 \<Rightarrow> u8 list \<Rightarrow> 'k \<Rightarrow> nat \<times> 'k"

fun poke_loop ::
    "'k upoken \<Rightarrow> nat \<Rightarrow> tcb \<Rightarrow> bool \<Rightarrow> poke_payload list \<Rightarrow> bool \<Rightarrow> 'k \<Rightarrow> bool \<times> 'k" where
  "poke_loop upoken SEN_printargs tcp enter [] poked k = (poked, k)"
| "poke_loop upoken SEN_printargs tcp enter (i # is) poked k =
     (if is_enter i \<noteq> enter then poke_loop upoken SEN_printargs tcp enter is poked k
      else if n_args SEN_printargs tcp < arg_no i then
        poke_loop upoken SEN_printargs tcp enter is poked k
      else case upoken (t_u_arg tcp ! (arg_no i - 1)) (poke_data i) k of (nwritten, k) \<Rightarrow>
        poke_loop upoken SEN_printargs tcp enter is (poked \<or> nwritten \<noteq> 0) k)"

definition poke_tcb ::
    "'k upoken \<Rightarrow> nat \<Rightarrow> poke_table \<Rightarrow> nat \<Rightarrow> bool \<Rightarrow> 'k sysst \<times> tcb \<Rightarrow> die + 'k sysst \<times> tcb" where
  "poke_tcb upoken SEN_printargs t idx enter = (\<lambda>(st, tcp).
     if idx \<ge> used t then Inl (Die ''poke_tcb: poke_idx >= poke_data_vec_size'')
     else case poke_loop upoken SEN_printargs tcp enter (arena t ! idx) False (kst st) of (poked, k) \<Rightarrow>
       Inr (st\<lparr>kst := k\<rparr>, if poked then set_tcb_flag TCB_TAMPERED_POKED tcp else tcp))"

section \<open>Entry\<close>

text \<open>
  The parameters of tampering: the operations of the kernel, memory writes, the clock, the number
  of \<^verbatim>\<open>SEN_printargs\<close> and whether the architecture needs the error at entry.
\<close>

record 'k tamper_env =
  te_ops :: "'k ptrace_ops"
  te_upoken :: "'k upoken"
  te_clock :: clock
  te_SEN_printargs :: nat
  te_needs_set_error :: bool

type_synonym 'k inj_state = "'k sysst \<times> delay_timer \<times> tcb"

definition tcb_inject_opts :: "'a arch_scheme \<Rightarrow> nat \<Rightarrow> tcb \<Rightarrow> inject_opts option" where
  "tcb_inject_opts A pers tcp =
     (if scno_pers_in_range A (unat (t_scno tcp)) pers
      then map_option (\<lambda>v. v ! unat (t_scno tcp)) (t_inject_vec tcp ! pers) else None)"

text \<open>One occurrence of the call: the counters afterwards, and whether this one is tampered with.\<close>

definition count_occurrence :: "inject_opts \<Rightarrow> inject_opts \<times> bool" where
  "count_occurrence opts =
     (if first opts = 0 \<or> last_occ opts = 0 then (opts, False)
      else let opts = (if last_occ opts \<noteq> INJECT_LAST_INF then opts\<lparr>last_occ := last_occ opts - 1\<rparr> else opts);
               opts = opts\<lparr>first := first opts - 1\<rparr>
           in if first opts \<noteq> 0 then (opts, False) else (opts\<lparr>first := step opts\<rparr>, True))"

definition set_tcb_opts :: "nat \<Rightarrow> inject_opts \<Rightarrow> tcb \<Rightarrow> tcb" where
  "set_tcb_opts pers opts tcp =
     tcp\<lparr>t_inject_vec := (t_inject_vec tcp)
       [pers := map_option (\<lambda>v. v[unat (t_scno tcp) := opts]) (t_inject_vec tcp ! pers)]\<rparr>"

definition tamper_scno ::
    "'a arch_scheme \<Rightarrow> 'k tamper_env \<Rightarrow> inject_tables \<Rightarrow> inject_opts \<Rightarrow> 'k inj_state \<Rightarrow> die + 'k inj_state" where
  "tamper_scno A TE T opts = (\<lambda>(st, dt, tcp).
     let pers = current_personality st;
         scno = (if has_flag INJECT_F_SYSCALL opts
                 then shuffle_scno A pers (word_of_nat (inj_scno (data opts))) else - 1)
     in case set_scno (te_ops TE) scno st of (rc, st) \<Rightarrow>
          if rc < 0 then Inr (st, dt, tcp)
          else let tcp = set_tcb_flag TCB_TAMPERED tcp
               in if scno \<noteq> - 1 then Inr (st, dt, set_tcb_flag TCB_TAMPERED_NO_FAIL tcp)
                  else if te_needs_set_error TE \<and> rc = 0 then
                    rbind (if has_flag INJECT_F_RETVAL opts then Inr 38
                           else retval_get (rval_idx (data opts)) (retval_vec T)) (\<lambda>rval.
                      case set_error (te_ops TE) (te_SEN_printargs TE) rval (st, tcp\<lparr>t_u_error := 0\<rparr>) of
                        (st, tcp) \<Rightarrow> Inr (st, dt, tcp))
                  else Inr (st, dt, tcp))"

definition when_flag ::
    "u8 \<Rightarrow> inject_opts \<Rightarrow> ('k inj_state \<Rightarrow> die + 'k inj_state) \<Rightarrow> 'k inj_state \<Rightarrow> die + 'k inj_state" where
  "when_flag f opts act s = (if has_flag f opts then act s else Inr s)"

definition do_poke ::
    "'k tamper_env \<Rightarrow> inject_tables \<Rightarrow> inject_opts \<Rightarrow> bool \<Rightarrow> 'k inj_state \<Rightarrow> die + 'k inj_state" where
  "do_poke TE T opts enter = (\<lambda>(st, dt, tcp).
     rbind (poke_tcb (te_upoken TE) (te_SEN_printargs TE) (poke_data_vec T) (poke_idx (data opts)) enter (st, tcp))
       (\<lambda>(st, tcp). Inr (st, dt, tcp)))"

definition do_delay ::
    "'k tamper_env \<Rightarrow> inject_tables \<Rightarrow> inject_opts \<Rightarrow> bool \<Rightarrow> 'k inj_state \<Rightarrow> die + 'k inj_state" where
  "do_delay TE T opts enter = (\<lambda>(st, dt, tcp).
     rbind (delay_tcb (te_clock TE) (delay_data_vec T) (delay_idx (data opts)) enter (dt, tcp))
       (\<lambda>(dt, tcp). Inr (st, dt, tcp)))"

definition tamper_actions ::
    "'a arch_scheme \<Rightarrow> 'k tamper_env \<Rightarrow> inject_tables \<Rightarrow> inject_opts \<Rightarrow> 'k inj_state \<Rightarrow> die + 'k inj_state" where
  "tamper_actions A TE T opts s =
     rbind (if has_flag INJECT_F_ERROR opts \<or> has_flag INJECT_F_RETVAL opts
            then tamper_scno A TE T opts s else Inr s) (\<lambda>s.
     rbind (when_flag INJECT_F_POKE_ENTER opts (do_poke TE T opts True) s) (\<lambda>s.
     rbind (when_flag INJECT_F_POKE_EXIT opts
       (\<lambda>(st, dt, tcp). Inr (st, dt, set_tcb_flag TCB_INJECT_POKE_EXIT tcp)) s) (\<lambda>s.
     rbind (when_flag INJECT_F_DELAY_ENTER opts (do_delay TE T opts True) s) (\<lambda>s.
     when_flag INJECT_F_DELAY_EXIT opts
       (\<lambda>(st, dt, tcp). Inr (st, dt, set_tcb_flag TCB_INJECT_DELAY_EXIT tcp)) s))))"

definition tamper_with_syscall_entering ::
    "'a arch_scheme \<Rightarrow> 'k tamper_env \<Rightarrow> filters \<Rightarrow> nat \<Rightarrow> 'k inj_state \<Rightarrow> die + nat \<times> 'k inj_state" where
  "tamper_with_syscall_entering A TE F sig = (\<lambda>(st, dt, tcp).
     let pers = current_personality st;
         tcp = (if t_inject_vec tcp ! pers = None
                then tcp\<lparr>t_inject_vec := (t_inject_vec tcp)[pers := inject_vec F ! pers]\<rparr> else tcp)
     in case tcb_inject_opts A pers tcp of
          None \<Rightarrow> Inr (sig, st, dt, tcp)
        | Some opts \<Rightarrow>
            (case count_occurrence opts of (opts, fire) \<Rightarrow>
               let tcp = set_tcb_opts pers opts tcp
               in if \<not> fire \<or> recovering tcp then Inr (sig, st, dt, tcp)
                  else rbind (tamper_actions A TE (inj_tables F) opts (st, dt, tcp)) (\<lambda>s.
                    Inr (if has_flag INJECT_F_SIGNAL opts then signo (data opts) else sig, s))))"

section \<open>Exit\<close>

definition tamper_with_syscall_exiting ::
    "'a arch_scheme \<Rightarrow> 'k tamper_env \<Rightarrow> filters \<Rightarrow> 'k inj_state \<Rightarrow> die + int \<times> 'k inj_state" where
  "tamper_with_syscall_exiting A TE F = (\<lambda>(st, dt, tcp).
     case tcb_inject_opts A (current_personality st) tcp of
       None \<Rightarrow> Inr (0, st, dt, tcp)
     | Some opts \<Rightarrow>
         rbind (if has TCB_INJECT_POKE_EXIT tcp then do_poke TE (inj_tables F) opts False (st, dt, tcp)
                else Inr (st, dt, tcp)) (\<lambda>(st, dt, tcp).
         rbind (if has TCB_INJECT_DELAY_EXIT tcp then do_delay TE (inj_tables F) opts False (st, dt, tcp)
                else Inr (st, dt, tcp)) (\<lambda>(st, dt, tcp).
         if \<not> syscall_tampered tcp then Inr (0, st, dt, tcp)
         else if (\<not> syserror tcp) \<noteq> syscall_tampered_nofail tcp then Inr (1, st, dt, tcp)
         else rbind (retval_get (rval_idx (data opts)) (retval_vec (inj_tables F))) (\<lambda>rval.
           let r = (if has_flag INJECT_F_RETVAL opts
                    then set_success (te_ops TE) (te_SEN_printargs TE) rval (st, tcp)
                    else set_error (te_ops TE) (te_SEN_printargs TE) rval (st, tcp))
           in Inr (0, fst r, dt, snd r)))))"

definition syscall_exiting_finish :: "bool \<Rightarrow> tcb \<Rightarrow> tcb" where
  "syscall_exiting_finish cflag tcp =
     (let tcp = clear_tcb_flag (TCB_INSYSCALL OR TCB_TAMPERED OR TCB_INJECT_DELAY_EXIT OR
            TCB_INJECT_POKE_EXIT OR TCB_TAMPERED_DELAYED OR TCB_TAMPERED_POKED) tcp;
          tcp = tcp\<lparr>t_sys_func_rval := 0\<rparr>
      in if cflag then tcp\<lparr>t_ltime := t_stime tcp\<rparr> else tcp)"

section \<open>Which occurrences are tampered with\<close>

definition after_occurrences :: "nat \<Rightarrow> inject_opts \<Rightarrow> inject_opts" where
  "after_occurrences n = (fst \<circ> count_occurrence) ^^ n"

lemma after_occurrences_Suc:
  "after_occurrences (Suc n) opts = after_occurrences n (fst (count_occurrence opts))"
  by (simp add: after_occurrences_def funpow_swap1)

lemma dvd_Suc_minus:
  "s \<noteq> 0 \<and> s \<le> Suc n \<and> (Suc n = s \<or> s dvd Suc n - s) \<longleftrightarrow> 0 < s \<and> s dvd Suc n"
  by (auto simp: dvd_minus_self dest: dvd_imp_le)

text \<open>C17: With the options \<^verbatim>\<open>when=FIRST..LAST+STEP\<close> of an injection, occurrence number \<open>n + 1\<close> of the
  call in a process is tampered with exactly when it lies between \<^verbatim>\<open>FIRST\<close> and \<^verbatim>\<open>LAST\<close> and is
  \<^verbatim>\<open>FIRST\<close> itself or a multiple of a positive \<^verbatim>\<open>STEP\<close> away from it.\<close>

theorem when_occurrences:
  assumes "last_occ opts \<le> INJECT_LAST_INF"
  shows "snd (count_occurrence (after_occurrences n opts)) \<longleftrightarrow>
    first opts \<noteq> 0 \<and> first opts \<le> n + 1 \<and> (last_occ opts = INJECT_LAST_INF \<or> n + 1 \<le> last_occ opts) \<and>
    (n + 1 = first opts \<or> 0 < step opts \<and> step opts dvd n + 1 - first opts)"
  using assms
proof (induction n arbitrary: opts)
  case 0
  then show ?case
    by (auto simp: after_occurrences_def count_occurrence_def Let_def)
next
  case (Suc n)
  let ?o = "fst (count_occurrence opts)"
  have le: "last_occ ?o \<le> INJECT_LAST_INF"
    using Suc.prems by (auto simp: count_occurrence_def Let_def)
  consider "first opts = 0 \<or> last_occ opts = 0" | "first opts = 1" "last_occ opts \<noteq> 0"
    | m where "first opts = Suc (Suc m)" "last_occ opts \<noteq> 0"
    by (metis One_nat_def not0_implies_Suc)
  then show ?case
  proof cases
    case 1
    then have "?o = opts" by (auto simp: count_occurrence_def)
    then show ?thesis using Suc 1 by (auto simp: after_occurrences_Suc)
  next
    case 2
    then have "first ?o = step opts" "step ?o = step opts"
      "last_occ ?o = (if last_occ opts = INJECT_LAST_INF then INJECT_LAST_INF else last_occ opts - 1)"
      by (auto simp: count_occurrence_def Let_def)
    then show ?thesis
      using Suc.IH [OF le] Suc.prems 2 dvd_Suc_minus [of "step opts" n]
      by (auto simp: after_occurrences_Suc)
  next
    case 3
    then have "first ?o = Suc m" "step ?o = step opts"
      "last_occ ?o = (if last_occ opts = INJECT_LAST_INF then INJECT_LAST_INF else last_occ opts - 1)"
      by (auto simp: count_occurrence_def Let_def)
    then show ?thesis
      using Suc.IH [OF le] Suc.prems 3 by (auto simp: after_occurrences_Suc)
  qed
qed

theorem when_occurrences_witness:
  "snd (count_occurrence (after_occurrences 4 (init_opts\<lparr>first := 2, last_occ := 6, step := 3\<rparr>))) \<and>
   \<not> snd (count_occurrence (after_occurrences 7 (init_opts\<lparr>first := 2, last_occ := 6, step := 3\<rparr>)))"
  using when_occurrences [of "init_opts\<lparr>first := 2, last_occ := 6, step := 3\<rparr>"]
  by (simp add: init_opts_def)

section \<open>Tampering does not abort\<close>

definition data_ok :: "inject_tables \<Rightarrow> inject_opts \<Rightarrow> bool" where
  "data_ok T fo \<longleftrightarrow>
     idx_ok (has_flag INJECT_F_ERROR fo \<or> has_flag INJECT_F_RETVAL fo)
       (rval_idx (data fo)) (used (retval_vec T)) \<and>
     idx_ok (has_flag INJECT_F_DELAY_ENTER fo \<or> has_flag INJECT_F_DELAY_EXIT fo)
       (delay_idx (data fo)) (used (delay_data_vec T)) \<and>
     idx_ok (has_flag INJECT_F_POKE_ENTER fo \<or> has_flag INJECT_F_POKE_EXIT fo)
       (poke_idx (data fo)) (used (poke_data_vec T))"

lemma opts_ok_data: "opts_ok n T fo \<Longrightarrow> data_ok T fo"
  by (simp add: opts_ok_def data_ok_def)

lemma data_ok_cong: "data fo = data fo' \<Longrightarrow> data_ok T fo \<longleftrightarrow> data_ok T fo'"
  by (simp add: data_ok_def has_flag_def)

lemma data_count [simp]: "data (fst (count_occurrence opts)) = data opts"
  by (simp add: count_occurrence_def Let_def)

definition clock_ok :: "clock \<Rightarrow> bool" where
  "clock_ok clk \<longleftrightarrow> (\<forall>dt. clk_remaining clk dt \<noteq> None) \<and> clk_create_ok clk \<and> clk_settime_ok clk"

text \<open>
  What an action leaves alone: the personality, the number and the counters of the call, and every
  flag outside \<open>f\<close>.
\<close>

definition frame :: "u32 \<Rightarrow> 'k inj_state \<Rightarrow> 'k inj_state \<Rightarrow> bool" where
  "frame f s s' \<longleftrightarrow> (case (s, s') of ((st, dt, tcp), (st', dt', tcp')) \<Rightarrow>
     current_personality st' = current_personality st \<and> t_scno tcp' = t_scno tcp \<and>
     t_inject_vec tcp' = t_inject_vec tcp \<and> (\<forall>h. has h tcp' \<longrightarrow> has h tcp \<or> f AND h \<noteq> 0))"

definition acts :: "u32 \<Rightarrow> 'k inj_state \<Rightarrow> die + 'k inj_state \<Rightarrow> bool" where
  "acts f s r \<longleftrightarrow> (\<exists>s'. r = Inr s' \<and> frame f s s')"

lemma frame_refl: "frame f s s"
  by (auto simp: frame_def split: prod.splits)

lemma frame_mono: "frame f s s' \<Longrightarrow> f AND NOT g = 0 \<Longrightarrow> frame g s s'"
proof -
  assume "f AND NOT g = 0"
  then have "f = f AND g"
    by (auto simp: bit_eq_iff [where ?'a = "32 word"] bit_simps)
  then have "f AND h = f AND (g AND h)" for h by (metis and.assoc)
  then have "f AND h \<noteq> 0 \<Longrightarrow> g AND h \<noteq> 0" for h by (metis and_zero_eq)
  then show "frame f s s' \<Longrightarrow> ?thesis" by (force simp: frame_def split: prod.splits)
qed

lemma frame_trans: "frame f s s' \<Longrightarrow> frame g s' s'' \<Longrightarrow> frame (f OR g) s s''"
  by (force simp: frame_def or_and_eq_0 split: prod.splits)

lemma acts_rbind:
  assumes "acts f s r" "\<And>s'. frame f s s' \<Longrightarrow> acts g s' (k s')"
  shows "acts (f OR g) s (rbind r k)"
  using assms frame_trans unfolding acts_def by (metis rbind_simps(2))

lemma acts_Inr: "acts f s (Inr s)"
  by (auto simp: acts_def frame_refl)

lemma acts_flag: "acts f (st, dt, tcp) (Inr (st, dt, set_tcb_flag f tcp))"
  by (auto simp: acts_def frame_def tcb_simps)

lemma acts_when:
  assumes "has_flag g opts \<Longrightarrow> acts f s (act s)"
  shows "acts (if has_flag g opts then f else 0) s (when_flag g opts act s)"
  using assms by (simp add: when_flag_def acts_Inr)

lemma delayed_flags: "(0xC000 :: u32) AND h = 0 \<longleftrightarrow> TCB_DELAYED AND h = 0 \<and> TCB_TAMPERED_DELAYED AND h = 0"
proof -
  have "(0xC000 :: u32) = TCB_DELAYED OR TCB_TAMPERED_DELAYED" by simp
  then show ?thesis by (simp only: or_and_eq_0)
qed

lemma acts_delay:
  assumes "delay_idx (data opts) < used (delay_data_vec T)" "clock_ok (te_clock TE)"
  shows "acts (TCB_DELAYED OR TCB_TAMPERED_DELAYED) s (do_delay TE T opts enter s)"
proof -
  obtain st dt tcp where s: "s = (st, dt, tcp)" by (cases s)
  define t where "t = arena (delay_data_vec T) ! delay_idx (data opts)"
  define tcp' where "tcp' = (set_tcb_flag TCB_TAMPERED_DELAYED (set_tcb_flag TCB_DELAYED tcp))
    \<lparr>t_delay_expiration_time := ts_add (clk_now (te_clock TE)) (if enter then ts_enter t else ts_exit t)\<rparr>"
  obtain r where "clk_remaining (te_clock TE) dt = Some r" using assms(2) by (auto simp: clock_ok_def)
  then have "\<exists>dt'. do_delay TE T opts enter s = Inr (st, dt', tcp')"
    using assms
    by (auto simp: s do_delay_def delay_tcb_def arm_delay_timer_def clock_ok_def Let_def t_def tcp'_def)
  moreover have "frame (TCB_DELAYED OR TCB_TAMPERED_DELAYED) s (st, dt', tcp')" for dt'
    by (auto simp: s frame_def tcp'_def has_def set_tcb_flag_def or_and_eq_0 delayed_flags)
  ultimately show ?thesis by (auto simp: acts_def)
qed

lemma acts_poke:
  assumes "poke_idx (data opts) < used (poke_data_vec T)"
  shows "acts TCB_TAMPERED_POKED s (do_poke TE T opts enter s)"
  using assms
  by (auto simp: acts_def do_poke_def poke_tcb_def frame_def tcb_simps split: prod.splits)

lemma set_scno_personality: "set_scno K scno st = (rc, st') \<Longrightarrow> current_personality st' = current_personality st"
  by (auto simp: set_scno_def poke_def Let_def split: if_splits option.splits)

lemma get_error_frame:
  "t_flags (get_error K b st tcp) = t_flags tcp" "t_scno (get_error K b st tcp) = t_scno tcp"
  "t_inject_vec (get_error K b st tcp) = t_inject_vec tcp"
  by (simp_all add: get_error_def arch_get_error_def Let_def)

lemma arch_set_result_personality:
  "current_personality (snd (arch_set_result K p v st)) = current_personality st"
  by (simp add: arch_set_result_def poke_def split: option.splits)

lemma set_error_frame:
  "frame 0 (st, dt, tcp) (fst (set_error K P e (st, tcp)), dt, snd (set_error K P e (st, tcp)))"
  using arch_set_result_personality [of K "t_currpers tcp" "- e" st]
  by (auto simp: set_error_def frame_def has_def Let_def get_error_frame arch_set_error_def
      split: prod.splits option.splits)

lemma set_success_frame:
  "frame 0 (st, dt, tcp) (fst (set_success K P e (st, tcp)), dt, snd (set_success K P e (st, tcp)))"
  using arch_set_result_personality [of K "t_currpers tcp" e st]
  by (auto simp: set_success_def frame_def has_def Let_def get_error_frame arch_set_success_def
      split: prod.splits option.splits)

lemma retval_get_Inr: "i < used t \<Longrightarrow> \<exists>v. retval_get i t = Inr v"
  by (simp add: retval_get_def)

lemma acts_mono: "acts f s r \<Longrightarrow> f AND NOT g = 0 \<Longrightarrow> acts g s r"
  using frame_mono unfolding acts_def by blast

lemma tampered_flags: "(0x20040 :: u32) AND h = 0 \<longleftrightarrow> TCB_TAMPERED AND h = 0 \<and> TCB_TAMPERED_NO_FAIL AND h = 0"
proof -
  have "(0x20040 :: u32) = TCB_TAMPERED OR TCB_TAMPERED_NO_FAIL" by simp
  then show ?thesis by (simp only: or_and_eq_0)
qed

lemma acts_scno:
  assumes "rval_idx (data opts) < used (retval_vec T)"
  shows "acts (TCB_TAMPERED OR TCB_TAMPERED_NO_FAIL) s (tamper_scno A TE T opts s)"
proof -
  obtain st dt tcp where s: "s = (st, dt, tcp)" by (cases s)
  let ?scno = "if has_flag INJECT_F_SYSCALL opts
    then shuffle_scno A (current_personality st) (word_of_nat (inj_scno (data opts))) else - 1"
  obtain rc st' where set: "set_scno (te_ops TE) ?scno st = (rc, st')" by fastforce
  note pers = set_scno_personality [OF set]
  obtain v where v: "retval_get (rval_idx (data opts)) (retval_vec T) = Inr v"
    using retval_get_Inr [OF assms] by blast
  have e: "frame 0 (st', dt, (set_tcb_flag TCB_TAMPERED tcp)\<lparr>t_u_error := 0\<rparr>) (st'', dt, tcp'')"
    if "set_error (te_ops TE) (te_SEN_printargs TE) r (st', (set_tcb_flag TCB_TAMPERED tcp)\<lparr>t_u_error := 0\<rparr>) =
      (st'', tcp'')" for r st'' tcp''
    using set_error_frame [of st' dt "(set_tcb_flag TCB_TAMPERED tcp)\<lparr>t_u_error := 0\<rparr>"] that
    by (metis fst_conv snd_conv)
  have f: "frame (TCB_TAMPERED OR TCB_TAMPERED_NO_FAIL) s (st'', dt, tcp'')"
    if "frame 0 (st', dt, (set_tcb_flag TCB_TAMPERED tcp)\<lparr>t_u_error := 0\<rparr>) (st'', dt, tcp'')" for st'' tcp''
    using that pers
    by (auto simp: s frame_def has_def set_tcb_flag_def or_and_eq_0 tampered_flags)
  show ?thesis
    using pers set v e [THEN f]
    by (auto simp: s acts_def tamper_scno_def Let_def frame_def tcb_simps tampered_flags
        split: prod.splits)
qed

definition action_flags :: "inject_opts \<Rightarrow> u32" where
  "action_flags opts =
     (if has_flag INJECT_F_ERROR opts \<or> has_flag INJECT_F_RETVAL opts
      then TCB_TAMPERED OR TCB_TAMPERED_NO_FAIL else 0) OR
     ((if has_flag INJECT_F_POKE_ENTER opts then TCB_TAMPERED_POKED else 0) OR
     ((if has_flag INJECT_F_POKE_EXIT opts then TCB_INJECT_POKE_EXIT else 0) OR
     ((if has_flag INJECT_F_DELAY_ENTER opts then TCB_DELAYED OR TCB_TAMPERED_DELAYED else 0) OR
      (if has_flag INJECT_F_DELAY_EXIT opts then TCB_INJECT_DELAY_EXIT else 0))))"

lemma acts_tamper:
  fixes s :: "'k inj_state"
  assumes "data_ok T opts" "clock_ok (te_clock TE)"
  shows "acts (action_flags opts) s (tamper_actions A TE T opts s)"
proof -
  have scno: "acts (if has_flag INJECT_F_ERROR opts \<or> has_flag INJECT_F_RETVAL opts
      then TCB_TAMPERED OR TCB_TAMPERED_NO_FAIL else 0) s
    (if has_flag INJECT_F_ERROR opts \<or> has_flag INJECT_F_RETVAL opts then tamper_scno A TE T opts s else Inr s)"
    using assms(1) acts_scno [of opts T s A TE] by (simp add: data_ok_def idx_ok_def acts_Inr)
  have poke: "acts TCB_TAMPERED_POKED s' (do_poke TE T opts True s')"
    if "has_flag INJECT_F_POKE_ENTER opts" for s' :: "'k inj_state"
    using assms(1) that by (intro acts_poke) (simp add: data_ok_def idx_ok_def)
  have delay: "acts (TCB_DELAYED OR TCB_TAMPERED_DELAYED) s' (do_delay TE T opts True s')"
    if "has_flag INJECT_F_DELAY_ENTER opts" for s' :: "'k inj_state"
    using assms that by (intro acts_delay) (simp_all add: data_ok_def idx_ok_def)
  have flag: "acts f s' ((\<lambda>(st, dt, tcp). Inr (st, dt, set_tcb_flag f tcp)) s')" for f and s' :: "'k inj_state"
    by (cases s') (simp only: acts_flag prod.case)
  show ?thesis
    unfolding action_flags_def tamper_actions_def
    by (intro acts_rbind acts_when scno poke delay flag)
qed

lemma action_flags_test:
  "action_flags opts AND TCB_TAMPERED \<noteq> 0 \<longleftrightarrow> has_flag INJECT_F_ERROR opts \<or> has_flag INJECT_F_RETVAL opts"
  "action_flags opts AND TCB_INJECT_POKE_EXIT \<noteq> 0 \<longleftrightarrow> has_flag INJECT_F_POKE_EXIT opts"
  "action_flags opts AND TCB_INJECT_DELAY_EXIT \<noteq> 0 \<longleftrightarrow> has_flag INJECT_F_DELAY_EXIT opts"
  by (simp_all add: action_flags_def or_and_eq_0)

text \<open>
  The counters of a process belong to the vectors of the filters; between entry and exit the flags
  of the block only ask for what the options announce.
\<close>

definition tcb_inj_ok :: "'a env_scheme \<Rightarrow> filters \<Rightarrow> tcb \<Rightarrow> bool" where
  "tcb_inj_ok E F tcp \<longleftrightarrow> length (t_inject_vec tcp) = SUPPORTED_PERSONALITIES E \<and>
     (\<forall>p < SUPPORTED_PERSONALITIES E. \<forall>v. t_inject_vec tcp ! p = Some v \<longrightarrow>
        (\<exists>w. inject_vec F ! p = Some w \<and> length v = length w \<and> (\<forall>i < length w. data (v ! i) = data (w ! i))))"

definition exit_ok :: "'a arch_scheme \<Rightarrow> inject_tables \<Rightarrow> nat \<Rightarrow> tcb \<Rightarrow> bool" where
  "exit_ok A T pers tcp \<longleftrightarrow> (\<forall>opts. tcb_inject_opts A pers tcp = Some opts \<longrightarrow>
     data_ok T opts \<and>
     (has TCB_TAMPERED tcp \<longrightarrow> has_flag INJECT_F_ERROR opts \<or> has_flag INJECT_F_RETVAL opts) \<and>
     (has TCB_INJECT_POKE_EXIT tcp \<longrightarrow> has_flag INJECT_F_POKE_EXIT opts) \<and>
     (has TCB_INJECT_DELAY_EXIT tcp \<longrightarrow> has_flag INJECT_F_DELAY_EXIT opts))"

lemma frame_has: "frame f (st, dt, tcp) (st', dt', tcp') \<Longrightarrow> f AND h = 0 \<Longrightarrow> has h tcp' \<Longrightarrow> has h tcp"
  by (auto simp: frame_def)

lemma exiting_acts:
  assumes "exit_ok A (inj_tables F) (current_personality st) tcp" "clock_ok (te_clock TE)"
  shows "\<exists>rc s'. tamper_with_syscall_exiting A TE F (st, dt, tcp) = Inr (rc, s')"
proof (cases "tcb_inject_opts A (current_personality st) tcp")
  case None
  then show ?thesis by (simp add: tamper_with_syscall_exiting_def)
next
  case (Some opts)
  let ?T = "inj_tables F"
  have ok: "data_ok ?T opts" and
    flags: "has TCB_TAMPERED tcp \<Longrightarrow> has_flag INJECT_F_ERROR opts \<or> has_flag INJECT_F_RETVAL opts"
      "has TCB_INJECT_POKE_EXIT tcp \<Longrightarrow> has_flag INJECT_F_POKE_EXIT opts"
      "has TCB_INJECT_DELAY_EXIT tcp \<Longrightarrow> has_flag INJECT_F_DELAY_EXIT opts"
    using assms(1) Some by (auto simp: exit_ok_def)
  have "acts TCB_TAMPERED_POKED (st, dt, tcp) (if has TCB_INJECT_POKE_EXIT tcp
      then do_poke TE ?T opts False (st, dt, tcp) else Inr (st, dt, tcp))"
    using ok flags(2) acts_poke [of opts ?T "(st, dt, tcp)" TE False]
    by (auto simp: data_ok_def idx_ok_def acts_Inr)
  then obtain st1 dt1 tcp1 where 1: "(if has TCB_INJECT_POKE_EXIT tcp
      then do_poke TE ?T opts False (st, dt, tcp) else Inr (st, dt, tcp)) = Inr (st1, dt1, tcp1)"
    and f1: "frame TCB_TAMPERED_POKED (st, dt, tcp) (st1, dt1, tcp1)"
    by (auto simp: acts_def)
  have "acts (TCB_DELAYED OR TCB_TAMPERED_DELAYED) (st1, dt1, tcp1) (if has TCB_INJECT_DELAY_EXIT tcp1
      then do_delay TE ?T opts False (st1, dt1, tcp1) else Inr (st1, dt1, tcp1))"
    using ok flags(3) frame_has [OF f1, of TCB_INJECT_DELAY_EXIT] assms(2)
      acts_delay [of opts ?T TE "(st1, dt1, tcp1)" False]
    by (auto simp: data_ok_def idx_ok_def acts_Inr)
  then obtain st2 dt2 tcp2 where 2: "(if has TCB_INJECT_DELAY_EXIT tcp1
      then do_delay TE ?T opts False (st1, dt1, tcp1) else Inr (st1, dt1, tcp1)) = Inr (st2, dt2, tcp2)"
    and f2: "frame (TCB_DELAYED OR TCB_TAMPERED_DELAYED) (st1, dt1, tcp1) (st2, dt2, tcp2)"
    by (auto simp: acts_def)
  have "syscall_tampered tcp2 \<Longrightarrow> rval_idx (data opts) < used (retval_vec ?T)"
    using flags(1) frame_has [OF f2, of TCB_TAMPERED] frame_has [OF f1, of TCB_TAMPERED] ok
    by (auto simp: data_ok_def idx_ok_def)
  then show ?thesis
    using retval_get_Inr [of "rval_idx (data opts)" "retval_vec ?T"]
    by (auto simp: tamper_with_syscall_exiting_def Some 1 2 Let_def)
qed

lemma tcb_inj_ok_copy:
  assumes "tcb_inj_ok E F tcp" "p < SUPPORTED_PERSONALITIES E"
  shows "tcb_inj_ok E F (tcp\<lparr>t_inject_vec := (t_inject_vec tcp)[p := inject_vec F ! p]\<rparr>)"
  using assms by (auto simp: tcb_inj_ok_def nth_list_update)

lemma opts_of_injected:
  assumes "inj_inv E F" "tcb_inj_ok E F tcp" "p < SUPPORTED_PERSONALITIES E"
    and "injected F p (unat (t_scno tcp))" "tcb_inject_opts E p tcp = Some opts"
  shows "data_ok (inj_tables F) opts"
    and "data opts' = data opts \<Longrightarrow> tcb_inj_ok E F (set_tcb_opts p opts' tcp) \<and>
      tcb_inject_opts E p (set_tcb_opts p opts' tcp) = Some opts'"
proof -
  let ?i = "unat (t_scno tcp)"
  obtain v where v: "t_inject_vec tcp ! p = Some v" "opts = v ! ?i" and i: "?i < nsyscall_vec E ! p"
    using assms(5) by (auto simp: tcb_inject_opts_def scno_pers_in_range_def split: if_splits)
  obtain w where w: "inject_vec F ! p = Some w" "length v = length w"
      "\<forall>i < length w. data (v ! i) = data (w ! i)"
    using assms(2,3) v(1) unfolding tcb_inj_ok_def by blast
  have len: "length w = nsyscall_vec E ! p"
    using assms(1,3) w(1) by (auto simp: inj_inv_def inj_vec_ok_def)
  have "opts_ok (nsig_bytes E * 8) (inj_tables F) (inj_entry F p ?i)"
    using assms(1,3,4) by (auto simp: inj_inv_def)
  moreover have "inj_entry F p ?i = w ! ?i" using w(1) by (simp add: inj_entry_def)
  ultimately show "data_ok (inj_tables F) opts"
    using opts_ok_data data_ok_cong [of opts "w ! ?i"] v(2) w(3) i len by metis
  assume "data opts' = data opts"
  then show "tcb_inj_ok E F (set_tcb_opts p opts' tcp) \<and>
      tcb_inject_opts E p (set_tcb_opts p opts' tcp) = Some opts'"
    using assms(2,3) v w i len
    by (auto simp: tcb_inj_ok_def set_tcb_opts_def tcb_inject_opts_def scno_pers_in_range_def nth_list_update)
qed

lemma clean_flags:
  "has (TCB_TAMPERED OR TCB_INJECT_POKE_EXIT OR TCB_INJECT_DELAY_EXIT) tcp \<longleftrightarrow>
     has TCB_TAMPERED tcp \<or> has TCB_INJECT_POKE_EXIT tcp \<or> has TCB_INJECT_DELAY_EXIT tcp"
proof -
  have "f AND (a OR (b OR c)) = 0 \<longleftrightarrow> f AND a = 0 \<and> f AND b = 0 \<and> f AND c = 0" for f a b c :: u32
    by (simp add: bit.conj_disj_distrib or_eq_0_iff)
  then show ?thesis unfolding has_def or.assoc by blast
qed

lemma frame_exit_ok:
  assumes "frame (action_flags opts) (st, dt, tcp) (st', dt', tcp')"
    and "tcb_inject_opts A p tcp = Some opts" "data_ok T opts"
    and "\<not> has (TCB_TAMPERED OR TCB_INJECT_POKE_EXIT OR TCB_INJECT_DELAY_EXIT) tcp"
  shows "exit_ok A T p tcp'"
  using assms action_flags_test [of opts] unfolding clean_flags
  by (auto simp: exit_ok_def frame_def tcb_inject_opts_def)

lemma entering_acts:
  assumes "inj_inv E F" "tcb_inj_ok E F tcp" "current_personality st < SUPPORTED_PERSONALITIES E"
    and "injected F (current_personality st) (unat (t_scno tcp))" "clock_ok (te_clock TE)"
    and "\<not> has (TCB_TAMPERED OR TCB_INJECT_POKE_EXIT OR TCB_INJECT_DELAY_EXIT) tcp"
  shows "\<exists>sig' st' dt' tcp'. tamper_with_syscall_entering E TE F sig (st, dt, tcp) = Inr (sig', st', dt', tcp') \<and>
    current_personality st' = current_personality st \<and>
    exit_ok E (inj_tables F) (current_personality st) tcp' \<and> tcb_inj_ok E F tcp'"
proof -
  let ?p = "current_personality st"
  define tcp1 where "tcp1 = (if t_inject_vec tcp ! ?p = None
    then tcp\<lparr>t_inject_vec := (t_inject_vec tcp)[?p := inject_vec F ! ?p]\<rparr> else tcp)"
  have ok1: "tcb_inj_ok E F tcp1" and scno: "t_scno tcp1 = t_scno tcp" "t_flags tcp1 = t_flags tcp"
    using assms(2,3) tcb_inj_ok_copy by (auto simp: tcp1_def)
  show ?thesis
  proof (cases "tcb_inject_opts E ?p tcp1")
    case None
    then show ?thesis
      using ok1 by (simp add: tamper_with_syscall_entering_def Let_def tcp1_def [symmetric] exit_ok_def)
  next
    case (Some opts0)
    define opts where "opts = fst (count_occurrence opts0)"
    define tcp2 where "tcp2 = set_tcb_opts ?p opts tcp1"
    have d: "data_ok (inj_tables F) opts"
      and ok2: "tcb_inj_ok E F tcp2" "tcb_inject_opts E ?p tcp2 = Some opts"
      using opts_of_injected [OF assms(1) ok1 assms(3) _ Some] assms(4) scno
        data_ok_cong [of opts opts0] by (auto simp: opts_def tcp2_def)
    have clean: "\<not> has (TCB_TAMPERED OR TCB_INJECT_POKE_EXIT OR TCB_INJECT_DELAY_EXIT) tcp2"
      using assms(6) scno(2) by (simp add: has_def tcp2_def set_tcb_opts_def)
    obtain st' dt' tcp' where act: "tamper_actions E TE (inj_tables F) opts (st, dt, tcp2) = Inr (st', dt', tcp')"
      and fr: "frame (action_flags opts) (st, dt, tcp2) (st', dt', tcp')"
      using acts_tamper [OF d assms(5), of "(st, dt, tcp2)" E] by (auto simp: acts_def)
    have "tcb_inj_ok E F tcp'" "current_personality st' = ?p"
      using fr ok2(1) by (auto simp: frame_def tcb_inj_ok_def)
    moreover have "tamper_with_syscall_entering E TE F sig (st, dt, tcp) =
      (if \<not> snd (count_occurrence opts0) \<or> recovering tcp2 then Inr (sig, st, dt, tcp2)
       else rbind (tamper_actions E TE (inj_tables F) opts (st, dt, tcp2)) (\<lambda>s.
         Inr (if has_flag INJECT_F_SIGNAL opts then signo (data opts) else sig, s)))"
      by (simp only: tamper_with_syscall_entering_def Let_def prod.case tcp1_def [symmetric] Some
          option.case case_prod_unfold fst_conv snd_conv opts_def [symmetric] tcp2_def [symmetric])
    ultimately show ?thesis
      using frame_exit_ok [OF fr ok2(2) d clean] frame_exit_ok [OF frame_refl ok2(2) d clean] ok2 act
      by simp
  qed
qed


text \<open>A tracee whose only visible state is the register with the result, and its kernel.\<close>

definition plain_ops :: "bool \<Rightarrow> u64 ptrace_ops" where
  "plain_ops info =
     \<lparr>get_info_supported = info, set_info_supported = info, op_get_syscall_info = (\<lambda>k. None),
      op_set_syscall_info = (\<lambda>s k. Some (if sci_op s = SCI_EXIT then sci_rval s else k)),
      op_getregset = (\<lambda>k. Regset_Gone), op_getregs = (\<lambda>k. None),
      op_upoke = (\<lambda>off v k. Some (if off = OFF_RAX then v else k))\<rparr>"

definition plain_env :: "bool \<Rightarrow> u64 tamper_env" where
  "plain_env info =
     \<lparr>te_ops = plain_ops info, te_upoken = (\<lambda>a bs k. (length bs, k)),
      te_clock = \<lparr>clk_now = zero_ts, clk_remaining = (\<lambda>dt. Some zero_ts), clk_create_ok = True, clk_settime_ok = True\<rparr>,
      te_SEN_printargs = 0, te_needs_set_error = False\<rparr>"

definition plain_state :: "sci_op \<Rightarrow> u64 \<Rightarrow> u64 sysst" where
  "plain_state op k =
     \<lparr>sci = \<lparr>sci_op = op, sci_arch = 0, sci_nr = 1, sci_args = [], sci_is_error = True, sci_rval = k\<rparr>,
      get_regs_error = 0, use_getregs_old = 0,
      regs = X86_64 \<lparr>rax = k, orig_rax = 1, rbx = 0, rcx = 0, rdx = 0, rsi = 0, rdi = 0, rbp = 0,
        r8 = 0, r9 = 0, r10 = 0, cs = 0\<rparr>,
      current_personality = 0, kst = k\<rparr>"

definition plain_tcb :: "u32 \<Rightarrow> u64 \<Rightarrow> inject_opts list option list \<Rightarrow> tcb" where
  "plain_tcb flags err v =
     \<lparr>t_flags = flags, t_pid = 1, t_qual_flg = 0, t_currpers = 0, t_u_error = err, t_scno = 1,
      t_true_scno = 1, t_u_arg = [0, 0, 0, 0, 0, 0], t_u_rval = - 1, t_sys_func_rval = 0, t_s_ent = None,
      t_s_prev_ent = None, t_inject_vec = v, t_stime = zero_ts, t_ltime = zero_ts, t_atime = zero_ts,
      t_etime = zero_ts, t_delay_expiration_time = zero_ts, t_wait_data_idx = 0, t_delayed_wait_data = None\<rparr>"

definition error_opts :: inject_opts where
  "error_opts = init_opts\<lparr>data := (data init_opts)\<lparr>inj_flags := INJECT_F_ERROR\<rparr>\<rparr>"

definition error_filters :: filters where
  "error_filters = (init_filters small_env)
     \<lparr>inject_set := Some [add_number_to_set 1 empty_number_set, empty_number_set],
      inject_vec := [Some [zero_opts, error_opts, zero_opts], None],
      inj_tables := init_tables\<lparr>retval_vec := \<lparr>arena = [5], used = 1\<rparr>\<rparr>\<rparr>"

lemma error_filters_injected:
  assumes "p < 2" shows "injected error_filters p i \<longleftrightarrow> p = 0 \<and> i = 1"
proof -
  have "p = 0 \<or> p = 1" using assms by linarith
  then show ?thesis
    by (auto simp: injected_def error_filters_def is_number_in_set_array_def ns_test_bits)
qed

lemma error_filters_inv: "inj_inv small_env error_filters"
proof -
  have "inj_set_ok small_env [add_number_to_set 1 empty_number_set, empty_number_set]"
    by (auto simp: inj_set_ok_def nsa_wf_def nth_Cons split: nat.splits)
  moreover have "inj_vec_ok small_env (inject_vec error_filters)"
    by (auto simp: inj_vec_ok_def error_filters_def nth_Cons split: nat.splits)
  moreover have "tables_wf (inj_tables error_filters)"
    by (simp add: tables_wf_def error_filters_def init_tables_def table_wf_def empty_table_def)
  moreover have "opts_ok (nsig_bytes small_env * 8) (inj_tables error_filters) (inj_entry error_filters 0 1)"
    by (simp add: opts_ok_def inj_entry_def error_filters_def error_opts_def init_opts_def has_flag_def
        idx_ok_def init_tables_def)
  ultimately show ?thesis
    using error_filters_injected by (auto simp: inj_inv_def) (simp_all add: error_filters_def)
qed


section \<open>What the tracee sees\<close>

text \<open>
  What the two requests that change a result do: \<open>result_of\<close> is the value the call returns to the
  tracee.
\<close>

definition result_laws :: "'k ptrace_ops \<Rightarrow> ('k \<Rightarrow> u64) \<Rightarrow> bool" where
  "result_laws K result_of \<longleftrightarrow>
     (\<forall>s k k'. sci_op s = SCI_EXIT \<longrightarrow> op_set_syscall_info K s k = Some k' \<longrightarrow> result_of k' = sci_rval s) \<and>
     (\<forall>v k k'. op_upoke K OFF_RAX v k = Some k' \<longrightarrow> result_of k' = v)"

text \<open>The fetched registers have the layout of the current personality.\<close>

definition layout_ok :: "'k sysst \<Rightarrow> tcb \<Rightarrow> bool" where
  "layout_ok st tcp \<longleftrightarrow> t_currpers tcp = current_personality st \<and>
     (case regs st of I386 r \<Rightarrow> t_currpers tcp = 1 | X86_64 r \<Rightarrow> t_currpers tcp \<noteq> 1)"

lemma plain_laws: "result_laws (plain_ops info) id"
  by (auto simp: result_laws_def plain_ops_def)

text \<open>Small negative numbers in the three widths the result goes through.\<close>

lemma errno_int:
  fixes e :: u64
  assumes "0 < e" "e \<le> MAX_ERRNO_VALUE64"
  obtains i :: int where "0 < i" "i \<le> 4095" "- e = word_of_int (- i)"
proof
  show "0 < uint e" using assms(1) by (simp add: word_less_def)
  show "uint e \<le> 4095" using assms(2) by (simp add: word_le_def)
  show "- e = word_of_int (- uint e)" by simp
qed

lemma ucast_int: "(ucast (word_of_int i :: u64) :: u32) = word_of_int i"
  by (simp add: unsigned_of_int word_of_int_eq_iff)

lemma scast_int:
  "- 2147483648 \<le> i \<Longrightarrow> i < 2147483648 \<Longrightarrow> (scast (word_of_int i :: u32) :: u64) = word_of_int i"
  by (simp add: signed_of_int signed_take_bit_int_eq_self)

lemma uint_neg:
  assumes "0 < i" "i \<le> (4095 :: int)"
  shows "uint (- word_of_int i :: u64) = 2 ^ 64 - i" "uint (- word_of_int i :: u32) = 2 ^ 32 - i"
proof -
  have "uint (word_of_int i :: u64) = i" "uint (word_of_int i :: u32) = i"
    using assms by (simp_all add: uint_word_of_int)
  then show "uint (- word_of_int i :: u64) = 2 ^ 64 - i" "uint (- word_of_int i :: u32) = 2 ^ 32 - i"
    unfolding uint_word_ariths(4) using assms by (simp_all add: zmod_zminus1_eq_if)
qed

lemma negated_errno:
  assumes "0 < e" "e \<le> MAX_ERRNO_VALUE64"
  shows "is_negated_errno p (- e)"
proof -
  obtain i where i: "0 < i" "i \<le> 4095" "- e = word_of_int (- i)" by (rule errno_int [OF assms])
  have m: "(- MAX_ERRNO_VALUE64 :: u64) = word_of_int (- 4095)" by simp
  show ?thesis
    unfolding is_negated_errno_def i(3) m lo32_def ucast_int
    using i(1,2) uint_neg [OF i(1,2)] uint_neg [of 4095]
    by (simp add: word_le_def unsigned_ucast_eq take_bit_int_eq_self)
qed

lemma arch_get_error_injected:
  assumes "0 < e" "e \<le> MAX_ERRNO_VALUE64" "layout_ok st tcp"
  shows "arch_get_error True (st\<lparr>regs := set_result_reg (t_currpers tcp) (- e) (regs st), kst := k\<rparr>) tcp =
    tcp\<lparr>t_u_rval := - 1, t_u_error := e\<rparr>"
proof -
  obtain i where i: "0 < i" "i \<le> 4095" "- e = word_of_int (- i)" by (rule errno_int [OF assms(1,2)])
  have "scast (ucast (- e) :: u32) = - e"
    unfolding i(3) ucast_int using i(1,2) by (intro scast_int) auto
  then show ?thesis
    using assms(3) negated_errno [OF assms(1,2)]
    by (auto simp: arch_get_error_def layout_ok_def set_result_reg_def split: x86_regs.splits)
qed

lemma result_lawsD:
  assumes "result_laws K result_of"
  shows "sci_op s = SCI_EXIT \<Longrightarrow> op_set_syscall_info K s k = Some k' \<Longrightarrow> result_of k' = sci_rval s"
    and "op_upoke K OFF_RAX v k = Some k' \<Longrightarrow> result_of k' = v"
  using assms by (auto simp: result_laws_def)

lemma layout_ok_cong: "t_currpers tcp' = t_currpers tcp \<Longrightarrow> layout_ok st tcp' \<longleftrightarrow> layout_ok st tcp"
  by (simp add: layout_ok_def split: x86_regs.splits)

lemma set_error_effect:
  assumes "result_laws K result_of" "layout_ok st tcp" "0 < e" "e \<le> MAX_ERRNO_VALUE64" "t_u_error tcp \<noteq> e"
    and "sys_flags (tcp_sysent P tcp) AND SYSCALL_NEVER_FAILS = 0"
    and "set_error K P e (st, tcp) = (st', tcp')"
  shows "t_u_error tcp' = e \<and> t_u_rval tcp' = - 1 \<and> result_of (kst st') = - e \<or>
    t_u_error tcp' = t_u_error tcp \<and> t_u_rval tcp' = t_u_rval tcp \<and> kst st' = kst st"
proof -
  let ?tcp = "tcp\<lparr>t_u_error := e\<rparr>" and ?s = "(sci st)\<lparr>sci_is_error := True, sci_rval := - e\<rparr>"
  let ?info = "if set_info_supported K \<and> ptrace_syscall_info_is_exit K st
    then op_set_syscall_info K ?s (kst st) else None"
  let ?regs = "set_result_reg (t_currpers tcp) (- e) (regs st)"
  have nf: "sys_flags (tcp_sysent P ?tcp) AND SYSCALL_NEVER_FAILS = 0"
    using assms(6) by (simp add: tcp_sysent_def)
  have go: "\<not> (e = t_u_error tcp \<or> e > MAX_ERRNO_VALUE64)" using assms(4,5) by auto
  show ?thesis
  proof (cases ?info)
    case (Some k)
    then have "sci_op ?s = SCI_EXIT" "op_set_syscall_info K ?s (kst st) = Some k"
      by (auto simp: ptrace_syscall_info_is_exit_def split: if_splits)
    then have "result_of k = - e" using result_lawsD(1) [OF assms(1)] by fastforce
    moreover have "set_error K P e (st, tcp) = (st\<lparr>sci := ?s, kst := k\<rparr>, ?tcp\<lparr>t_u_rval := - 1\<rparr>)"
      using go Some by (simp add: set_error_def Let_def)
    ultimately show ?thesis using assms(7) by auto
  next
    case None
    show ?thesis
    proof (cases "op_upoke K OFF_RAX (- e) (kst st)")
      case poke: None
      then have "set_error K P e (st, tcp) = (st\<lparr>regs := ?regs\<rparr>, tcp)"
        using go None by (simp add: set_error_def Let_def arch_set_error_def arch_set_result_def poke_def)
      then show ?thesis using assms(7) by auto
    next
      case poke: (Some k)
      let ?st = "st\<lparr>regs := ?regs, kst := k\<rparr>"
      have "arch_get_error True ?st (?tcp\<lparr>t_u_error := 0\<rparr>) = ?tcp\<lparr>t_u_rval := - 1, t_u_error := e\<rparr>"
        using arch_get_error_injected [OF assms(3,4), of st "?tcp\<lparr>t_u_error := 0\<rparr>" k]
          layout_ok_cong [of "?tcp\<lparr>t_u_error := 0\<rparr>" tcp st] assms(2) by simp
      then have "ptrace_syscall_info_is_valid K ?st \<or>
          get_error K True ?st ?tcp = ?tcp\<lparr>t_u_rval := - 1, t_u_error := e\<rparr>"
        by (auto simp: get_error_def ptrace_syscall_info_is_valid_def ptrace_syscall_info_is_exit_def)
      then have "set_error K P e (st, tcp) = (?st, ?tcp\<lparr>t_u_rval := - 1\<rparr>)"
        using go None poke nf
        by (auto simp: set_error_def Let_def arch_set_error_def arch_set_result_def poke_def)
      moreover have "result_of k = - e" using result_lawsD(2) [OF assms(1) poke] .
      ultimately show ?thesis using assms(7) by auto
    qed
  qed
qed



text \<open>C40: The flag that a replaced system call must not fail is never cleared: it survives the end
  of the call, and at the exit of any later call of the process that is tampered with for an error
  and did fail, tampering is given up and the result stays.\<close>

theorem nofail_flag_outlives_call:
  assumes "syscall_tampered_nofail tcp" "syscall_tampered_nofail tcp2" "syscall_tampered tcp2" "syserror tcp2"
    and "\<not> has TCB_INJECT_POKE_EXIT tcp2" "\<not> has TCB_INJECT_DELAY_EXIT tcp2"
    and "tcb_inject_opts A (current_personality st) tcp2 = Some opts"
  shows "syscall_tampered_nofail (syscall_exiting_finish cflag tcp) \<and>
    tamper_with_syscall_exiting A TE F (st, dt, tcp2) = Inr (1, st, dt, tcp2)"
proof -
  have "has TCB_TAMPERED_NO_FAIL (syscall_exiting_finish cflag tcp) \<longleftrightarrow> has TCB_TAMPERED_NO_FAIL tcp"
    using has_clear_disjoint [of "TCB_INSYSCALL OR TCB_TAMPERED OR TCB_INJECT_DELAY_EXIT OR
        TCB_INJECT_POKE_EXIT OR TCB_TAMPERED_DELAYED OR TCB_TAMPERED_POKED" TCB_TAMPERED_NO_FAIL tcp]
    by (simp add: syscall_exiting_finish_def has_def Let_def)
  then show ?thesis using assms by (simp add: tamper_with_syscall_exiting_def)
qed

theorem nofail_flag_outlives_call_witness:
  "let tcp2 = plain_tcb (TCB_TAMPERED_NO_FAIL OR TCB_TAMPERED) 38 [Some [zero_opts, error_opts, zero_opts], None];
       dt = \<lparr>timer_created = False, timer_armed = False, timer_at = zero_ts\<rparr>
   in syscall_tampered_nofail (syscall_exiting_finish False tcp2) \<and>
      tamper_with_syscall_exiting small_env (plain_env True) error_filters (plain_state SCI_EXIT (- 38), dt, tcp2) =
        Inr (1, plain_state SCI_EXIT (- 38), dt, tcp2)"
  unfolding Let_def
  by (rule nofail_flag_outlives_call [where opts = error_opts])
    (simp_all add: has_def plain_tcb_def plain_state_def tcb_inject_opts_def scno_pers_in_range_def)

end
