(* ===== verification/List_Item.thy ===== *)
theory List_Item
  imports Prelude
begin

text \<open>
  The circular doubly linked lists of \<^verbatim>\<open>src/src/list.h\<close> over an explicit store of list items. The
  null pointer is address 0. The relation \<open>ring\<close> says which list a head stands for, and the
  operations are shown to be those of a list. Waiting tracees (\<^verbatim>\<open>src/src/strace.c\<close>) and the bytes to
  poke (\<^verbatim>\<open>src/src/poke.c\<close>) are kept in such lists.
\<close>

section \<open>Operations\<close>

type_synonym addr = nat

record list_item =
  prev :: addr
  nxt :: addr

type_synonym heap = "addr \<Rightarrow> list_item"

definition set_prev :: "addr \<Rightarrow> addr \<Rightarrow> heap \<Rightarrow> heap" where
  "set_prev l p h = h(l := (h l)\<lparr>prev := p\<rparr>)"

definition set_next :: "addr \<Rightarrow> addr \<Rightarrow> heap \<Rightarrow> heap" where
  "set_next l n h = h(l := (h l)\<lparr>nxt := n\<rparr>)"

definition list_init :: "addr \<Rightarrow> heap \<Rightarrow> heap" where
  "list_init l h = set_next l l (set_prev l l h)"

definition list_is_empty :: "addr \<Rightarrow> heap \<Rightarrow> bool" where
  "list_is_empty l h \<longleftrightarrow> nxt (h l) = l \<and> prev (h l) = l \<or> nxt (h l) = 0 \<and> prev (h l) = 0"

definition list_insert :: "addr \<Rightarrow> addr \<Rightarrow> heap \<Rightarrow> heap" where
  "list_insert head item h =
     (let h = set_next item (nxt (h head)) h;
          h = set_prev item head h;
          h = set_prev (nxt (h head)) item h
      in set_next head item h)"

definition list_append :: "addr \<Rightarrow> addr \<Rightarrow> heap \<Rightarrow> heap" where
  "list_append head item h =
     (let h = set_next item head h;
          h = set_prev item (prev (h head)) h;
          h = set_next (prev (h head)) item h
      in set_prev head item h)"

definition list_remove :: "addr \<Rightarrow> heap \<Rightarrow> bool \<times> heap" where
  "list_remove item h =
     (if nxt (h item) = 0 \<or> prev (h item) = 0 \<or> list_is_empty item h then (False, h)
      else let h = set_next (prev (h item)) (nxt (h item)) h;
               h = set_prev (nxt (h item)) (prev (h item)) h;
               h = set_prev item item h
           in (True, set_next item item h))"

definition list_remove_tail :: "addr \<Rightarrow> heap \<Rightarrow> addr option \<times> heap" where
  "list_remove_tail head h =
     (if list_is_empty head h then (None, h)
      else let t = prev (h head) in (Some t, snd (list_remove t h)))"

definition list_remove_head :: "addr \<Rightarrow> heap \<Rightarrow> addr option \<times> heap" where
  "list_remove_head head h =
     (if list_is_empty head h then (None, h)
      else let t = nxt (h head) in (Some t, snd (list_remove t h)))"

definition list_replace :: "addr \<Rightarrow> addr \<Rightarrow> heap \<Rightarrow> bool \<times> heap" where
  "list_replace old new h =
     (if nxt (h old) = 0 \<or> prev (h old) = 0 \<or> list_is_empty old h then (False, h)
      else let h = set_next new (nxt (h old)) h;
               h = set_prev new (prev (h old)) h;
               h = set_next (prev (h old)) new h;
               h = set_prev (nxt (h old)) new h;
               h = set_prev old old h
           in (True, set_next old old h))"

text \<open>The items the macro \<^verbatim>\<open>list_foreach\<close> visits, from the item \<open>i\<close> on; it may not return.\<close>

partial_function (option) foreach_from :: "heap \<Rightarrow> addr \<Rightarrow> addr \<Rightarrow> addr list option" where
  "foreach_from h head i =
     (if i = head then Some []
      else Option.bind (foreach_from h head (nxt (h i))) (\<lambda>is. Some (i # is)))"

definition list_foreach :: "addr \<Rightarrow> heap \<Rightarrow> addr list option" where
  "list_foreach head h = foreach_from h head (nxt (h head))"

section \<open>The list of a head\<close>

fun links :: "heap \<Rightarrow> addr list \<Rightarrow> bool" where
  "links h (a # b # as) \<longleftrightarrow> nxt (h a) = b \<and> prev (h b) = a \<and> links h (b # as)"
| "links h _ \<longleftrightarrow> True"

definition ring :: "addr \<Rightarrow> heap \<Rightarrow> addr list \<Rightarrow> bool" where
  "ring head h as \<longleftrightarrow> distinct (head # as) \<and> 0 \<notin> set (head # as) \<and> links h (head # as @ [head])"

lemma sel_set [simp]:
  "nxt (set_next l n h a) = (if a = l then n else nxt (h a))" "prev (set_next l n h a) = prev (h a)"
  "prev (set_prev l n h a) = (if a = l then n else prev (h a))" "nxt (set_prev l n h a) = nxt (h a)"
  by (simp_all add: set_next_def set_prev_def)

lemma set_other [simp]: "a \<noteq> l \<Longrightarrow> set_next l n h a = h a" "a \<noteq> l \<Longrightarrow> set_prev l n h a = h a"
  by (simp_all add: set_next_def set_prev_def)

lemma links_split: "links h (as @ b # cs) \<longleftrightarrow> links h (as @ [b]) \<and> links h (b # cs)"
  by (induction h as rule: links.induct) auto

lemma links_cong:
  "(\<And>a. a \<in> set (butlast as) \<Longrightarrow> nxt (h a) = nxt (h' a)) \<Longrightarrow>
   (\<And>a. a \<in> set (tl as) \<Longrightarrow> prev (h a) = prev (h' a)) \<Longrightarrow> links h as \<longleftrightarrow> links h' as"
  by (induction h as rule: links.induct) auto

text \<open>The pointers of the head and of an item of a ring.\<close>

lemma links_pointers:
  "links h (as @ a # b # bs) \<Longrightarrow> nxt (h a) = b \<and> prev (h b) = a"
  by (simp add: links_split [of h as a "b # bs"])

lemma ring_link:
  assumes "ring head h as" "head # as @ [head] = xs @ a # b # ys"
  shows "nxt (h a) = b" "prev (h b) = a"
  using assms links_pointers [of h xs a b ys] by (simp_all add: ring_def)

lemma hd_snoc: "as @ [l] = hd (as @ [l]) # tl (as @ [l])"
  by (cases as) simp_all

lemma snoc_last: "l # as = butlast (l # as) @ [last (l # as)]"
  by (rule append_butlast_last_id [symmetric]) simp

lemma ring_next: "ring head h as \<Longrightarrow> nxt (h head) = hd (as @ [head])"
  using ring_link(1) [of head h as "[]" head "hd (as @ [head])" "tl (as @ [head])"] hd_snoc [of as head] by simp

lemma ring_prev: "ring head h as \<Longrightarrow> prev (h head) = last (head # as)"
  using ring_link(2) [of head h as "butlast (head # as)" "last (head # as)" head "[]"]
    snoc_last [of head as] by (metis append.assoc append_Cons append_Nil)

lemma ring_item:
  assumes "ring head h (xs @ i # ys)"
  shows "nxt (h i) = hd (ys @ [head])" "prev (h i) = last (head # xs)"
proof -
  have "head # (xs @ i # ys) @ [head] = (head # xs) @ i # hd (ys @ [head]) # tl (ys @ [head])"
    using hd_snoc [of ys head] by simp
  then show "nxt (h i) = hd (ys @ [head])" by (rule ring_link(1) [OF assms])
  have "head # (xs @ i # ys) @ [head] = butlast (head # xs) @ last (head # xs) # i # ys @ [head]"
    using snoc_last [of head xs] by (metis append.assoc append_Cons append_Nil)
  then show "prev (h i) = last (head # xs)" by (rule ring_link(2) [OF assms])
qed

lemma ring_init: "l \<noteq> 0 \<Longrightarrow> ring l (list_init l h) []"
  by (simp add: ring_def list_init_def)

lemma ring_nonzero:
  assumes "ring head h as" shows "nxt (h head) \<noteq> 0" "prev (h head) \<noteq> 0"
proof -
  have "hd (as @ [head]) \<in> set (head # as)" "last (head # as) \<in> set (head # as)"
    by (cases as, simp_all)
  then show "nxt (h head) \<noteq> 0" "prev (h head) \<noteq> 0"
    unfolding ring_next [OF assms] ring_prev [OF assms] using assms unfolding ring_def by metis+
qed

lemma ring_is_empty: "ring head h as \<Longrightarrow> list_is_empty head h \<longleftrightarrow> as = []"
  using ring_nonzero [of head h as] ring_next [of head h as] ring_prev [of head h as]
  by (auto simp: list_is_empty_def ring_def hd_append split: if_splits)

lemma ring_cong:
  assumes "\<And>a. a \<in> set (head # as) \<Longrightarrow> h' a = h a"
  shows "ring head h' as \<longleftrightarrow> ring head h as"
proof -
  have "links h' (head # as @ [head]) \<longleftrightarrow> links h (head # as @ [head])"
    by (rule links_cong) (auto simp: assms butlast_append split: if_splits)
  then show ?thesis by (simp add: ring_def)
qed

text \<open>
  Building a ring in a store \<open>h'\<close> from the two chains of a store \<open>h\<close> before and after a place, with
  the items \<open>is\<close> between them. A new pointer leads from each of them to the next.
\<close>

lemma links_append:
  "links h (as @ [p]) \<Longrightarrow> links h (n # bs) \<Longrightarrow> nxt (h p) = n \<Longrightarrow> prev (h n) = p \<Longrightarrow> links h (as @ p # n # bs)"
  by (simp add: links_split [of h as p "n # bs"])

lemma links_tail: "links h (as @ bs) \<Longrightarrow> links h bs"
  by (induction h as rule: links.induct) (auto, cases bs, auto)

lemma links_front: "links h (as @ bs) \<Longrightarrow> links h as"
  by (induction h as rule: links.induct) auto

definition same_links :: "addr \<Rightarrow> addr list \<Rightarrow> addr list \<Rightarrow> heap \<Rightarrow> heap \<Rightarrow> bool" where
  "same_links head xs ys h h' \<longleftrightarrow>
     (\<forall>a \<in> set (butlast (head # xs)) \<union> set ys. nxt (h' a) = nxt (h a)) \<and>
     (\<forall>a \<in> set xs \<union> set (tl (ys @ [head])). prev (h' a) = prev (h a))"

lemma same_links_chains:
  assumes "same_links head xs ys h h'" "links h (head # xs)" "links h (ys @ [head])"
  shows "links h' (butlast (head # xs) @ [last (head # xs)])" "links h' (hd (ys @ [head]) # tl (ys @ [head]))"
proof -
  have "links h' (head # xs)"
    using assms(2) by (rule iffD2 [OF links_cong, rotated 2]) (use assms(1) in \<open>auto simp: same_links_def\<close>)
  then show "links h' (butlast (head # xs) @ [last (head # xs)])" using snoc_last [of head xs] by simp
  have "links h' (ys @ [head])"
    using assms(3) by (rule iffD2 [OF links_cong, rotated 2]) (use assms(1) in \<open>auto simp: same_links_def\<close>)
  then show "links h' (hd (ys @ [head]) # tl (ys @ [head]))" using hd_snoc [of ys head] by simp
qed

lemma ring_join:
  assumes "same_links head xs ys h h'" "links h (head # xs)" "links h (ys @ [head])"
    and "distinct (head # xs @ ys)" "0 \<notin> set (head # xs @ ys)"
    and "nxt (h' (last (head # xs))) = hd (ys @ [head])" "prev (h' (hd (ys @ [head]))) = last (head # xs)"
  shows "ring head h' (xs @ ys)"
proof -
  have "head # (xs @ ys) @ [head] = butlast (head # xs) @ last (head # xs) # hd (ys @ [head]) # tl (ys @ [head])"
    using snoc_last [of head xs] hd_snoc [of ys head] by (metis append.assoc append_Cons append_Nil)
  then have "links h' (head # (xs @ ys) @ [head])"
    using links_append [OF same_links_chains [OF assms(1-3)] assms(6,7)] by (simp only:)
  then show ?thesis using assms(4,5) by (simp only: ring_def simp_thms)
qed

lemma ring_splice:
  assumes "same_links head xs ys h h'" "links h (head # xs)" "links h (ys @ [head])"
    and "distinct (head # xs @ i # ys)" "0 \<notin> set (head # xs @ i # ys)"
    and "nxt (h' (last (head # xs))) = i" "prev (h' i) = last (head # xs)"
    and "nxt (h' i) = hd (ys @ [head])" "prev (h' (hd (ys @ [head]))) = i"
  shows "ring head h' (xs @ i # ys)"
proof -
  have "head # (xs @ i # ys) @ [head] =
      butlast (head # xs) @ last (head # xs) # i # hd (ys @ [head]) # tl (ys @ [head])"
    using snoc_last [of head xs] hd_snoc [of ys head] by (metis append.assoc append_Cons append_Nil)
  moreover have "links h' (i # hd (ys @ [head]) # tl (ys @ [head]))"
    using same_links_chains(2) [OF assms(1-3)] assms(8,9) by (simp only: links.simps simp_thms)
  ultimately have "links h' (head # (xs @ i # ys) @ [head])"
    using links_append [OF same_links_chains(1) [OF assms(1-3)] _ assms(6,7)] by (simp only:)
  then show ?thesis using assms(4,5) by (simp only: ring_def simp_thms)
qed

lemma ring_chains:
  "ring head h (xs @ ys) \<Longrightarrow> links h (head # xs)" "ring head h (xs @ ys) \<Longrightarrow> links h (ys @ [head])"
  "ring head h (xs @ i # ys) \<Longrightarrow> links h (ys @ [head])"
  using links_front [of h "head # xs" "ys @ [head]"] links_tail [of h "head # xs" "ys @ [head]"]
    links_tail [of h "head # xs @ [i]" "ys @ [head]"]
  by (simp_all add: ring_def)

lemma same_linksI:
  assumes "distinct (head # xs @ ys)" "J \<inter> set (head # xs @ ys) = {}"
    and nxt: "\<And>a. a \<noteq> last (head # xs) \<Longrightarrow> a \<notin> J \<Longrightarrow> nxt (h' a) = nxt (h a)"
    and prev: "\<And>a. a \<noteq> hd (ys @ [head]) \<Longrightarrow> a \<notin> J \<Longrightarrow> prev (h' a) = prev (h a)"
  shows "same_links head xs ys h h'"
proof -
  obtain ps p where p: "head # xs = ps @ [p]" by (rule that [OF snoc_last])
  obtain n ns where n: "ys @ [head] = n # ns" by (rule that [OF hd_snoc])
  have ps: "set (head # xs) = set (ps @ [p])" and ns: "set (ys @ [head]) = set (n # ns)"
    by (rule arg_cong [OF p], rule arg_cong [OF n])
  have d1: "distinct (ps @ [p])" by (subst p [symmetric]) (use assms(1) in simp)
  have d2: "distinct (n # ns)" by (subst n [symmetric]) (use assms(1) in simp)
  have "p \<in> set (ps @ [p])" "n \<in> set (n # ns)" by simp_all
  then have m: "p \<in> set (head # xs)" "n \<in> set (ys @ [head])" unfolding ps ns .
  have m': "p \<notin> set ys" "n \<notin> set xs" using m assms(1) by auto
  have j1: "J \<inter> set (ps @ [p]) = {}" by (subst ps [symmetric]) (use assms(2) in auto)
  have j2: "J \<inter> set (n # ns) = {}" by (subst ns [symmetric]) (use assms(2) in auto)
  have j3: "J \<inter> set xs = {}" "J \<inter> set ys = {}" using assms(2) by auto
  have e: "last (head # xs) = p" "hd (ys @ [head]) = n" "butlast (head # xs) = ps" "tl (ys @ [head]) = ns"
    unfolding p n by simp_all
  have "nxt (h' a) = nxt (h a)" if "a \<in> set ps \<union> set ys" for a
  proof (rule nxt)
    show "a \<noteq> last (head # xs)" unfolding e using that d1 m' by auto
    show "a \<notin> J" using that j1 j3 by auto
  qed
  moreover have "prev (h' a) = prev (h a)" if "a \<in> set xs \<union> set ns" for a
  proof (rule prev)
    show "a \<noteq> hd (ys @ [head])" unfolding e using that d2 m' by auto
    show "a \<notin> J" using that j2 j3 by auto
  qed
  ultimately show ?thesis unfolding same_links_def e by blast
qed

section \<open>The operations on rings\<close>

lemma ring_D: "ring head h as \<Longrightarrow> distinct (head # as) \<and> 0 \<notin> set (head # as)"
  by (simp only: ring_def simp_thms)

lemma last_hd_in: "last (head # xs) \<in> set (head # xs)" "hd (ys @ [head]) \<in> set (head # ys)"
  by (rule last_in_set, simp) (cases ys, simp_all)

lemma ring_insert:
  assumes "ring head h as" "item \<notin> set (head # as)" "item \<noteq> 0"
  shows "ring head (list_insert head item h) (item # as)"
proof -
  have ne: "item \<noteq> head" "item \<noteq> hd (as @ [head])" using assms(2) last_hd_in(2) [of as head] by auto
  have d: "distinct (head # [] @ as)" using ring_D [OF assms(1)] by simp
  have "ring head (list_insert head item h) ([] @ item # as)"
    by (rule ring_splice [OF same_linksI [where J = "{item}", OF d]
          ring_chains(1) [of head h "[]" as] ring_chains(2) [of head h "[]" as]])
      (use assms ne ring_D [OF assms(1)] ring_next [OF assms(1)] in \<open>auto simp: list_insert_def Let_def\<close>)
  then show ?thesis by simp
qed

lemma ring_append:
  assumes "ring head h as" "item \<notin> set (head # as)" "item \<noteq> 0"
  shows "ring head (list_append head item h) (as @ [item])"
proof -
  have ne: "item \<noteq> head" "item \<noteq> last (head # as)" using assms(2) last_hd_in(1) [of head as] by auto
  have d: "distinct (head # as @ [])" using ring_D [OF assms(1)] by simp
  show ?thesis
    by (rule ring_splice [OF same_linksI [where J = "{item}", OF d]
          ring_chains(1) [of head h as "[]"] ring_chains(2) [of head h as "[]"]])
      (use assms ne ring_D [OF assms(1)] ring_prev [OF assms(1)] in
        \<open>auto simp: list_append_def Let_def simp del: last.simps\<close>)
qed

text \<open>An item of a ring is linked, and its neighbours are items of the ring or the head.\<close>

lemma ring_item_linked:
  assumes "ring head h (xs @ i # ys)"
  shows "nxt (h i) \<noteq> 0" "prev (h i) \<noteq> 0" "\<not> list_is_empty i h" "nxt (h i) \<noteq> i" "prev (h i) \<noteq> i"
proof -
  have d: "distinct (head # xs @ i # ys)" "0 \<notin> set (head # xs @ i # ys)" using ring_D [OF assms] by simp_all
  have "hd (ys @ [head]) \<in> set (head # ys)" "last (head # xs) \<in> set (head # xs)" by (rule last_hd_in)+
  then show "nxt (h i) \<noteq> 0" "prev (h i) \<noteq> 0" "nxt (h i) \<noteq> i" "prev (h i) \<noteq> i"
    unfolding ring_item [OF assms] using d by auto
  then show "\<not> list_is_empty i h" by (simp add: list_is_empty_def)
qed

lemma ring_remove:
  assumes "ring head h (xs @ i # ys)"
  shows "fst (list_remove i h)" "ring head (snd (list_remove i h)) (xs @ ys)" "ring i (snd (list_remove i h)) []"
proof -
  let ?h = "snd (list_remove i h)"
  have d: "distinct (head # xs @ i # ys)" "0 \<notin> set (head # xs @ i # ys)" using ring_D [OF assms] by simp_all
  note l = ring_item_linked [OF assms]
  have ends: "last (head # xs) \<noteq> i" "hd (ys @ [head]) \<noteq> i" using l(4,5) ring_item [OF assms] by simp_all
  have r: "list_remove i h = (True, set_next i i (set_prev i i (set_prev (hd (ys @ [head])) (last (head # xs))
      (set_next (last (head # xs)) (hd (ys @ [head])) h))))"
    using l ring_item [OF assms] by (simp add: list_remove_def Let_def)
  show "fst (list_remove i h)" by (simp add: r)
  show "ring i ?h []" using d by (simp add: r ring_def)
  show "ring head ?h (xs @ ys)"
    by (rule ring_join [OF same_linksI [where J = "{i}"] ring_chains(1) [OF assms] ring_chains(3) [OF assms]])
      (use d ends in \<open>auto simp: r simp del: last.simps\<close>)
qed

lemma ring_replace:
  assumes "ring head h (xs @ i # ys)" "new \<notin> set (head # xs @ i # ys)" "new \<noteq> 0"
  shows "fst (list_replace i new h)" "ring head (snd (list_replace i new h)) (xs @ new # ys)"
    "ring i (snd (list_replace i new h)) []"
proof -
  let ?h = "snd (list_replace i new h)" and ?p = "last (head # xs)" and ?n = "hd (ys @ [head])"
  have d: "distinct (head # xs @ i # ys)" "0 \<notin> set (head # xs @ i # ys)" using ring_D [OF assms(1)] by simp_all
  note l = ring_item_linked [OF assms(1)]
  have ends: "?p \<noteq> i" "?n \<noteq> i" using l(4,5) ring_item [OF assms(1)] by simp_all
  have ne: "?p \<noteq> new" "?n \<noteq> new" "i \<noteq> new"
    using assms(2) last_hd_in(1) [of head xs] last_hd_in(2) [of ys head] by auto
  have r: "list_replace i new h = (True, set_next i i (set_prev i i (set_prev ?n new (set_next ?p new
      (set_prev new ?p (set_next new ?n h))))))"
    using l ne ends ring_item [OF assms(1)] by (simp add: list_replace_def Let_def del: last.simps)
  show "fst (list_replace i new h)" by (simp add: r)
  show "ring i ?h []" using d by (simp add: r ring_def)
  show "ring head ?h (xs @ new # ys)"
    by (rule ring_splice [OF same_linksI [where J = "{i, new}"] ring_chains(1) [OF assms(1)]
          ring_chains(3) [OF assms(1)]])
      (use d ends ne assms(2,3) in \<open>auto simp: r simp del: last.simps\<close>)
qed

lemma ring_remove_head:
  "ring head h [] \<Longrightarrow> list_remove_head head h = (None, h)"
  "ring head h (i # as) \<Longrightarrow> list_remove_head head h = (Some i, snd (list_remove i h))"
  using ring_is_empty [of head h] ring_next [of head h] by (simp_all add: list_remove_head_def Let_def)

lemma ring_remove_tail:
  "ring head h [] \<Longrightarrow> list_remove_tail head h = (None, h)"
  "ring head h (as @ [i]) \<Longrightarrow> list_remove_tail head h = (Some i, snd (list_remove i h))"
  using ring_is_empty [of head h] ring_prev [of head h] by (simp_all add: list_remove_tail_def Let_def)

lemma foreach_ring:
  "ring head h (xs @ ys) \<Longrightarrow> foreach_from h head (hd (ys @ [head])) = Some ys"
proof (induction ys arbitrary: xs)
  case Nil
  then show ?case by (simp add: foreach_from.simps)
next
  case (Cons y ys)
  then have "foreach_from h head (hd (ys @ [head])) = Some ys" using Cons.IH [of "xs @ [y]"] by simp
  moreover have "y \<noteq> head" using ring_D [OF Cons.prems] by auto
  ultimately show ?case using ring_item(1) [OF Cons.prems] by (simp add: foreach_from.simps)
qed

lemma ring_foreach: "ring head h as \<Longrightarrow> list_foreach head h = Some as"
  using foreach_ring [of head h "[]" as] ring_next [of head h as] by (simp add: list_foreach_def)

text \<open>Items outside a ring are not touched.\<close>

lemma list_op_frame:
  assumes "ring head h (xs @ ys)" "a \<notin> set (head # item # xs @ ys)"
  shows "list_append head item h a = h a" "list_insert head item h a = h a"
    "item \<in> set (xs @ ys) \<Longrightarrow> snd (list_remove item h) a = h a"
proof -
  have "nxt (h head) \<in> set (head # xs @ ys)" "prev (h head) \<in> set (head # xs @ ys)"
    unfolding ring_next [OF assms(1)] ring_prev [OF assms(1)] by (rule last_hd_in)+
  then have "a \<noteq> nxt (h head)" "a \<noteq> prev (h head)" using assms(2) by auto
  then show "list_append head item h a = h a" "list_insert head item h a = h a"
    using assms(2) by (simp_all add: list_append_def list_insert_def Let_def)
  assume "item \<in> set (xs @ ys)"
  then obtain us vs where s: "xs @ ys = us @ item # vs" using split_list by fastforce
  have "nxt (h item) \<in> set (head # xs @ ys)" "prev (h item) \<in> set (head # xs @ ys)"
    unfolding ring_item [OF assms(1) [unfolded s]] unfolding s
    using last_hd_in(1) [of head us] last_hd_in(2) [of vs head] by auto
  then have "a \<noteq> nxt (h item)" "a \<noteq> prev (h item)" using assms(2) by auto
  then show "snd (list_remove item h) a = h a"
    using assms(2) by (simp add: list_remove_def Let_def)
qed

section \<open>Queues\<close>

text \<open>
  What the event loop relies on: appended items come out in their order. \<open>rep\<close> relates a store to
  the list of the waiting items.
\<close>

fun pops :: "('h \<Rightarrow> 'a option \<times> 'h) \<Rightarrow> nat \<Rightarrow> 'h \<Rightarrow> 'a option list" where
  "pops pop 0 h = []"
| "pops pop (Suc n) h = (case pop h of (r, h) \<Rightarrow> r # pops pop n h)"

locale queue =
  fixes rep :: "'h \<Rightarrow> 'a list \<Rightarrow> bool" and valid :: "'a \<Rightarrow> bool"
    and app :: "'a \<Rightarrow> 'h \<Rightarrow> 'h" and pop :: "'h \<Rightarrow> 'a option \<times> 'h"
  assumes app: "rep h as \<Longrightarrow> valid i \<Longrightarrow> i \<notin> set as \<Longrightarrow> rep (app i h) (as @ [i])"
    and pop_Nil: "rep h [] \<Longrightarrow> pop h = (None, h)"
    and pop_Cons: "rep h (i # as) \<Longrightarrow> fst (pop h) = Some i \<and> rep (snd (pop h)) as"
begin

lemma app_all:
  "rep h as \<Longrightarrow> \<forall>i \<in> set is. valid i \<Longrightarrow> distinct (as @ is) \<Longrightarrow> rep (fold app is h) (as @ is)"
proof (induction "is" arbitrary: h as)
  case (Cons i "is")
  then show ?case using app [of h as i] Cons.IH [of "app i h" "as @ [i]"] by auto
qed simp

lemma pop_all: "rep h as \<Longrightarrow> pops pop (Suc (length as)) h = map Some as @ [None]"
proof (induction as arbitrary: h)
  case Nil
  then show ?case using pop_Nil by simp
next
  case (Cons i as)
  obtain r h' where p: "pop h = (r, h')" by fastforce
  then show ?case using pop_Cons [OF Cons.prems] Cons.IH [of h'] by simp
qed

lemma fifo:
  assumes "rep h []" "\<forall>i \<in> set is. valid i" "distinct is"
  shows "pops pop (Suc (length is)) (fold app is h) = map Some is @ [None]"
  using pop_all app_all [OF assms(1,2)] assms(3) by simp

end

interpretation pending: queue "ring head" "\<lambda>i. i \<noteq> 0 \<and> i \<noteq> head" "list_append head" "list_remove_head head"
  for head :: addr
proof
  fix h as i
  show "ring head h as \<Longrightarrow> i \<noteq> 0 \<and> i \<noteq> head \<Longrightarrow> i \<notin> set as \<Longrightarrow> ring head (list_append head i h) (as @ [i])"
    using ring_append [of head h as i] by simp
  show "ring head h [] \<Longrightarrow> list_remove_head head h = (None, h)" by (rule ring_remove_head)
  show "ring head h (i # as) \<Longrightarrow> fst (list_remove_head head h) = Some i \<and> ring head (snd (list_remove_head head h)) as"
    using ring_remove_head(2) [of head h i as] ring_remove(2) [of head h "[]" i as] by simp
qed

section \<open>Properties\<close>

text \<open>C26: On a well-formed circular list the pointer operations are those of lists: appending and
  inserting a new item put it at the end and at the front, removing and replacing an item take it
  out and leave it as an empty list of its own, and the iteration ends after visiting every item
  once, in order.\<close>

theorem list_operations_refine:
  assumes "ring head h (xs @ i # ys)" "new \<notin> set (head # xs @ i # ys)" "new \<noteq> 0"
  shows "ring head (list_append head new h) (xs @ i # ys @ [new]) \<and>
    ring head (list_insert head new h) (new # xs @ i # ys) \<and>
    fst (list_remove i h) \<and> ring head (snd (list_remove i h)) (xs @ ys) \<and>
    list_is_empty i (snd (list_remove i h)) \<and>
    fst (list_replace i new h) \<and> ring head (snd (list_replace i new h)) (xs @ new # ys) \<and>
    list_is_empty i (snd (list_replace i new h)) \<and>
    list_foreach head h = Some (xs @ i # ys)"
  using ring_append [OF assms] ring_insert [OF assms] ring_remove [OF assms(1)] ring_replace [OF assms]
    ring_foreach [OF assms(1)] ring_is_empty [OF ring_remove(3) [OF assms(1)]]
    ring_is_empty [OF ring_replace(3) [OF assms]]
  by simp

theorem list_operations_refine_witness:
  "let h = list_append 1 3 (list_append 1 2 (list_init 1 (\<lambda>_. \<lparr>prev = 0, nxt = 0\<rparr>)))
   in ring 1 (list_append 1 4 h) [2, 3, 4] \<and> ring 1 (list_insert 1 4 h) [4, 2, 3] \<and>
      ring 1 (snd (list_remove 2 h)) [3] \<and> ring 1 (snd (list_replace 2 4 h)) [4, 3] \<and>
      list_foreach 1 h = Some [2, 3]"
proof -
  let ?h = "list_append 1 3 (list_append 1 2 (list_init 1 (\<lambda>_. \<lparr>prev = 0, nxt = 0\<rparr>)))"
  have "ring 1 ?h ([] @ 2 # [3])"
    by (simp add: ring_def list_append_def list_init_def Let_def set_prev_def set_next_def)
  from list_operations_refine [OF this, of 4] show ?thesis by (simp add: Let_def)
qed

text \<open>Items appended to an empty list come out at its head in the order they were appended, and
  then the list is empty: tracees that wait are handled first come, first served.\<close>

lemma pending_list_fifo:
  assumes "ring head h []" "distinct (head # is)" "0 \<notin> set is"
  shows "pops (list_remove_head head) (Suc (length is)) (fold (list_append head) is h) = map Some is @ [None]"
  by (rule pending.fifo) (use assms in \<open>auto intro!: gr0I\<close>)

end
