(* ===== verification/Trace_Syscall.thy ===== *)
theory Trace_Syscall
  imports Tamper
begin

text \<open>
  The phases of a system call in \<^verbatim>\<open>src/src/syscall.c\<close>, from the stop at its entry to the end of its
  exit, as \<^verbatim>\<open>trace_syscall\<close> of \<^verbatim>\<open>src/src/strace.c\<close> puts them together. What is printed and counted is
  left out. The decoders and the selection by path are parameters: they see the block and the
  tracee, and their answer is all that matters here.
\<close>

section \<open>Parameters\<close>

datatype cflag = CFLAG_NONE | CFLAG_ONLY_STATS | CFLAG_BOTH

record trace_opts =
  o_cflag :: cflag
  o_Tflag :: bool
  o_tracing_paths :: bool
  o_output_separately :: bool
  o_followfork :: bool
  o_detach_on_execve :: bool
  o_use_seize :: bool
  o_stack_trace :: bool
  o_seccomp_before_sysentry :: bool

record 'k phase_env =
  pe_tamper :: "'k tamper_env"
  pe_umoven :: "u64 \<Rightarrow> nat \<Rightarrow> 'k \<Rightarrow> u8 list option"
  pe_sys_func :: "tcb \<Rightarrow> 'k \<Rightarrow> int"
  pe_pathtrace_match :: "tcb \<Rightarrow> 'k \<Rightarrow> bool"
  pe_SEN_ipc :: nat
  pe_SEN_socketcall :: nat
  pe_SEN_restart_syscall :: nat
  pe_SEN_exec :: "nat list"
  pe_now :: timespec

abbreviation pe_ops :: "'k phase_env \<Rightarrow> 'k ptrace_ops" where "pe_ops PE \<equiv> te_ops (pe_tamper PE)"
abbreviation pe_printargs :: "'k phase_env \<Rightarrow> nat" where
  "pe_printargs PE \<equiv> te_SEN_printargs (pe_tamper PE)"
abbreviation pe_sysent :: "'k phase_env \<Rightarrow> tcb \<Rightarrow> sysent" where
  "pe_sysent PE \<equiv> tcp_sysent (pe_printargs PE)"

abbreviation SYS_socket_subcall :: nat where "SYS_socket_subcall \<equiv> 500"
abbreviation SYS_socket_nsubcalls :: nat where "SYS_socket_nsubcalls \<equiv> 21"
abbreviation SYS_ipc_subcall :: nat where "SYS_ipc_subcall \<equiv> SYS_socket_subcall + SYS_socket_nsubcalls"

abbreviation (input) STATUS_SUCCESSFUL :: nat where "STATUS_SUCCESSFUL \<equiv> 0"
abbreviation (input) STATUS_FAILED :: nat where "STATUS_FAILED \<equiv> 1"
abbreviation NUMBER_OF_STATUSES :: nat where "NUMBER_OF_STATUSES \<equiv> 5"

abbreviation RVAL_DECODED :: int where "RVAL_DECODED \<equiv> 64"

section \<open>Entry\<close>

definition wordsize :: "nat \<Rightarrow> nat" where
  "wordsize personality = (if personality = 0 then 8 else 4)"

definition le_word :: "u8 list \<Rightarrow> u64" where
  "le_word bs = foldr (\<lambda>b w. push_bit 8 w OR ucast b) bs 0"

text \<open>The call a multiplexer stands for: number, flags and table entry.\<close>

definition set_subcall :: "'a arch_scheme \<Rightarrow> filters \<Rightarrow> nat \<Rightarrow> nat \<Rightarrow> tcb \<Rightarrow> tcb" where
  "set_subcall A F pers scno tcp =
     tcp\<lparr>t_scno := word_of_nat scno, t_qual_flg := qual_flags F pers scno,
         t_s_ent := Some (sysent_vec A ! pers ! scno)\<rparr>"

definition decode_socket_subcall ::
    "'a arch_scheme \<Rightarrow> 'k phase_env \<Rightarrow> filters \<Rightarrow> 'k sysst \<Rightarrow> tcb \<Rightarrow> tcb" where
  "decode_socket_subcall A PE F st tcp =
     (let call = sint (ucast (t_u_arg tcp ! 0) :: u32); pers = current_personality st
      in if call < 1 \<or> call \<ge> int SYS_socket_nsubcalls then tcp
         else let scno = SYS_socket_subcall + nat call; n = nargs (sysent_vec A ! pers ! scno); w = wordsize pers
              in case pe_umoven PE (t_u_arg tcp ! 1) (n * w) (kst st) of
                   None \<Rightarrow> tcp
                 | Some buf \<Rightarrow>
                     (set_subcall A F pers scno tcp)
                       \<lparr>t_u_arg := map (\<lambda>i. le_word (take w (drop (i * w) buf))) [0..<n] @ drop n (t_u_arg tcp)\<rparr>)"

definition decode_ipc_subcall ::
    "'a arch_scheme \<Rightarrow> 'k phase_env \<Rightarrow> filters \<Rightarrow> 'k sysst \<Rightarrow> tcb \<Rightarrow> tcb" where
  "decode_ipc_subcall A PE F st tcp =
     (let call = unat (ucast (t_u_arg tcp ! 0) :: u32) mod 2 ^ 16; pers = current_personality st
      in if call \<notin> {1, 2, 3, 4, 11, 12, 13, 14, 21, 22, 23, 24} then tcp
         else let tcp = set_subcall A F pers (SYS_ipc_subcall + call) tcp; n = n_args (pe_printargs PE) tcp
              in tcp\<lparr>t_u_arg := take n (drop 1 (t_u_arg tcp)) @ drop n (t_u_arg tcp)\<rparr>)"

definition syscall_entering_decode ::
    "'a arch_scheme \<Rightarrow> 'k phase_env \<Rightarrow> filters \<Rightarrow> 'k sysst \<times> tcb \<Rightarrow> die + int \<times> 'k sysst \<times> tcb" where
  "syscall_entering_decode A PE F s =
     rbind (get_scno A (pe_ops PE) (pe_printargs PE) F s) (\<lambda>(res, st, tcp).
       if res \<noteq> 1 then Inr (res, st, tcp)
       else let tcp = get_syscall_args (pe_ops PE) (pe_printargs PE) st tcp;
                sn = sen (pe_sysent PE tcp)
            in Inr (1, st, if sn = pe_SEN_ipc PE then decode_ipc_subcall A PE F st tcp
                           else if sn = pe_SEN_socketcall PE then decode_socket_subcall A PE F st tcp
                           else tcp))"

text \<open>The first \<^verbatim>\<open>execve\<close> of a hidden tracee makes its log visible.\<close>

definition reveal_on_exec :: "'k phase_env \<Rightarrow> tcb \<Rightarrow> tcb" where
  "reveal_on_exec PE tcp =
     (if hide_log tcp then
        let tcp = tcp\<lparr>t_qual_flg := t_qual_flg tcp AND NOT QUAL_INJECT\<rparr>
        in if sen (pe_sysent PE tcp) \<in> set (pe_SEN_exec PE)
           then set_tcb_flag TCB_CHECK_EXEC_SYSCALL (clear_tcb_flag TCB_HIDE_LOG tcp) else tcp
      else tcp)"

definition syscall_entering_trace ::
    "'a arch_scheme \<Rightarrow> trace_opts \<Rightarrow> 'k phase_env \<Rightarrow> filters \<Rightarrow> nat \<Rightarrow> 'k inj_state \<Rightarrow>
     die + int \<times> nat \<times> 'k inj_state" where
  "syscall_entering_trace A opt PE F sig = (\<lambda>(st, dt, tcp).
     let tcp = reveal_on_exec PE tcp
     in if hide_log tcp \<or> \<not> qual QUAL_TRACE tcp \<or>
           (o_tracing_paths opt \<or> tracing_fds F) \<and> \<not> pe_pathtrace_match PE tcp (kst st)
        then Inr (0, sig, st, dt, set_tcb_flag TCB_FILTERED tcp)
        else let tcp = clear_tcb_flag TCB_FILTERED tcp
             in rbind (if qual QUAL_INJECT tcp
                       then tamper_with_syscall_entering A (pe_tamper PE) F sig (st, dt, tcp)
                       else Inr (sig, st, dt, tcp)) (\<lambda>(sig, st, dt, tcp).
                  Inr (if o_cflag opt = CFLAG_ONLY_STATS then 0
                       else if qual QUAL_RAW tcp then RVAL_DECODED else pe_sys_func PE tcp (kst st), sig, st, dt, tcp)))"

definition syscall_entering_finish :: "trace_opts \<Rightarrow> 'k phase_env \<Rightarrow> int \<Rightarrow> tcb \<Rightarrow> tcb" where
  "syscall_entering_finish opt PE res tcp =
     (let tcp = (set_tcb_flag TCB_INSYSCALL tcp)\<lparr>t_sys_func_rval := res\<rparr>;
          tcp = (if (o_Tflag opt \<or> o_cflag opt \<noteq> CFLAG_NONE) \<and> \<not> filtered tcp
                 then tcp\<lparr>t_etime := pe_now PE\<rparr> else tcp)
      in if o_cflag opt \<noteq> CFLAG_NONE then tcp\<lparr>t_ltime := t_stime tcp\<rparr> else tcp)"

section \<open>Exit\<close>

definition syscall_exiting_decode ::
    "'a arch_scheme \<Rightarrow> 'k phase_env \<Rightarrow> 'k sysst \<times> tcb \<Rightarrow> die + int \<times> 'k sysst \<times> tcb" where
  "syscall_exiting_decode A PE = (\<lambda>(st, tcp).
     if filtered tcp then Inr (0, st, tcp)
     else let tcp = (if check_exec_syscall tcp then set_tcb_flag TCB_HIDE_LOG tcp else tcp)
          in rbind (update_personality A (t_currpers tcp) (st, tcp)) (\<lambda>s.
               get_syscall_result A (pe_ops PE) (pe_printargs PE) s))"

definition status_filtering :: "filters \<Rightarrow> bool" where
  "status_filtering F \<longleftrightarrow> \<not> is_complete_set (map_option (\<lambda>a. a ! 0) (status_set F)) NUMBER_OF_STATUSES"

definition publish :: "filters \<Rightarrow> tcb \<Rightarrow> bool" where
  "publish F tcp \<longleftrightarrow>
     syserror tcp \<and> is_number_in_set STATUS_FAILED (status_set F) \<or>
     \<not> syserror tcp \<and> is_number_in_set STATUS_SUCCESSFUL (status_set F)"

text \<open>The count of the calls that may still be traced is the first component of the state.\<close>

definition syscall_exiting_trace ::
    "'a arch_scheme \<Rightarrow> trace_opts \<Rightarrow> 'k phase_env \<Rightarrow> filters \<Rightarrow> int \<Rightarrow> int \<times> 'k inj_state \<Rightarrow>
     die + int \<times> int \<times> 'k inj_state" where
  "syscall_exiting_trace A opt PE F res = (\<lambda>(limit, st, dt, tcp).
     rbind (if has TCB_TAMPERED tcp \<or> has TCB_INJECT_DELAY_EXIT tcp \<or> has TCB_INJECT_POKE_EXIT tcp
            then tamper_with_syscall_exiting A (pe_tamper PE) F (st, dt, tcp)
            else Inr (0, st, dt, tcp)) (\<lambda>(rc, st, dt, tcp).
       let tcp = (if o_cflag opt \<noteq> CFLAG_ONLY_STATS then clear_tcb_flag TCB_REPRINT tcp else tcp);
           prev_ent = (if sen (pe_sysent PE tcp) = pe_SEN_restart_syscall PE then t_s_prev_ent tcp else t_s_ent tcp)
       in if res \<noteq> 1 then Inr (res, limit, st, dt, tcp\<lparr>t_s_prev_ent := None\<rparr>)
          else let tcp = tcp\<lparr>t_s_prev_ent := prev_ent\<rparr>
               in if status_filtering F \<and> \<not> publish F tcp then Inr (0, limit, st, dt, tcp)
                  else Inr (0, if limit \<noteq> - 1 then limit - 1 else limit, st, dt, tcp)))"

section \<open>Both\<close>

definition trace_syscall ::
    "'a arch_scheme \<Rightarrow> trace_opts \<Rightarrow> 'k phase_env \<Rightarrow> filters \<Rightarrow> nat \<Rightarrow> int \<times> 'k inj_state \<Rightarrow>
     die + int \<times> nat \<times> int \<times> 'k inj_state" where
  "trace_syscall A opt PE F sig = (\<lambda>(limit, st, dt, tcp).
     if entering tcp then
       rbind (syscall_entering_decode A PE F (st, tcp)) (\<lambda>(res, st, tcp).
         if res = 0 then Inr (0, sig, limit, st, dt, tcp)
         else rbind (if res = 1 then syscall_entering_trace A opt PE F sig (st, dt, tcp)
                     else Inr (res, sig, st, dt, tcp)) (\<lambda>(res, sig, st, dt, tcp).
           Inr (res, sig, limit, st, dt, syscall_entering_finish opt PE res tcp)))
     else
       rbind (syscall_exiting_decode A PE (st, tcp)) (\<lambda>(res, st, tcp).
         rbind (if res \<noteq> 0 then syscall_exiting_trace A opt PE F res (limit, st, dt, tcp)
                else Inr (res, limit, st, dt, tcp)) (\<lambda>(res, limit, st, dt, tcp).
           Inr (res, sig, limit, st, dt, syscall_exiting_finish (o_cflag opt \<noteq> CFLAG_NONE) tcp))))"

section \<open>What the phases keep\<close>

text \<open>
  No phase changes the process a block belongs to nor its place in the event queue, and only
  \<^verbatim>\<open>delay_tcb\<close> delays a tracee. A delayed tracee relies on the timer: \<open>clock_law\<close> states that a timer
  with time left is armed.
\<close>

definition ids :: "tcb \<Rightarrow> nat \<times> nat \<times> tcb_wait_data option" where
  "ids tcp = (t_pid tcp, t_wait_data_idx tcp, t_delayed_wait_data tcp)"

definition keeps :: "tcb \<Rightarrow> tcb \<Rightarrow> bool" where
  "keeps tcp tcp' \<longleftrightarrow> ids tcp' = ids tcp \<and> (syscall_delayed tcp' \<longrightarrow> syscall_delayed tcp)"

definition delays :: "delay_timer \<Rightarrow> tcb \<Rightarrow> delay_timer \<Rightarrow> tcb \<Rightarrow> bool" where
  "delays dt tcp dt' tcp' \<longleftrightarrow> ids tcp' = ids tcp \<and> (timer_armed dt \<longrightarrow> timer_armed dt') \<and>
     (syscall_delayed tcp' \<longrightarrow> syscall_delayed tcp \<or> timer_armed dt')"

definition clock_law :: "clock \<Rightarrow> bool" where
  "clock_law clk \<longleftrightarrow> (\<forall>dt r. clk_remaining clk dt = Some r \<longrightarrow> ts_nz r \<longrightarrow> timer_armed dt)"

lemma keeps_refl [simp]: "keeps tcp tcp"
  by (simp add: keeps_def)

lemma keeps_trans: "keeps a b \<Longrightarrow> keeps b c \<Longrightarrow> keeps a c"
  by (simp add: keeps_def)

lemma delays_trans: "delays dt a dt1 b \<Longrightarrow> delays dt1 b dt2 c \<Longrightarrow> delays dt a dt2 c"
  by (auto simp: delays_def)

lemma keeps_delays: "keeps a b \<Longrightarrow> delays dt a dt b"
  by (simp add: delays_def keeps_def)

lemma delays_keeps: "delays dt a dt' b \<Longrightarrow> keeps b c \<Longrightarrow> delays dt a dt' c"
  by (auto simp: delays_def keeps_def)

lemma keeps_delays_trans: "keeps a b \<Longrightarrow> delays dt b dt' c \<Longrightarrow> delays dt a dt' c"
  by (auto simp: delays_def keeps_def)

text \<open>A block with other fields changed is kept.\<close>

lemma keepsI: "ids tcp' = ids tcp \<Longrightarrow> t_flags tcp' = t_flags tcp \<Longrightarrow> keeps tcp tcp'"
  by (simp add: keeps_def has_def)

lemma keeps_flags:
  "f AND TCB_DELAYED = 0 \<Longrightarrow> keeps tcp (set_tcb_flag f tcp)" "keeps tcp (clear_tcb_flag f tcp)"
proof -
  show "f AND TCB_DELAYED = 0 \<Longrightarrow> keeps tcp (set_tcb_flag f tcp)"
    by (simp add: keeps_def ids_def tcb_simps) (simp add: set_tcb_flag_def)
  have "(t_flags tcp AND NOT f) AND TCB_DELAYED = (t_flags tcp AND TCB_DELAYED) AND NOT f"
    by (simp only: ac_simps)
  then show "keeps tcp (clear_tcb_flag f tcp)" by (auto simp: keeps_def ids_def clear_tcb_flag_def has_def)
qed

lemma keeps_update_personality: "all_ok (\<lambda>(st', tcp'). keeps tcp tcp') (update_personality A p (st, tcp))"
  by (simp add: update_personality_def set_personality_def keepsI ids_def)

lemma keeps_get_syscall_info:
  "all_ok (\<lambda>(ok, st', tcp'). keeps tcp tcp') (strace_get_syscall_info A K (st, tcp))"
  by (auto simp: strace_get_syscall_info_def Let_def split: option.splits
      intro!: all_ok_rbind [OF keeps_update_personality])

lemma keeps_get_syscall_regs: "all_ok (\<lambda>(e, st', tcp'). keeps tcp tcp') (get_syscall_regs A K (st, tcp))"
  by (auto simp: get_syscall_regs_def Let_def split: prod.splits
      intro!: all_ok_rbind [OF keeps_get_syscall_info])

lemma keeps_arch_get_scno: "all_ok (\<lambda>(e, st', tcp'). keeps tcp tcp') (arch_get_scno A (st, tcp))"
  by (auto simp: arch_get_scno_def Let_def keeps_def ids_def has_def split: prod.splits
      intro!: all_ok_rbind [OF keeps_update_personality])

lemma keeps_classify: "keeps tcp (classify_scno A P F pers tcp)"
  by (simp add: classify_scno_def Let_def keeps_def ids_def has_def)

text \<open>The rules for a further change of a block that is kept so far.\<close>

lemma keeps_get_syscall_args: "keeps tcp (get_syscall_args K P st tcp)"
  by (simp add: get_syscall_args_def Let_def keepsI ids_def)

lemma keeps_get_error: "keeps tcp (get_error K b st tcp)"
  by (simp add: get_error_def arch_get_error_def Let_def keepsI ids_def)

lemma keeps_subcalls: "keeps tcp (decode_socket_subcall A PE F st tcp)" "keeps tcp (decode_ipc_subcall A PE F st tcp)"
  by (simp_all add: decode_socket_subcall_def decode_ipc_subcall_def set_subcall_def Let_def keepsI ids_def
      split: option.splits)

lemmas keeps_more =
  keeps_classify [THEN [2] keeps_trans] keeps_get_syscall_args [THEN [2] keeps_trans]
  keeps_get_error [THEN [2] keeps_trans] keeps_subcalls [THEN [2] keeps_trans]
  keeps_flags [THEN [2] keeps_trans]

lemma keeps_get_scno:
  fixes K :: "'k ptrace_ops"
  shows "all_ok (\<lambda>(r, st', tcp'). keeps tcp tcp') (get_scno A K P F (st, tcp))"
proof -
  let ?t = "tcp\<lparr>t_scno := - 1, t_s_ent := None, t_qual_flg := QUAL_RAW OR DEFAULT_QUAL_FLAGS\<rparr>"
  have t: "keeps tcp ?t" by (rule keepsI) (simp_all add: ids_def)
  have a: "all_ok (\<lambda>(rc, st, tcp'). keeps tcp tcp') (arch_get_scno A (st1, tcp1))" if "keeps tcp tcp1" for st1 :: "'k sysst" and tcp1
    by (rule all_ok_mono [OF keeps_arch_get_scno]) (auto intro: keeps_trans [OF that])
  have s: "keeps tcp (tcp1\<lparr>t_scno := n\<rparr>)" if "keeps tcp tcp1" for tcp1 n
    by (rule keeps_trans [OF that keepsI]) (simp_all add: ids_def)
  show ?thesis unfolding get_scno_def prod.case Let_def
  proof (rule all_ok_rbind [OF keeps_get_syscall_regs], clarify)
    fix e st1 tcp1
    assume "keeps ?t tcp1"
    with t have k: "keeps tcp tcp1" by (rule keeps_trans)
    have "all_ok (\<lambda>(rc, st, tcp'). keeps tcp tcp')
        (if ptrace_syscall_info_is_entry K st1 then Inr (1, st1, tcp1\<lparr>t_scno := sci_nr (sci st1)\<rparr>)
         else arch_get_scno A (st1, tcp1))"
      using a [OF k] s [OF k] by simp
    then show "all_ok (\<lambda>(r, st', tcp'). keeps tcp tcp')
        (if e < 0 then Inr (- 1, st1, tcp1)
         else rbind (if ptrace_syscall_info_is_entry K st1 then Inr (1, st1, tcp1\<lparr>t_scno := sci_nr (sci st1)\<rparr>)
           else arch_get_scno A (st1, tcp1)) (\<lambda>(rc, st, tcp).
             if rc \<noteq> 1 then Inr (rc, st, tcp)
             else Inr (1, st, classify_scno A P F (current_personality st) tcp)))"
      using k by (auto elim!: all_ok_rbind intro!: keeps_more)
  qed
qed

lemma keeps_get_syscall_result: "all_ok (\<lambda>(r, st', tcp'). keeps tcp tcp') (get_syscall_result A K P (st, tcp))"
  by (auto simp: get_syscall_result_def Let_def intro!: all_ok_rbind [OF keeps_get_syscall_regs]
      intro!: keeps_more)

lemma keeps_entering_decode: "all_ok (\<lambda>(r, st', tcp'). keeps tcp tcp') (syscall_entering_decode A PE F (st, tcp))"
  unfolding syscall_entering_decode_def
  by (rule all_ok_rbind [OF keeps_get_scno])
    (auto simp: Let_def intro!: keeps_more)

lemma keeps_set_error: "keeps tcp (snd (set_error K P e (st, tcp)))"
proof -
  have "keeps tcp (get_error K b st' (tcp\<lparr>t_u_error := e\<rparr>))" for b st'
    by (rule keeps_trans [OF keepsI keeps_get_error]) (simp_all add: ids_def)
  then show ?thesis
    by (auto simp: set_error_def Let_def keepsI ids_def split: prod.splits option.splits)
qed

lemma keeps_set_success: "keeps tcp (snd (set_success K P e (st, tcp)))"
proof -
  have "keeps tcp (get_error K b st' (tcp\<lparr>t_u_rval := e\<rparr>))" for b st'
    by (rule keeps_trans [OF keepsI keeps_get_error]) (simp_all add: ids_def)
  then show ?thesis
    by (auto simp: set_success_def Let_def keepsI ids_def split: prod.splits option.splits)
qed

lemma delays_delay_tcb:
  assumes "clock_law clk"
  shows "all_ok (\<lambda>(dt', tcp'). delays dt tcp dt' tcp') (delay_tcb clk t idx isenter (dt, tcp))"
  using assms
  by (auto simp: delay_tcb_def arm_delay_timer_def Let_def delays_def ids_def clock_law_def set_tcb_flag_def
      split: option.splits)

lemma delays_do_delay:
  assumes "clock_law (te_clock TE)"
  shows "all_ok (\<lambda>(st', dt', tcp'). delays dt tcp dt' tcp') (do_delay TE T opts enter (st, dt, tcp))"
  unfolding do_delay_def prod.case
  by (rule all_ok_rbind [OF delays_delay_tcb [OF assms]]) auto

lemma delays_do_poke: "all_ok (\<lambda>(st', dt', tcp'). delays dt tcp dt' tcp') (do_poke TE T opts enter (st, dt, tcp))"
  by (auto simp: do_poke_def poke_tcb_def split: prod.splits intro!: keeps_delays keeps_more)

lemma delays_tamper_scno:
  "all_ok (\<lambda>(st', dt', tcp'). delays dt tcp dt' tcp') (tamper_scno A TE T opts (st, dt, tcp))"
proof -
  have e: "keeps tcp (snd (set_error (te_ops TE) (te_SEN_printargs TE) r
      (st', (set_tcb_flag TCB_TAMPERED tcp)\<lparr>t_u_error := 0\<rparr>)))" for r st'
    by (rule keeps_trans [OF keeps_trans [OF keeps_flags(1) keepsI] keeps_set_error]) (simp_all add: ids_def)
  have "all_ok (\<lambda>rval. True) (retval_get i t)" for i t by (simp add: retval_get_def)
  then show ?thesis
    using e
    by (auto simp: tamper_scno_def Let_def case_prod_unfold split: prod.splits intro!: keeps_delays keeps_more
        all_ok_rbind [where P = "\<lambda>rval. True"])
qed

text \<open>Two actions in a row.\<close>

lemma delays_seq:
  assumes "all_ok (\<lambda>(st', dt', tcp'). delays dt tcp dt' tcp') r"
    and "\<And>st' dt' tcp'. all_ok (\<lambda>(st2, dt2, tcp2). delays dt' tcp' dt2 tcp2) (f (st', dt', tcp'))"
  shows "all_ok (\<lambda>(st', dt', tcp'). delays dt tcp dt' tcp') (rbind r f)"
proof (rule all_ok_rbind [OF assms(1)], clarify)
  fix st' dt' tcp' assume "delays dt tcp dt' tcp'"
  then show "all_ok (\<lambda>(st2, dt2, tcp2). delays dt tcp dt2 tcp2) (f (st', dt', tcp'))"
    by (intro all_ok_mono [OF assms(2)]) (auto intro: delays_trans)
qed

lemma delays_when:
  assumes "all_ok (\<lambda>(st', dt', tcp'). delays dt tcp dt' tcp') (act (st, dt, tcp))"
  shows "all_ok (\<lambda>(st', dt', tcp'). delays dt tcp dt' tcp') (when_flag f opts act (st, dt, tcp))"
  using assms by (simp add: when_flag_def keeps_delays)

lemma delays_tamper_actions:
  assumes "clock_law (te_clock TE)"
  shows "all_ok (\<lambda>(st', dt', tcp'). delays dt tcp dt' tcp') (tamper_actions A TE T opts (st, dt, tcp))"
  unfolding tamper_actions_def
  by (intro delays_seq delays_when delays_do_poke delays_do_delay [OF assms])
    (auto simp: delays_tamper_scno intro!: keeps_delays keeps_flags)

lemma keeps_set_tcb_opts: "keeps tcp (set_tcb_opts pers opts tcp)"
  by (simp add: set_tcb_opts_def keepsI ids_def)

lemma delays_tamper_entering:
  assumes "clock_law (te_clock TE)"
  shows "all_ok (\<lambda>(sig', st', dt', tcp'). delays dt tcp dt' tcp')
    (tamper_with_syscall_entering A TE F sig (st, dt, tcp))"
proof -
  let ?p = "current_personality st"
  define t where "t = (if t_inject_vec tcp ! ?p = None
    then tcp\<lparr>t_inject_vec := (t_inject_vec tcp)[?p := inject_vec F ! ?p]\<rparr> else tcp)"
  have t: "keeps tcp t" by (simp add: t_def keepsI ids_def)
  have a: "all_ok (\<lambda>(st', dt', tcp'). delays dt tcp dt' tcp')
      (tamper_actions A TE (inj_tables F) opts (st, dt, set_tcb_opts ?p opts t))" for opts
    by (rule all_ok_mono [OF delays_tamper_actions [OF assms]])
      (auto intro: keeps_delays_trans [OF keeps_trans [OF t keeps_set_tcb_opts]])
  have b: "delays dt tcp dt (set_tcb_opts ?p opts t)" for opts
    by (rule keeps_delays [OF keeps_trans [OF t keeps_set_tcb_opts]])
  show ?thesis
    unfolding tamper_with_syscall_entering_def prod.case Let_def t_def [symmetric]
    using a b keeps_delays [OF t]
    by (auto split: option.splits prod.splits intro!: all_ok_rbind [OF a])
qed

lemma delays_tamper_exiting:
  fixes TE :: "'k tamper_env"
  assumes "clock_law (te_clock TE)"
  shows "all_ok (\<lambda>(rc, st', dt', tcp'). delays dt tcp dt' tcp') (tamper_with_syscall_exiting A TE F (st, dt, tcp))"
proof -
  have rv: "all_ok (\<lambda>v. True) (retval_get i t)" for i t by (simp add: retval_get_def)
  have pk: "all_ok (\<lambda>(st', dt', tcp'). delays dt tcp dt' tcp')
      (if b then do_poke TE T opts False (st, dt, tcp) else Inr (st, dt, tcp))" for b T opts
    by (simp add: delays_do_poke keeps_delays)
  have dl: "all_ok (\<lambda>(st2, dt2, tcp2). delays dt tcp dt2 tcp2)
      (if b then do_delay TE T opts False (st', dt', tcp') else Inr (st', dt', tcp'))"
    if "delays dt tcp dt' tcp'" for b T opts dt' tcp' and st' :: "'k sysst"
    using that by (auto intro!: all_ok_mono [OF delays_do_delay [OF assms]] intro: delays_trans)
  have fin: "all_ok (\<lambda>(rc, st2, dt2, tcp2). delays dt tcp dt2 tcp2)
      (if \<not> syscall_tampered tcp' then Inr (0, st', dt', tcp')
       else if (\<not> syserror tcp') \<noteq> syscall_tampered_nofail tcp' then Inr (1, st', dt', tcp')
       else rbind (retval_get i T) (\<lambda>rval.
         Inr (0, fst (if b then set_success K P rval (st', tcp') else set_error K P rval (st', tcp')), dt',
           snd (if b then set_success K P rval (st', tcp') else set_error K P rval (st', tcp')))))"
    if d: "delays dt tcp dt' tcp'" for b K P i T dt' tcp' and st' :: "'k sysst"
    using d by (auto intro!: all_ok_rbind [OF rv]
        simp: delays_keeps [OF d keeps_set_success] delays_keeps [OF d keeps_set_error])
  show ?thesis
  proof (cases "tcb_inject_opts A (current_personality st) tcp")
    case None
    then show ?thesis by (simp add: tamper_with_syscall_exiting_def keeps_delays)
  next
    case (Some opts)
    show ?thesis
      unfolding tamper_with_syscall_exiting_def prod.case Some option.case Let_def
      by (rule all_ok_rbind [OF pk], clarify, rule all_ok_rbind [OF dl], assumption, clarify, erule fin)
  qed
qed

lemma keeps_reveal: "keeps tcp (reveal_on_exec PE tcp)"
proof -
  have "keeps tcp (tcp\<lparr>t_qual_flg := q\<rparr>)" for q by (simp add: keepsI ids_def)
  then show ?thesis by (auto simp: reveal_on_exec_def Let_def intro!: keeps_more)
qed

lemma keeps_entering_finish: "keeps tcp (syscall_entering_finish opt PE res tcp)"
  by (simp add: syscall_entering_finish_def Let_def keeps_def ids_def has_def set_tcb_flag_def or_and_eq_0)

lemma keeps_exiting_finish: "keeps tcp (syscall_exiting_finish c tcp)"
proof -
  have "keeps tcp ((clear_tcb_flag f tcp)\<lparr>t_sys_func_rval := 0\<rparr>)"
    "keeps tcp ((clear_tcb_flag f tcp)\<lparr>t_sys_func_rval := 0, t_ltime := l\<rparr>)" for f l
    by (rule keeps_trans [OF keeps_flags(2) keepsI], simp_all add: ids_def)+
  then show ?thesis by (simp add: syscall_exiting_finish_def Let_def)
qed

lemma delays_entering_trace:
  assumes "clock_law (te_clock (pe_tamper PE))"
  shows "all_ok (\<lambda>(res, sig', st', dt', tcp'). delays dt tcp dt' tcp')
    (syscall_entering_trace A opt PE F sig (st, dt, tcp))"
proof -
  let ?t = "clear_tcb_flag TCB_FILTERED (reveal_on_exec PE tcp)"
  have t: "keeps tcp ?t" "keeps tcp (set_tcb_flag TCB_FILTERED (reveal_on_exec PE tcp))"
    by (rule keeps_more keeps_reveal | simp)+
  have a: "all_ok (\<lambda>(sig', st', dt', tcp'). delays dt tcp dt' tcp')
      (if b then tamper_with_syscall_entering A (pe_tamper PE) F sig (st, dt, ?t) else Inr (sig, st, dt, ?t))" for b
    using keeps_delays_trans [OF t(1)] keeps_delays [OF t(1)]
    by (auto intro!: all_ok_mono [OF delays_tamper_entering [OF assms]])
  let ?cond = "hide_log (reveal_on_exec PE tcp) \<or> \<not> qual QUAL_TRACE (reveal_on_exec PE tcp) \<or>
    (o_tracing_paths opt \<or> tracing_fds F) \<and> \<not> pe_pathtrace_match PE (reveal_on_exec PE tcp) (kst st)"
  show ?thesis
  proof (cases ?cond)
    case True
    then show ?thesis
      using keeps_delays [OF t(2)] unfolding syscall_entering_trace_def Let_def prod.case by (simp only: if_True) simp
  next
    case False
    then show ?thesis
      unfolding syscall_entering_trace_def Let_def prod.case if_not_P [OF False]
      by (intro all_ok_rbind [OF a]) auto
  qed
qed

lemma keeps_exiting_decode: "all_ok (\<lambda>(r, st', tcp'). keeps tcp tcp') (syscall_exiting_decode A PE (st, tcp))"
proof -
  let ?t = "if check_exec_syscall tcp then set_tcb_flag TCB_HIDE_LOG tcp else tcp"
  have t: "keeps tcp ?t" by (simp add: keeps_flags)
  have "all_ok (\<lambda>(r, st', tcp'). keeps tcp tcp') (get_syscall_result A K P (st1, tcp1))" if "keeps ?t tcp1" for K P st1 tcp1
    by (rule all_ok_mono [OF keeps_get_syscall_result]) (auto intro: keeps_trans [OF t keeps_trans [OF that]])
  then show ?thesis
    unfolding syscall_exiting_decode_def Let_def prod.case
    by (auto intro!: all_ok_rbind [OF keeps_update_personality])
qed

lemma all_ok_if: "(b \<Longrightarrow> all_ok P x) \<Longrightarrow> (\<not> b \<Longrightarrow> all_ok P y) \<Longrightarrow> all_ok P (if b then x else y)"
  by simp

lemma delays_exiting_trace:
  assumes "clock_law (te_clock (pe_tamper PE))"
  shows "all_ok (\<lambda>(r, limit', st', dt', tcp'). delays dt tcp dt' tcp')
    (syscall_exiting_trace A opt PE F res (limit, st, dt, tcp))"
proof -
  have a: "all_ok (\<lambda>(rc, st', dt', tcp'). delays dt tcp dt' tcp')
      (if b then tamper_with_syscall_exiting A (pe_tamper PE) F (st, dt, tcp) else Inr (0, st, dt, tcp))" for b
    by (intro all_ok_if delays_tamper_exiting [OF assms]) (simp add: keeps_delays)
  have f: "delays dt tcp dt' ((if c then clear_tcb_flag TCB_REPRINT tcp' else tcp')\<lparr>t_s_prev_ent := e\<rparr>)"
    if "delays dt tcp dt' tcp'" for dt' tcp' c e
    by (rule delays_keeps [OF that keeps_trans [where b = "if c then clear_tcb_flag TCB_REPRINT tcp' else tcp'"]])
      (simp_all add: keeps_flags keepsI ids_def)
  show ?thesis
    unfolding syscall_exiting_trace_def Let_def prod.case
    by (intro all_ok_rbind [OF a]) (clarify, (intro all_ok_if; simp only: all_ok_simps prod.case; erule f))
qed

lemma delays_trace_syscall:
  assumes "clock_law (te_clock (pe_tamper PE))"
  shows "all_ok (\<lambda>(res, sig', limit', st', dt', tcp'). delays dt tcp dt' tcp')
    (trace_syscall A opt PE F sig (limit, st, dt, tcp))"
proof (cases "entering tcp")
  case True
  have e: "all_ok (\<lambda>(res, sig', st', dt', tcp'). delays dt tcp dt' tcp')
      (if res = 1 then syscall_entering_trace A opt PE F sig (st1, dt, tcp1) else Inr (res, sig, st1, dt, tcp1))"
    if "keeps tcp tcp1" for res st1 tcp1
    using that keeps_delays_trans [OF that] by (auto intro!: all_ok_mono [OF delays_entering_trace [OF assms]] keeps_delays)
  show ?thesis
    unfolding trace_syscall_def prod.case if_P [OF True]
    by (rule all_ok_rbind [OF keeps_entering_decode], clarify, rule all_ok_if, simp add: keeps_delays,
        erule all_ok_rbind [OF e], clarsimp, erule delays_keeps, rule keeps_entering_finish)
next
  case False
  have e: "all_ok (\<lambda>(res, limit', st', dt', tcp'). delays dt tcp dt' tcp')
      (if res \<noteq> 0 then syscall_exiting_trace A opt PE F res (limit, st1, dt, tcp1) else Inr (res, limit, st1, dt, tcp1))"
    if "keeps tcp tcp1" for res st1 tcp1
    using that keeps_delays_trans [OF that] by (auto intro!: all_ok_mono [OF delays_exiting_trace [OF assms]] keeps_delays)
  show ?thesis
    unfolding trace_syscall_def prod.case if_not_P [OF False]
    by (rule all_ok_rbind [OF keeps_exiting_decode], clarify, erule all_ok_rbind [OF e], clarsimp,
        erule delays_keeps, rule keeps_exiting_finish)
qed

end
