(* ===== verification/Tcb_Table.thy ===== *)
theory Tcb_Table
  imports Trace_Syscall Seccomp_Setup
begin

text \<open>
  The state of the main loop of \<^verbatim>\<open>src/src/strace.c\<close>, its table of trace control blocks with the
  lookup by process number, and detaching from a tracee. A pointer to a block is its index in the
  table. The list \<^verbatim>\<open>pending_tcps\<close> is a list of indices (\<^verbatim>\<open>src/src/list.h\<close> has a theory of its own);
  a block is in no other list. Output files and messages are left out.
\<close>

section \<open>State\<close>

text \<open>How a function of the loop may fail to return: the tracer dies, waits, or follows a null pointer.\<close>

datatype halt = Died die | Waiting | Crash

definition lift :: "die + 'a \<Rightarrow> halt + 'a" where
  "lift r = (case r of Inl e \<Rightarrow> Inl (Died e) | Inr x \<Rightarrow> Inr x)"

record 'k loop =
  l_sys :: "'k sysst"
  l_timer :: delay_timer
  l_tab :: "tcb list"
  l_nprocs :: nat
  l_cache :: "nat \<Rightarrow> nat option"
  l_current :: "nat option"
  l_pending :: "nat list"
  l_extra :: "nat option"
  l_extra_idx :: nat
  l_wait_tab :: "tcb_wait_data list"
  l_strace_child :: nat
  l_popen_pid :: nat
  l_exit_code :: nat
  l_interrupted :: nat
  l_restart_failed :: bool
  l_limit :: int

datatype request_answer = OK | ESRCH | Other_Error

datatype waitpid_answer = WP_EINTR | WP_Error | WP_Status u32

text \<open>The kernel: the requests for each tracee, the clock, and what the waits of one detaching return.\<close>

record 'k loop_env =
  le_phase :: "nat \<Rightarrow> 'k phase_env"
  le_ptrace :: "restart_operator \<Rightarrow> nat \<Rightarrow> nat \<Rightarrow> 'k \<Rightarrow> request_answer \<times> 'k"
  le_interrupt :: "nat \<Rightarrow> 'k \<Rightarrow> request_answer \<times> 'k"
  le_tkill :: "nat \<Rightarrow> nat \<Rightarrow> 'k \<Rightarrow> request_answer \<times> 'k"
  le_setoptions :: "nat \<Rightarrow> request_answer"
  le_clock :: clock
  le_waitpid :: "waitpid_answer list"
  le_os_release :: nat

definition upd_tcb :: "nat \<Rightarrow> (tcb \<Rightarrow> tcb) \<Rightarrow> 'k loop \<Rightarrow> 'k loop" where
  "upd_tcb i f s = s\<lparr>l_tab := (l_tab s)[i := f (l_tab s ! i)]\<rparr>"

definition set_kst :: "'k \<Rightarrow> 'k loop \<Rightarrow> 'k loop" where
  "set_kst k s = s\<lparr>l_sys := (l_sys s)\<lparr>kst := k\<rparr>\<rparr>"

section \<open>Allocation\<close>

definition zero_tcb :: "'a arch_scheme \<Rightarrow> tcb" where
  "zero_tcb A =
     \<lparr>t_flags = 0, t_pid = 0, t_qual_flg = 0, t_currpers = 0, t_u_error = 0, t_scno = 0, t_true_scno = 0,
      t_u_arg = replicate MAX_ARGS 0, t_u_rval = 0, t_sys_func_rval = 0, t_s_ent = None, t_s_prev_ent = None,
      t_inject_vec = replicate (SUPPORTED_PERSONALITIES A) None, t_stime = zero_ts, t_ltime = zero_ts,
      t_atime = zero_ts, t_etime = zero_ts, t_delay_expiration_time = zero_ts, t_wait_data_idx = 0,
      t_delayed_wait_data = None\<rparr>"

definition expand_tcbtab :: "'a arch_scheme \<Rightarrow> 'k loop \<Rightarrow> 'k loop" where
  "expand_tcbtab A s =
     s\<lparr>l_tab := l_tab s @ replicate (grow_capacity (length (l_tab s)) 8 - length (l_tab s)) (zero_tcb A)\<rparr>"

definition find_tcb :: "nat \<Rightarrow> 'k loop \<Rightarrow> nat option" where
  "find_tcb pid s = find (\<lambda>i. t_pid (l_tab s ! i) = pid) [0..<length (l_tab s)]"

definition alloctcb :: "'a arch_scheme \<Rightarrow> nat \<Rightarrow> 'k loop \<Rightarrow> die + nat \<times> 'k loop" where
  "alloctcb A pid s =
     (let s = (if l_nprocs s = length (l_tab s) then expand_tcbtab A s else s)
      in case find_tcb 0 s of
           None \<Rightarrow> Inl (Die ''bug in alloctcb'')
         | Some i \<Rightarrow>
             Inr (i, (upd_tcb i (\<lambda>_. (zero_tcb A)\<lparr>t_pid := pid, t_currpers := current_personality (l_sys s)\<rparr>) s)
                \<lparr>l_nprocs := l_nprocs s + 1\<rparr>))"

definition after_successful_attach :: "u32 \<Rightarrow> tcb \<Rightarrow> tcb" where
  "after_successful_attach flags = set_tcb_flag (TCB_ATTACHED OR TCB_STARTUP OR flags)"

definition droptcb :: "'a arch_scheme \<Rightarrow> nat \<Rightarrow> 'k loop \<Rightarrow> 'k loop" where
  "droptcb A i s =
     (if t_pid (l_tab s ! i) = 0 then s
      else (upd_tcb i (\<lambda>_. zero_tcb A) s)
        \<lparr>l_nprocs := l_nprocs s - 1,
         l_current := (if l_current s = Some i then None else l_current s),
         l_pending := filter (\<lambda>j. j \<noteq> i) (l_pending s)\<rparr>)"

section \<open>Lookup\<close>

abbreviation PID2TCB_CACHE_SIZE :: nat where "PID2TCB_CACHE_SIZE \<equiv> 1024"

definition pid2tcb :: "nat \<Rightarrow> 'k loop \<Rightarrow> nat option \<times> 'k loop" where
  "pid2tcb pid s =
     (if pid = 0 then (None, s)
      else let c = pid mod PID2TCB_CACHE_SIZE;
               scan = (case find_tcb pid s of
                  None \<Rightarrow> (None, s)
                | Some i \<Rightarrow> (Some i, s\<lparr>l_cache := (l_cache s)(c := Some i)\<rparr>))
           in case l_cache s c of
                None \<Rightarrow> scan
              | Some i \<Rightarrow> if t_pid (l_tab s ! i) = pid then (Some i, s) else scan)"

section \<open>Detaching\<close>

definition ptrace_restart :: "'k loop_env \<Rightarrow> restart_operator \<Rightarrow> nat \<Rightarrow> nat \<Rightarrow> 'k loop \<Rightarrow> bool \<times> 'k loop" where
  "ptrace_restart L op i sig s =
     (case le_ptrace L op (t_pid (l_tab s ! i)) sig (kst (l_sys s)) of
        (r, k) \<Rightarrow> (r \<noteq> Other_Error, set_kst k s))"

text \<open>Whether the tracee has to be waited for.\<close>

definition detach_or_interrupt_or_stop ::
    "trace_opts \<Rightarrow> 'k loop_env \<Rightarrow> nat \<Rightarrow> 'k loop \<Rightarrow> bool \<times> 'k loop" where
  "detach_or_interrupt_or_stop opt L i s =
     (let tcp = l_tab s ! i; pid = t_pid tcp
      in if \<not> has TCB_ATTACHED tcp then (False, s)
         else if has TCB_IGNORE_ONE_SIGSTOP tcp then (True, s)
         else case le_ptrace L PTRACE_DETACH pid 0 (kst (l_sys s)) of (r, k) \<Rightarrow>
           let s = set_kst k s
           in if r \<noteq> ESRCH then (False, s)
              else case le_tkill L pid 0 (kst (l_sys s)) of (r, k) \<Rightarrow>
                let s = set_kst k s
                in if r \<noteq> OK then (False, s)
                   else case (if o_use_seize opt then le_interrupt L pid (kst (l_sys s))
                              else le_tkill L pid (unat SIGSTOP) (kst (l_sys s))) of
                          (r, k) \<Rightarrow> (r = OK, set_kst k s))"

text \<open>Whether the tracee can be dropped.\<close>

definition detach_interrupted_or_stopped ::
    "trace_opts \<Rightarrow> 'k loop_env \<Rightarrow> nat \<Rightarrow> u32 \<Rightarrow> 'k loop \<Rightarrow> bool \<times> 'k loop" where
  "detach_interrupted_or_stopped opt L i status s =
     (let sig = WSTOPSIG status; nosys = (if sig = syscall_trap_sig then 0 else unat sig)
      in if \<not> WIFSTOPPED status then (True, s)
         else if o_use_seize opt then
           (True, snd (ptrace_restart L PTRACE_DETACH i
              (if status_event status = PTRACE_EVENT_STOP then 0 else nosys) s))
         else if sig = SIGSTOP then (True, snd (ptrace_restart L PTRACE_DETACH i 0 s))
         else case ptrace_restart L PTRACE_CONT i nosys s of (ok, s) \<Rightarrow> (\<not> ok, s))"

fun detach_wait :: "trace_opts \<Rightarrow> 'k loop_env \<Rightarrow> nat \<Rightarrow> waitpid_answer list \<Rightarrow> 'k loop \<Rightarrow> halt + 'k loop" where
  "detach_wait opt L i [] s = Inl Waiting"
| "detach_wait opt L i (WP_EINTR # ws) s = detach_wait opt L i ws s"
| "detach_wait opt L i (WP_Error # ws) s = Inr s"
| "detach_wait opt L i (WP_Status status # ws) s =
     (case detach_interrupted_or_stopped opt L i status s of (done, s) \<Rightarrow>
        if done then Inr s else detach_wait opt L i ws s)"

definition detach :: "'a arch_scheme \<Rightarrow> trace_opts \<Rightarrow> 'k loop_env \<Rightarrow> nat \<Rightarrow> 'k loop \<Rightarrow> halt + 'k loop" where
  "detach A opt L i s =
     (case detach_or_interrupt_or_stop opt L i s of (wait, s) \<Rightarrow>
        rbind (if wait then detach_wait opt L i (le_waitpid L) s else Inr s) (\<lambda>s. Inr (droptcb A i s)))"

section \<open>The table invariant\<close>

text \<open>
  The number of processes is the number of blocks in use, no two blocks have the same process, the
  cache points into the table, and the waiting blocks are different and in use.
\<close>

definition live :: "'k loop \<Rightarrow> nat \<Rightarrow> bool" where
  "live s i \<longleftrightarrow> i < length (l_tab s) \<and> t_pid (l_tab s ! i) \<noteq> 0"

definition tab_inv :: "'k loop \<Rightarrow> bool" where
  "tab_inv s \<longleftrightarrow>
     l_nprocs s = card {i. live s i} \<and>
     (\<forall>i j. live s i \<longrightarrow> live s j \<longrightarrow> t_pid (l_tab s ! i) = t_pid (l_tab s ! j) \<longrightarrow> i = j) \<and>
     (\<forall>c i. l_cache s c = Some i \<longrightarrow> i < length (l_tab s)) \<and>
     distinct (l_pending s) \<and> (\<forall>i \<in> set (l_pending s). live s i)"

lemma finite_live [simp]: "finite {i. live s i}"
  by (rule finite_subset [of _ "{..<length (l_tab s)}"]) (auto simp: live_def)

lemma upd_tcb_simps [simp]:
  "length (l_tab (upd_tcb i f s)) = length (l_tab s)" "l_nprocs (upd_tcb i f s) = l_nprocs s"
  "l_cache (upd_tcb i f s) = l_cache s" "l_pending (upd_tcb i f s) = l_pending s"
  "l_sys (upd_tcb i f s) = l_sys s" "l_timer (upd_tcb i f s) = l_timer s" "l_current (upd_tcb i f s) = l_current s"
  "l_extra (upd_tcb i f s) = l_extra s" "l_extra_idx (upd_tcb i f s) = l_extra_idx s"
  "l_wait_tab (upd_tcb i f s) = l_wait_tab s" "l_strace_child (upd_tcb i f s) = l_strace_child s"
  "l_popen_pid (upd_tcb i f s) = l_popen_pid s" "l_exit_code (upd_tcb i f s) = l_exit_code s"
  "l_interrupted (upd_tcb i f s) = l_interrupted s" "l_restart_failed (upd_tcb i f s) = l_restart_failed s"
  "l_limit (upd_tcb i f s) = l_limit s"
  "i < length (l_tab s) \<Longrightarrow> l_tab (upd_tcb i f s) ! i = f (l_tab s ! i)"
  "i \<noteq> j \<Longrightarrow> l_tab (upd_tcb i f s) ! j = l_tab s ! j"
  by (simp_all add: upd_tcb_def)

lemma set_kst_simps [simp]:
  "l_tab (set_kst k s) = l_tab s" "l_nprocs (set_kst k s) = l_nprocs s" "l_cache (set_kst k s) = l_cache s"
  "l_pending (set_kst k s) = l_pending s" "l_timer (set_kst k s) = l_timer s" "l_current (set_kst k s) = l_current s"
  "l_extra (set_kst k s) = l_extra s" "l_extra_idx (set_kst k s) = l_extra_idx s"
  "l_wait_tab (set_kst k s) = l_wait_tab s" "l_strace_child (set_kst k s) = l_strace_child s"
  "l_interrupted (set_kst k s) = l_interrupted s" "l_restart_failed (set_kst k s) = l_restart_failed s"
  "l_sys (set_kst k s) = (l_sys s)\<lparr>kst := k\<rparr>" "l_limit (set_kst k s) = l_limit s"
  by (simp_all add: set_kst_def)

lemma map_eq_nth:
  assumes "map f xs = map f ys" shows "length xs = length ys" "i < length ys \<Longrightarrow> f (xs ! i) = f (ys ! i)"
proof -
  show len: "length xs = length ys" using assms by (rule map_eq_imp_length_eq)
  show "f (xs ! i) = f (ys ! i)" if "i < length ys" using arg_cong [OF assms, of "\<lambda>l. l ! i"] that len by simp
qed

lemma live_cong: "map t_pid (l_tab s') = map t_pid (l_tab s) \<Longrightarrow> live s' = live s"
  using map_eq_nth [of t_pid "l_tab s'" "l_tab s"] by (auto simp: live_def fun_eq_iff)

lemma tab_inv_cong:
  assumes "map t_pid (l_tab s') = map t_pid (l_tab s)" "l_nprocs s' = l_nprocs s" "l_cache s' = l_cache s"
    and "l_pending s' = l_pending s"
  shows "tab_inv s' \<longleftrightarrow> tab_inv s"
proof -
  have "live s i \<Longrightarrow> t_pid (l_tab s' ! i) = t_pid (l_tab s ! i)" for i
    using map_eq_nth(2) [OF assms(1)] by (simp add: live_def)
  then show ?thesis
    unfolding tab_inv_def live_cong [OF assms(1)] assms(2-4) map_eq_nth(1) [OF assms(1)] by (simp cong: imp_cong)
qed

lemma tab_inv_cache:
  "tab_inv s \<Longrightarrow> (\<And>c i. C c = Some i \<Longrightarrow> i < length (l_tab s)) \<Longrightarrow> tab_inv (s\<lparr>l_cache := C\<rparr>)"
  by (simp add: tab_inv_def live_def)

lemma map_pid_upd:
  "(i < length (l_tab s) \<Longrightarrow> t_pid (f (l_tab s ! i)) = t_pid (l_tab s ! i)) \<Longrightarrow>
   map t_pid (l_tab (upd_tcb i f s)) = map t_pid (l_tab s)"
  by (cases "i < length (l_tab s)") (auto simp: upd_tcb_def intro!: nth_equalityI simp: nth_list_update)

lemma find_tcb_Some:
  "find_tcb pid s = Some i \<Longrightarrow> i < length (l_tab s) \<and> t_pid (l_tab s ! i) = pid"
  by (auto simp: find_tcb_def find_Some_iff)

lemma find_tcb_None:
  "find_tcb pid s = None \<longleftrightarrow> (\<forall>i < length (l_tab s). t_pid (l_tab s ! i) \<noteq> pid)"
  by (auto simp: find_tcb_def find_None_iff)

lemma find_tcb_live:
  assumes "tab_inv s" "live s i" shows "find_tcb (t_pid (l_tab s ! i)) s = Some i"
proof (cases "find_tcb (t_pid (l_tab s ! i)) s")
  case None
  then show ?thesis using assms(2) by (auto simp: find_tcb_None live_def)
next
  case (Some j)
  then have "live s j" "t_pid (l_tab s ! j) = t_pid (l_tab s ! i)"
    using find_tcb_Some [OF Some] assms(2) by (auto simp: live_def)
  then show ?thesis using assms Some by (auto simp: tab_inv_def)
qed

lemma pid2tcb_result:
  assumes "tab_inv s"
  shows "fst (pid2tcb pid s) = (if pid = 0 then None else find_tcb pid s)"
    and "\<exists>c. snd (pid2tcb pid s) = s\<lparr>l_cache := c\<rparr>" "tab_inv (snd (pid2tcb pid s))"
proof -
  have hit: "find_tcb pid s = Some i" if "l_cache s c = Some i" "t_pid (l_tab s ! i) = pid" "pid \<noteq> 0" for c i
    using find_tcb_live [OF assms, of i] that assms by (auto simp: live_def tab_inv_def)
  then show "fst (pid2tcb pid s) = (if pid = 0 then None else find_tcb pid s)"
    by (auto simp: pid2tcb_def Let_def split: option.splits)
  have "\<exists>c. s = s\<lparr>l_cache := c\<rparr>" by (rule exI [of _ "l_cache s"]) simp
  then show "\<exists>c. snd (pid2tcb pid s) = s\<lparr>l_cache := c\<rparr>"
    by (auto simp: pid2tcb_def Let_def split: option.splits)
  show "tab_inv (snd (pid2tcb pid s))"
  proof (cases "snd (pid2tcb pid s) = s")
    case False
    then obtain i where i: "find_tcb pid s = Some i"
      "snd (pid2tcb pid s) = s\<lparr>l_cache := (l_cache s)(pid mod PID2TCB_CACHE_SIZE \<mapsto> i)\<rparr>"
      by (auto simp: pid2tcb_def Let_def split: option.splits if_splits)
    show ?thesis unfolding i(2)
      by (rule tab_inv_cache [OF assms])
        (use find_tcb_Some [OF i(1)] assms in \<open>auto simp: tab_inv_def split: if_splits\<close>)
  qed (use assms in simp)
qed

lemma upd_tcb_pid_inv:
  assumes "i < length (l_tab s) \<Longrightarrow> t_pid (f (l_tab s ! i)) = t_pid (l_tab s ! i)"
  shows "tab_inv (upd_tcb i f s) \<longleftrightarrow> tab_inv s" "live (upd_tcb i f s) = live s"
proof -
  have m: "map t_pid (l_tab (upd_tcb i f s)) = map t_pid (l_tab s)" by (rule map_pid_upd) (rule assms)
  show "tab_inv (upd_tcb i f s) \<longleftrightarrow> tab_inv s" by (rule tab_inv_cong [OF m]) simp_all
  show "live (upd_tcb i f s) = live s" by (rule live_cong [OF m])
qed

lemma card_live_le: "card {i. live s i} \<le> length (l_tab s)"
  using card_mono [of "{..<length (l_tab s)}" "{i. live s i}"] by (auto simp: live_def)

lemma free_tcb:
  assumes "tab_inv s" "l_nprocs s < length (l_tab s)"
  shows "\<exists>i. find_tcb 0 s = Some i"
proof (rule ccontr)
  assume "\<not> ?thesis"
  then have "{i. live s i} = {..<length (l_tab s)}" by (auto simp: find_tcb_None live_def)
  then show False using assms by (simp add: tab_inv_def)
qed

lemma live_expand: "live (expand_tcbtab A s) = live s"
  by (auto simp: fun_eq_iff live_def expand_tcbtab_def nth_append zero_tcb_def)

lemma expand_inv:
  assumes "tab_inv s"
  shows "tab_inv (expand_tcbtab A s)" "length (l_tab s) < length (l_tab (expand_tcbtab A s))"
    "live s i \<Longrightarrow> l_tab (expand_tcbtab A s) ! i = l_tab s ! i"
proof -
  show l: "length (l_tab s) < length (l_tab (expand_tcbtab A s))"
    using grow_capacity_greater [of 8 "length (l_tab s)"] by (simp add: expand_tcbtab_def)
  show n: "live s i \<Longrightarrow> l_tab (expand_tcbtab A s) ! i = l_tab s ! i" for i
    by (simp add: expand_tcbtab_def nth_append live_def)
  have f: "l_nprocs (expand_tcbtab A s) = l_nprocs s" "l_cache (expand_tcbtab A s) = l_cache s"
    "l_pending (expand_tcbtab A s) = l_pending s" by (simp_all add: expand_tcbtab_def)
  have "\<And>c i. l_cache s c = Some i \<Longrightarrow> i < length (l_tab (expand_tcbtab A s))"
    using assms l unfolding tab_inv_def by (meson less_trans)
  then show "tab_inv (expand_tcbtab A s)"
    using assms n unfolding tab_inv_def live_expand f by simp
qed

text \<open>The table before the new block is put into it.\<close>

lemma alloc_table:
  assumes "tab_inv s" "s1 = (if l_nprocs s = length (l_tab s) then expand_tcbtab A s else s)"
  shows "tab_inv s1" "live s1 = live s" "length (l_tab s) \<le> length (l_tab s1)" "l_nprocs s1 < length (l_tab s1)"
    "live s j \<Longrightarrow> l_tab s1 ! j = l_tab s ! j" "s1 = s\<lparr>l_tab := l_tab s1\<rparr>"
proof -
  have n: "l_nprocs (expand_tcbtab A s) = l_nprocs s" by (simp add: expand_tcbtab_def)
  have c: "l_nprocs s \<le> length (l_tab s)" using assms(1) card_live_le [of s] by (simp add: tab_inv_def)
  note e = expand_inv [OF assms(1), where A = A] live_expand [of A s]
  have r: "expand_tcbtab A s = s\<lparr>l_tab := l_tab (expand_tcbtab A s)\<rparr>" by (simp add: expand_tcbtab_def)
  show "tab_inv s1" "live s1 = live s" "length (l_tab s) \<le> length (l_tab s1)" "l_nprocs s1 < length (l_tab s1)"
    "live s j \<Longrightarrow> l_tab s1 ! j = l_tab s ! j" "s1 = s\<lparr>l_tab := l_tab s1\<rparr>"
    unfolding assms(2) using e assms(1) n c r by simp_all
qed

text \<open>Allocating a block for a new process.\<close>

lemma alloctcb_new:
  assumes "tab_inv s" "pid \<noteq> 0" "find_tcb pid s = None"
  obtains i tab n where "alloctcb A pid s = Inr (i, s\<lparr>l_tab := tab, l_nprocs := n\<rparr>)"
    "tab_inv (s\<lparr>l_tab := tab, l_nprocs := n\<rparr>)"
    "live (s\<lparr>l_tab := tab, l_nprocs := n\<rparr>) = (\<lambda>j. j = i \<or> live s j)" "\<not> live s i"
    "t_pid (tab ! i) = pid" "\<not> syscall_delayed (tab ! i)" "\<And>j. live s j \<Longrightarrow> tab ! j = l_tab s ! j"
    "length (l_tab s) \<le> length tab"
proof -
  define s1 where "s1 = (if l_nprocs s = length (l_tab s) then expand_tcbtab A s else s)"
  note s1 = alloc_table [OF assms(1) s1_def]
  obtain i where i: "find_tcb 0 s1 = Some i" using free_tcb [OF s1(1,4)] by blast
  define t where "t = (zero_tcb A)\<lparr>t_pid := pid, t_currpers := current_personality (l_sys s1)\<rparr>"
  define s2 where "s2 = (upd_tcb i (\<lambda>_. t) s1)\<lparr>l_nprocs := l_nprocs s1 + 1\<rparr>"
  have il: "i < length (l_tab s1)" "\<not> live s i"
    using find_tcb_Some [OF i] unfolding s1(2) [symmetric] by (auto simp: live_def)
  have ne: "live s j \<Longrightarrow> i \<noteq> j" for j using il(2) by auto
  have nth: "l_tab s2 ! i = t" "\<And>j. live s j \<Longrightarrow> l_tab s2 ! j = l_tab s ! j" "length (l_tab s2) = length (l_tab s1)"
    using il(1) s1(5) ne by (simp_all add: s2_def)
  have "live s2 j \<longleftrightarrow> j = i \<or> live s j" for j
    using il(1) assms(2) unfolding s1(2) [symmetric]
    by (cases "j = i") (simp_all add: live_def s2_def t_def)
  then have live: "live s2 = (\<lambda>j. j = i \<or> live s j)" by auto
  have old: "t_pid (l_tab s ! j) \<noteq> pid" if "live s j" for j
    using assms(3) that by (auto simp: find_tcb_None live_def)
  have "{j. j = i \<or> live s j} = insert i {j. live s j}" by auto
  then have card: "card {j. j = i \<or> live s j} = Suc (card {j. live s j})" using il(2) by simp
  have f: "l_nprocs s2 = Suc (l_nprocs s1)" "l_cache s2 = l_cache s1" "l_pending s2 = l_pending s1"
    by (simp_all add: s2_def)
  have "tab_inv s2"
    using s1(1) old nth il(2) unfolding tab_inv_def live s1(2) card f nth(3)
    by (auto simp: t_def s1(5))
  moreover have "s2 = s\<lparr>l_tab := l_tab s2, l_nprocs := l_nprocs s2\<rparr>"
    by (subst (1) s2_def, subst (1) s1(6)) (simp add: s2_def upd_tcb_def)
  moreover have "alloctcb A pid s = Inr (i, s2)"
    using i by (simp add: alloctcb_def Let_def s1_def [symmetric] s2_def t_def)
  ultimately show ?thesis
    using live il(2) nth s1(3) that [where i = i and tab = "l_tab s2" and n = "l_nprocs s2"] by (simp add: t_def zero_tcb_def has_def)
qed

lemma droptcb_inv:
  assumes "tab_inv s" "i < length (l_tab s)"
  shows "tab_inv (droptcb A i s)" "live (droptcb A i s) = (\<lambda>j. live s j \<and> j \<noteq> i)"
proof -
  have live: "live (droptcb A i s) j \<longleftrightarrow> live s j \<and> j \<noteq> i" for j
    using assms(2) by (cases "j = i") (auto simp: live_def droptcb_def zero_tcb_def)
  then show l: "live (droptcb A i s) = (\<lambda>j. live s j \<and> j \<noteq> i)" by auto
  show "tab_inv (droptcb A i s)"
  proof (cases "live s i")
    case True
    have "{j. live s j \<and> j \<noteq> i} = {j. live s j} - {i}" by auto
    then have c: "card {j. live s j \<and> j \<noteq> i} = card {j. live s j} - 1" using True by simp
    have f: "l_nprocs (droptcb A i s) = l_nprocs s - 1" "l_cache (droptcb A i s) = l_cache s"
      "l_pending (droptcb A i s) = filter (\<lambda>j. j \<noteq> i) (l_pending s)"
      "length (l_tab (droptcb A i s)) = length (l_tab s)" "\<And>j. j \<noteq> i \<Longrightarrow> l_tab (droptcb A i s) ! j = l_tab s ! j"
      using True by (simp_all add: droptcb_def live_def)
    show ?thesis
      using assms(1) unfolding tab_inv_def l c f(1-4) by (auto simp: f(5))
  next
    case False
    then have "droptcb A i s = s" using assms(2) by (simp add: droptcb_def live_def)
    then show ?thesis using assms(1) by simp
  qed
qed

lemma droptcb_simps [simp]:
  "l_extra (droptcb A i s) = l_extra s" "l_extra_idx (droptcb A i s) = l_extra_idx s"
  "l_wait_tab (droptcb A i s) = l_wait_tab s" "l_timer (droptcb A i s) = l_timer s" "l_sys (droptcb A i s) = l_sys s"
  "l_restart_failed (droptcb A i s) = l_restart_failed s" "length (l_tab (droptcb A i s)) = length (l_tab s)"
  "l_strace_child (droptcb A i s) = l_strace_child s" "l_exit_code (droptcb A i s) = l_exit_code s"
  "l_cache (droptcb A i s) = l_cache s" "i \<noteq> j \<Longrightarrow> l_tab (droptcb A i s) ! j = l_tab s ! j"
  "l_interrupted (droptcb A i s) = l_interrupted s" "l_limit (droptcb A i s) = l_limit s"
  by (simp_all add: droptcb_def)

section \<open>Properties\<close>

text \<open>C27: In a table whose blocks belong to different processes, looking up a process through the
  cache finds the block a search of the table finds. A process that is not in the table gets a block
  without failing, the lookup then finds exactly this block, and finds the other processes as
  before.\<close>

theorem tcb_table_lookup:
  assumes "tab_inv s" "pid \<noteq> 0"
  shows "fst (pid2tcb pid s) = find_tcb pid s \<and>
    (find_tcb pid s = None \<longrightarrow> (\<exists>i s'. alloctcb A pid s = Inr (i, s') \<and> tab_inv s' \<and>
       fst (pid2tcb pid s') = Some i \<and>
       (\<forall>pid'. pid' \<noteq> 0 \<longrightarrow> pid' \<noteq> pid \<longrightarrow> fst (pid2tcb pid' s') = fst (pid2tcb pid' s))))"
proof (intro conjI impI)
  show "fst (pid2tcb pid s) = find_tcb pid s" using pid2tcb_result(1) [OF assms(1)] assms(2) by simp
  assume "find_tcb pid s = None"
  then obtain i tab n where a: "alloctcb A pid s = Inr (i, s\<lparr>l_tab := tab, l_nprocs := n\<rparr>)"
    "tab_inv (s\<lparr>l_tab := tab, l_nprocs := n\<rparr>)"
    "live (s\<lparr>l_tab := tab, l_nprocs := n\<rparr>) = (\<lambda>j. j = i \<or> live s j)"
    "t_pid (tab ! i) = pid" "\<And>j. live s j \<Longrightarrow> tab ! j = l_tab s ! j"
    by (rule alloctcb_new [OF assms, where A = A]) (rule that; assumption)
  let ?s = "s\<lparr>l_tab := tab, l_nprocs := n\<rparr>"
  have "find_tcb pid ?s = Some i" using find_tcb_live [OF a(2), of i] a(3,4) by simp
  moreover have "find_tcb pid' ?s = find_tcb pid' s" if "pid' \<noteq> 0" "pid' \<noteq> pid" for pid'
  proof (cases "find_tcb pid' s")
    case None
    have "find_tcb pid' ?s \<noteq> Some j" for j
    proof
      assume "find_tcb pid' ?s = Some j"
      from find_tcb_Some [OF this] that have "live ?s j" "t_pid (tab ! j) = pid'" by (auto simp: live_def)
      then show False using a(3-5) None that by (auto simp: find_tcb_None live_def fun_eq_iff)
    qed
    then show ?thesis using None by auto
  next
    case (Some j)
    then have "live s j" "t_pid (l_tab s ! j) = pid'" using find_tcb_Some [OF Some] that by (auto simp: live_def)
    then show ?thesis using find_tcb_live [OF a(2), of j] a(3,5) Some by auto
  qed
  ultimately show "\<exists>i s'. alloctcb A pid s = Inr (i, s') \<and> tab_inv s' \<and> fst (pid2tcb pid s') = Some i \<and>
      (\<forall>pid'. pid' \<noteq> 0 \<longrightarrow> pid' \<noteq> pid \<longrightarrow> fst (pid2tcb pid' s') = fst (pid2tcb pid' s))"
    using a(1,2) pid2tcb_result(1) [OF a(2)] pid2tcb_result(1) [OF assms(1)] assms(2) by auto
qed

text \<open>A table of two processes, the second in the cache slot of the first.\<close>

definition two_procs :: "'k \<Rightarrow> 'k loop" where
  "two_procs k =
     \<lparr>l_sys = \<lparr>sci = \<lparr>sci_op = SCI_UNSET, sci_arch = 0, sci_nr = 0, sci_args = [], sci_is_error = False, sci_rval = 0\<rparr>,
        get_regs_error = - 1, use_getregs_old = 0,
        regs = X86_64 \<lparr>rax = 0, orig_rax = 0, rbx = 0, rcx = 0, rdx = 0, rsi = 0, rdi = 0, rbp = 0,
          r8 = 0, r9 = 0, r10 = 0, cs = 0\<rparr>, current_personality = 0, kst = k\<rparr>,
      l_timer = \<lparr>timer_created = False, timer_armed = False, timer_at = zero_ts\<rparr>,
      l_tab = [(zero_tcb small_arch)\<lparr>t_pid := 7\<rparr>, (zero_tcb small_arch)\<lparr>t_pid := 1031\<rparr>],
      l_nprocs = 2, l_cache = Map.empty(7 \<mapsto> 1), l_current = None, l_pending = [], l_extra = None,
      l_extra_idx = 0, l_wait_tab = [], l_strace_child = 7, l_popen_pid = 0, l_exit_code = 0,
      l_interrupted = 0, l_restart_failed = False, l_limit = - 1\<rparr>"

lemma two_procs_inv: "tab_inv (two_procs k)"
proof -
  have "live (two_procs k) i \<longleftrightarrow> i = 0 \<or> i = 1" for i
    by (cases i) (auto simp: live_def two_procs_def less_Suc_eq)
  moreover have "{i. i = 0 \<or> i = 1} = {0, 1 :: nat}" by auto
  ultimately show ?thesis by (auto simp: tab_inv_def two_procs_def)
qed

theorem tcb_table_lookup_witness:
  "fst (pid2tcb 7 (two_procs ())) = Some 0 \<and>
   (\<exists>i s'. alloctcb small_arch 9 (two_procs ()) = Inr (i, s') \<and> fst (pid2tcb 9 s') = Some i)"
proof -
  have "find_tcb 7 (two_procs ()) = Some 0" "find_tcb 9 (two_procs ()) = None"
    by (simp_all add: find_tcb_def two_procs_def upt_rec zero_tcb_def)
  then show ?thesis
    using tcb_table_lookup [OF two_procs_inv [of "()"], of 7 small_arch] tcb_table_lookup [OF two_procs_inv [of "()"], of 9 small_arch]
    by auto
qed

end
