(* ===== verification/Event_Loop.thy ===== *)
theory Event_Loop
  imports Tcb_Table
begin

text \<open>
  The main loop of \<^verbatim>\<open>src/src/strace.c\<close>: waiting for events, handling them, and restarting the tracees
  whose delay is over. What \<^verbatim>\<open>wait4\<close> returns, one answer after the other, and the times at which the
  timer signal arrives are arguments.
\<close>

section \<open>Waiting\<close>

record wait_event =
  we_pid :: nat
  we_status :: u32
  we_stime :: timespec
  we_siginfo :: bool
  we_msg :: "u64 option"

datatype wait4_answer = W_EINTR | W_ECHILD | W_Error | W_Zero | W_Event wait_event

abbreviation SIGTSTP :: u32 where "SIGTSTP \<equiv> 20"
abbreviation SIGTTIN :: u32 where "SIGTTIN \<equiv> 21"
abbreviation SIGTTOU :: u32 where "SIGTTOU \<equiv> 22"

definition maybe_allocate_tcb ::
    "'a arch_scheme \<Rightarrow> trace_opts \<Rightarrow> 'k loop_env \<Rightarrow> nat \<Rightarrow> u32 \<Rightarrow> 'k loop \<Rightarrow> die + nat option \<times> 'k loop" where
  "maybe_allocate_tcb A opt L pid status s =
     (if \<not> WIFSTOPPED status then
        Inr (None, if o_detach_on_execve opt \<and> pid = l_strace_child s then s\<lparr>l_strace_child := 0\<rparr> else s)
      else if o_followfork opt then
        rbind (alloctcb A pid s) (\<lambda>(i, s).
          Inr (Some i, upd_tcb i (after_successful_attach
            (if o_use_seize opt then 0 else TCB_IGNORE_ONE_SIGSTOP)) s))
      else case le_ptrace L PTRACE_DETACH pid 0 (kst (l_sys s)) of (r, k) \<Rightarrow> Inr (None, set_kst k s))"

text \<open>The event a wait status stands for, and the block afterwards.\<close>

definition classify :: "wait_event \<Rightarrow> tcb \<Rightarrow> tcb_wait_data \<times> tcb" where
  "classify e tcp =
     (let status = we_status e; sig = WSTOPSIG status; event = status_event status;
          wd = (\<lambda>te. \<lparr>wd_te = te, wd_status = status, wd_msg = 0\<rparr>)
      in if WIFSIGNALED status then (wd TE_SIGNALLED, tcp)
         else if WIFEXITED status then (wd TE_EXITED, tcp)
         else if event = 0 then
           if sig = SIGSTOP \<and> has TCB_IGNORE_ONE_SIGSTOP tcp
           then (wd TE_RESTART, clear_tcb_flag TCB_IGNORE_ONE_SIGSTOP tcp)
           else if sig = syscall_trap_sig then (wd TE_SYSCALL_STOP, tcp)
           else (wd (if we_siginfo e then TE_SIGNAL_DELIVERY_STOP else TE_GROUP_STOP), tcp)
         else if event = PTRACE_EVENT_STOP then
           (wd (if sig \<in> {SIGSTOP, SIGTSTP, SIGTTIN, SIGTTOU} then TE_GROUP_STOP else TE_RESTART), tcp)
         else if event = PTRACE_EVENT_EXEC then
           ((wd TE_STOP_BEFORE_EXECVE)\<lparr>wd_msg := (case we_msg e of None \<Rightarrow> 0 | Some m \<Rightarrow> m)\<rparr>, tcp)
         else if event = PTRACE_EVENT_EXIT then (wd TE_STOP_BEFORE_EXIT, tcp)
         else if event = PTRACE_EVENT_SECCOMP then (wd TE_SECCOMP, tcp)
         else (wd TE_RESTART, tcp))"

definition set_wait_tab :: "nat \<Rightarrow> tcb_wait_data \<Rightarrow> tcb_wait_data list \<Rightarrow> tcb_wait_data list" where
  "set_wait_tab pos wd tab =
     (if pos < length tab then tab[pos := wd]
      else tab @ replicate (pos - length tab) \<lparr>wd_te = TE_BREAK, wd_status = 0, wd_msg = 0\<rparr> @ [wd])"

text \<open>One event of a known tracee: recorded, and the tracee queued or marked as the extra one.\<close>

definition queue_event :: "trace_opts \<Rightarrow> wait_event \<Rightarrow> nat \<Rightarrow> nat \<Rightarrow> 'k loop \<Rightarrow> 'k loop" where
  "queue_event opt e pos i s =
     (let s = (if o_cflag opt \<noteq> CFLAG_NONE then upd_tcb i (\<lambda>t. t\<lparr>t_stime := we_stime e\<rparr>) s else s);
          (wd, tcp) = classify e (l_tab s ! i);
          s = (upd_tcb i (\<lambda>_. tcp) s)\<lparr>l_wait_tab := set_wait_tab pos wd (l_wait_tab s)\<rparr>
      in if i \<in> set (l_pending s) then s\<lparr>l_extra_idx := pos, l_extra := Some i\<rparr>
         else (upd_tcb i (\<lambda>t. t\<lparr>t_wait_data_idx := pos\<rparr>) s)\<lparr>l_pending := l_pending s @ [i]\<rparr>)"

text \<open>The loop over the answers; the result says whether the caller goes on.\<close>

fun wait_loop ::
    "'a arch_scheme \<Rightarrow> trace_opts \<Rightarrow> 'k loop_env \<Rightarrow> bool \<Rightarrow> nat \<Rightarrow> wait4_answer list \<Rightarrow> 'k loop \<Rightarrow> halt + bool \<times> 'k loop" where
  "wait_loop A opt L nohang pos [] s = Inl Waiting"
| "wait_loop A opt L nohang pos (W_EINTR # ws) s = Inr (True, s)"
| "wait_loop A opt L nohang pos (W_ECHILD # ws) s =
     (if nohang then Inr (True, s)
      else if l_nprocs s = 0 then Inr (False, s)
      else Inl (Died (Die ''wait4(__WALL)'')))"
| "wait_loop A opt L nohang pos (W_Error # ws) s =
     (if nohang then Inr (True, s) else Inl (Died (Die ''wait4(__WALL)'')))"
| "wait_loop A opt L nohang pos (W_Zero # ws) s = Inr (True, s)"
| "wait_loop A opt L nohang pos (W_Event e # ws) s =
     (if we_pid e = l_popen_pid s then
        Inr (True, if WIFSTOPPED (we_status e) then s else s\<lparr>l_popen_pid := 0\<rparr>)
      else rbind (case pid2tcb (we_pid e) s of
               (Some i, s) \<Rightarrow> Inr (Some i, s)
             | (None, s) \<Rightarrow> lift (maybe_allocate_tcb A opt L (we_pid e) (we_status e) s)) (\<lambda>(r, s).
        case r of
          None \<Rightarrow> wait_loop A opt L True pos ws s
        | Some i \<Rightarrow>
            let s = queue_event opt e pos i s
            in if l_extra s \<noteq> None then Inr (True, s) else wait_loop A opt L True (pos + 1) ws s))"

section \<open>Events\<close>

definition startup_tcb ::
    "'a arch_scheme \<Rightarrow> trace_opts \<Rightarrow> 'k loop_env \<Rightarrow> filters \<Rightarrow> nat \<Rightarrow> 'k loop \<Rightarrow> die + 'k loop" where
  "startup_tcb A opt L F i s =
     (let s = upd_tcb i (clear_tcb_flag TCB_STARTUP) s; pid = t_pid (l_tab s ! i); PE = le_phase L pid;
          atime = (\<lambda>s. if o_cflag opt \<noteq> CFLAG_NONE then upd_tcb i (\<lambda>t. t\<lparr>t_atime := t_stime t\<rparr>) s else s)
      in if \<not> o_use_seize opt \<and> le_setoptions L pid = Other_Error then Inl (Die ''PTRACE_SETOPTIONS'')
         else if has TCB_GRABBED (l_tab s ! i) then
           rbind (get_scno A (pe_ops PE) (pe_printargs PE) F (l_sys s, l_tab s ! i)) (\<lambda>(r, st, tcp).
             Inr (atime (upd_tcb i (\<lambda>_. if r = 1 then tcp\<lparr>t_s_prev_ent := t_s_ent tcp\<rparr> else tcp) (s\<lparr>l_sys := st\<rparr>))))
         else Inr (atime s))"

definition ptrace_dispatch ::
    "'k loop_env \<Rightarrow> restart_operator \<Rightarrow> nat \<Rightarrow> nat \<Rightarrow> tcb_wait_data \<Rightarrow> 'k loop \<Rightarrow> halt + bool \<times> 'k loop" where
  "ptrace_dispatch L op i sig wd s =
     (if l_interrupted s \<noteq> 0 then Inr (False, s)
      else if syscall_delayed (l_tab s ! i) then
        Inr (True, upd_tcb i (\<lambda>t. t\<lparr>t_delayed_wait_data := Some wd\<rparr>) s)
      else case ptrace_restart L op i sig s of (ok, s) \<Rightarrow>
        if ok then Inr (True, s) else Inr (False, s\<lparr>l_exit_code := 1\<rparr>))"

definition trace_current ::
    "'a arch_scheme \<Rightarrow> trace_opts \<Rightarrow> 'k loop_env \<Rightarrow> filters \<Rightarrow> nat \<Rightarrow> 'k loop \<Rightarrow> halt + int \<times> nat \<times> 'k loop" where
  "trace_current A opt L F i s =
     rbind (lift (trace_syscall A opt (le_phase L (t_pid (l_tab s ! i))) F 0
              (l_limit s, l_sys s, l_timer s, l_tab s ! i))) (\<lambda>(res, sig, limit, st, dt, tcp).
       Inr (res, sig, upd_tcb i (\<lambda>_. tcp) (s\<lparr>l_limit := limit, l_sys := st, l_timer := dt\<rparr>)))"

definition maybe_switch_tcbs ::
    "'a arch_scheme \<Rightarrow> trace_opts \<Rightarrow> 'k loop_env \<Rightarrow> nat \<Rightarrow> nat \<Rightarrow> 'k loop \<Rightarrow> nat option \<times> 'k loop" where
  "maybe_switch_tcbs A opt L i pid s =
     (let old_pid = unat (wd_msg (l_wait_tab s ! t_wait_data_idx (l_tab s ! i)))
      in if le_os_release L < 0x30000 \<or> old_pid = 0 \<or> old_pid = pid \<or> old_pid \<ge> 2 ^ 31 then (None, s)
         else case pid2tcb old_pid s of
           (None, s) \<Rightarrow> (None, s)
         | (Some j, s) \<Rightarrow>
             let s = droptcb A i s;
                 s = upd_tcb j (\<lambda>t. t\<lparr>t_pid := pid\<rparr>) s
             in (Some j, if o_cflag opt \<noteq> CFLAG_ONLY_STATS then upd_tcb j (set_tcb_flag TCB_REPRINT) s else s))"

definition maybe_switch_current_tcp ::
    "'a arch_scheme \<Rightarrow> trace_opts \<Rightarrow> 'k loop_env \<Rightarrow> nat \<Rightarrow> 'k loop \<Rightarrow> nat option \<times> 'k loop" where
  "maybe_switch_current_tcp A opt L i s =
     (case maybe_switch_tcbs A opt L i (t_pid (l_tab s ! i)) s of
        (Some j, s) \<Rightarrow> (Some j, s\<lparr>l_current := Some j\<rparr>)
      | (None, s) \<Rightarrow> (None, s))"

definition print_signalled :: "nat \<Rightarrow> u32 \<Rightarrow> 'k loop \<Rightarrow> 'k loop" where
  "print_signalled pid status s =
     (if pid = l_strace_child s
      then s\<lparr>l_exit_code := 0x100 + unat (WTERMSIG status), l_strace_child := 0\<rparr> else s)"

definition print_exited :: "nat \<Rightarrow> u32 \<Rightarrow> 'k loop \<Rightarrow> 'k loop" where
  "print_exited pid status s =
     (if pid = l_strace_child s
      then s\<lparr>l_exit_code := unat (WEXITSTATUS status), l_strace_child := 0\<rparr> else s)"

text \<open>The case of a stop before \<^verbatim>\<open>execve\<close>, for the block \<open>i\<close>.\<close>

definition dispatch_execve ::
    "'a arch_scheme \<Rightarrow> trace_opts \<Rightarrow> 'k loop_env \<Rightarrow> filters \<Rightarrow> restart_operator \<Rightarrow> nat \<Rightarrow> tcb_wait_data \<Rightarrow> 'k loop \<Rightarrow>
     halt + bool \<times> 'k loop" where
  "dispatch_execve A opt L F op i wd s =
     (let s = upd_tcb i (clear_tcb_flag TCB_CHECK_EXEC_SYSCALL) s
      in case maybe_switch_current_tcp A opt L i s of (sw, s) \<Rightarrow>
        let j = (case sw of None \<Rightarrow> i | Some j \<Rightarrow> j)
        in rbind (if sw = None \<and> entering (l_tab s ! j) then
             rbind (trace_current A opt L F j (upd_tcb j (set_tcb_flag TCB_RECOVERING) s)) (\<lambda>(ret, sig, s).
               Inr (ret, sig, upd_tcb j (clear_tcb_flag TCB_RECOVERING) s))
           else Inr (0, 0, s)) (\<lambda>(ret, sig, s).
             if ret < 0 then Inr (True, s)
             else if o_detach_on_execve opt then
               if has TCB_SKIP_DETACH_ON_FIRST_EXEC (l_tab s ! j)
               then ptrace_dispatch L op j sig wd (upd_tcb j (clear_tcb_flag TCB_SKIP_DETACH_ON_FIRST_EXEC) s)
               else rbind (detach A opt L j s) (\<lambda>s. Inr (True, s))
             else ptrace_dispatch L op j sig wd s))"

definition dispatch_syscall ::
    "'a arch_scheme \<Rightarrow> trace_opts \<Rightarrow> 'k loop_env \<Rightarrow> filters \<Rightarrow> restart_operator \<Rightarrow> nat \<Rightarrow> tcb_wait_data \<Rightarrow> 'k loop \<Rightarrow>
     halt + bool \<times> 'k loop" where
  "dispatch_syscall A opt L F op i wd s =
     rbind (trace_current A opt L F i s) (\<lambda>(res, sig, s).
       if res < 0 then Inr (True, s)
       else ptrace_dispatch L
         (if has_seccomp_filter (l_tab s ! i)
          then if exiting (l_tab s ! i) then PTRACE_SYSCALL else PTRACE_CONT
          else op) i sig wd s)"

definition dispatch_event ::
    "'a arch_scheme \<Rightarrow> trace_opts \<Rightarrow> 'k loop_env \<Rightarrow> filters \<Rightarrow> tcb_wait_data option \<Rightarrow> 'k loop \<Rightarrow>
     halt + bool \<times> 'k loop" where
  "dispatch_event A opt L F wdo s =
     (case wdo of
        None \<Rightarrow> Inr (False, s)
      | Some wd \<Rightarrow>
          if wd_te wd = TE_BREAK then Inr (False, s)
          else if wd_te wd = TE_NEXT then Inr (True, s)
          else case l_current s of
            None \<Rightarrow> Inl Crash
          | Some i \<Rightarrow>
              let tcp = l_tab s ! i; status = wd_status wd; sig = unat (WSTOPSIG status);
                  op = (if has_seccomp_filter tcp
                        then seccomp_filter_restart_operator A F (o_stack_trace opt)
                               (current_personality (l_sys s)) (exiting tcp) (unat (t_scno tcp))
                        else PTRACE_SYSCALL)
              in case wd_te wd of
                   TE_SECCOMP \<Rightarrow>
                     if \<not> has_seccomp_filter tcp
                     then ptrace_dispatch L PTRACE_SYSCALL i 0 wd (upd_tcb i (set_tcb_flag TCB_SECCOMP_FILTER) s)
                     else if o_seccomp_before_sysentry opt then ptrace_dispatch L PTRACE_SYSCALL i 0 wd s
                     else dispatch_syscall A opt L F op i wd s
                 | TE_SYSCALL_STOP \<Rightarrow> dispatch_syscall A opt L F op i wd s
                 | TE_SIGNAL_DELIVERY_STOP \<Rightarrow> ptrace_dispatch L op i sig wd s
                 | TE_SIGNALLED \<Rightarrow> Inr (True, droptcb A i (print_signalled (t_pid tcp) status s))
                 | TE_GROUP_STOP \<Rightarrow>
                     if o_use_seize opt then ptrace_dispatch L PTRACE_LISTEN i 0 wd s
                     else ptrace_dispatch L op i sig wd s
                 | TE_EXITED \<Rightarrow> Inr (True, droptcb A i (print_exited (t_pid tcp) status s))
                 | TE_STOP_BEFORE_EXECVE \<Rightarrow> dispatch_execve A opt L F op i wd s
                 | _ \<Rightarrow> ptrace_dispatch L op i 0 wd s)"

section \<open>Delayed tracees\<close>

definition restart_delayed_tcb ::
    "'a arch_scheme \<Rightarrow> trace_opts \<Rightarrow> 'k loop_env \<Rightarrow> filters \<Rightarrow> nat \<Rightarrow> 'k loop \<Rightarrow> halt + bool \<times> 'k loop" where
  "restart_delayed_tcb A opt L F i s =
     (let wd = (case t_delayed_wait_data (l_tab s ! i) of
                  None \<Rightarrow> \<lparr>wd_te = TE_BREAK, wd_status = 0, wd_msg = 0\<rparr> | Some wd \<Rightarrow> wd);
          wd = wd\<lparr>wd_te := TE_RESTART\<rparr>;
          s = upd_tcb i (clear_tcb_flag TCB_DELAYED) s;
          prev_tcp = l_current s
      in rbind (dispatch_event A opt L F (Some wd) (s\<lparr>l_current := Some i\<rparr>)) (\<lambda>(ret, s).
           Inr (ret, upd_tcb i (\<lambda>t. t\<lparr>t_delayed_wait_data := None\<rparr>) (s\<lparr>l_current := prev_tcp\<rparr>))))"

fun restart_delayed_loop ::
    "'a arch_scheme \<Rightarrow> trace_opts \<Rightarrow> 'k loop_env \<Rightarrow> filters \<Rightarrow> nat list \<Rightarrow> nat option \<Rightarrow> 'k loop \<Rightarrow>
     halt + bool \<times> nat option \<times> 'k loop" where
  "restart_delayed_loop A opt L F [] tcp_next s = Inr (True, tcp_next, s)"
| "restart_delayed_loop A opt L F (i # is) tcp_next s =
     (let tcp = l_tab s ! i
      in if t_pid tcp \<noteq> 0 \<and> syscall_delayed tcp then
           if ts_cmp (clk_now (le_clock L)) (t_delay_expiration_time tcp) > 0 then
             rbind (restart_delayed_tcb A opt L F i s) (\<lambda>(ok, s).
               if ok then restart_delayed_loop A opt L F is tcp_next s else Inr (False, tcp_next, s))
           else restart_delayed_loop A opt L F is
             (case tcp_next of
                None \<Rightarrow> Some i
              | Some j \<Rightarrow> if ts_cmp (t_delay_expiration_time (l_tab s ! j)) (t_delay_expiration_time tcp) > 0
                          then Some i else Some j) s
         else restart_delayed_loop A opt L F is tcp_next s)"

definition restart_delayed_tcbs ::
    "'a arch_scheme \<Rightarrow> trace_opts \<Rightarrow> 'k loop_env \<Rightarrow> filters \<Rightarrow> 'k loop \<Rightarrow> halt + bool \<times> 'k loop" where
  "restart_delayed_tcbs A opt L F s =
     rbind (restart_delayed_loop A opt L F [0..<length (l_tab s)] None s) (\<lambda>(ok, tcp_next, s).
       if \<not> ok then Inr (False, s)
       else case tcp_next of
         None \<Rightarrow> Inr (True, s)
       | Some i \<Rightarrow> rbind (lift (arm_delay_timer (le_clock L) (l_tab s ! i) (l_timer s))) (\<lambda>dt.
           Inr (True, s\<lparr>l_timer := dt\<rparr>)))"

definition timer_sighandler ::
    "'a arch_scheme \<Rightarrow> trace_opts \<Rightarrow> 'k loop_env \<Rightarrow> filters \<Rightarrow> 'k loop \<Rightarrow> halt + 'k loop" where
  "timer_sighandler A opt L F s =
     (let s = s\<lparr>l_timer := delay_timer_expired (l_timer s)\<rparr>
      in if l_restart_failed s then Inr s
         else rbind (restart_delayed_tcbs A opt L F s) (\<lambda>(ok, s).
           Inr (if ok then s else s\<lparr>l_restart_failed := True\<rparr>)))"

text \<open>The timer signal while it is unblocked: one environment, with its clock, for each arrival.\<close>

fun alarms :: "'a arch_scheme \<Rightarrow> trace_opts \<Rightarrow> filters \<Rightarrow> 'k loop_env list \<Rightarrow> 'k loop \<Rightarrow> halt + 'k loop" where
  "alarms A opt F [] s = Inr s"
| "alarms A opt F (L # Ls) s = rbind (timer_sighandler A opt L F s) (alarms A opt F Ls)"

section \<open>The loop\<close>

definition next_event_exit ::
    "'a arch_scheme \<Rightarrow> trace_opts \<Rightarrow> 'k loop_env \<Rightarrow> filters \<Rightarrow> nat \<Rightarrow> 'k loop \<Rightarrow>
     halt + tcb_wait_data option \<times> 'k loop" where
  "next_event_exit A opt L F i s =
     (let s = s\<lparr>l_sys := clear_regs (l_sys s)\<rparr>
      in rbind (lift (if has TCB_STARTUP (l_tab s ! i) then startup_tcb A opt L F i s else Inr s)) (\<lambda>s.
           Inr (Some (l_wait_tab s ! t_wait_data_idx (l_tab s ! i)), s\<lparr>l_current := Some i\<rparr>)))"

definition next_event_get_tcp ::
    "'a arch_scheme \<Rightarrow> trace_opts \<Rightarrow> 'k loop_env \<Rightarrow> filters \<Rightarrow> 'k loop \<Rightarrow>
     halt + tcb_wait_data option \<times> 'k loop" where
  "next_event_get_tcp A opt L F s =
     (case l_pending s of
        [] \<Rightarrow>
          let wd = \<lparr>wd_te = TE_NEXT, wd_status = 0, wd_msg = 0\<rparr>
          in Inr (Some wd, s\<lparr>l_wait_tab := set_wait_tab 0 wd (l_wait_tab s)\<rparr>)
      | i # is \<Rightarrow> next_event_exit A opt L F i (s\<lparr>l_pending := is\<rparr>))"

definition next_event ::
    "'a arch_scheme \<Rightarrow> trace_opts \<Rightarrow> 'k loop_env \<Rightarrow> filters \<Rightarrow> 'k loop_env list \<Rightarrow> wait4_answer list \<Rightarrow> 'k loop \<Rightarrow>
     halt + tcb_wait_data option \<times> 'k loop" where
  "next_event A opt L F Ls ws s =
     (if l_interrupted s \<noteq> 0 then Inr (None, s)
      else if l_limit s = 0 then Inr (None, s\<lparr>l_strace_child := 0\<rparr>)
      else if l_pending s \<noteq> [] then next_event_get_tcp A opt L F s
      else case l_extra s of
        Some i \<Rightarrow>
          next_event_exit A opt L F i
            (upd_tcb i (\<lambda>t. t\<lparr>t_wait_data_idx := l_extra_idx s\<rparr>) (s\<lparr>l_extra := None\<rparr>))
      | None \<Rightarrow>
          if l_popen_pid s \<noteq> 0 \<and> l_nprocs s = 0 then Inr (None, s)
          else let armed = timer_armed (l_timer s)
            in rbind (if armed then alarms A opt F Ls s else Inr s) (\<lambda>s.
              if armed \<and> l_restart_failed s then Inr (None, s)
              else rbind (wait_loop A opt L False 0 ws s) (\<lambda>(go, s).
                if go then next_event_get_tcp A opt L F s else Inr (None, s))))"

text \<open>
  \<^verbatim>\<open>main\<close> after the initialization, over the inputs of successive rounds.
\<close>

type_synonym 'k round = "'k loop_env \<times> 'k loop_env list \<times> wait4_answer list"

definition main_step ::
    "'a arch_scheme \<Rightarrow> trace_opts \<Rightarrow> filters \<Rightarrow> 'k round \<Rightarrow> 'k loop \<Rightarrow> halt + bool \<times> 'k loop" where
  "main_step A opt F = (\<lambda>(L, Ls, ws) s.
     rbind (next_event A opt L F Ls ws s) (\<lambda>(wd, s). dispatch_event A opt L F wd s))"

fun main_loop ::
    "'a arch_scheme \<Rightarrow> trace_opts \<Rightarrow> filters \<Rightarrow> 'k round list \<Rightarrow> 'k loop \<Rightarrow> halt + 'k loop" where
  "main_loop A opt F [] s = Inl Waiting"
| "main_loop A opt F (r # rs) s =
     rbind (main_step A opt F r s) (\<lambda>(go, s). if go then main_loop A opt F rs s else Inr s)"

end
