(* ===== verification/Event_Safety.thy ===== *)
theory Event_Safety
  imports Event_Loop
begin

text \<open>
  The properties of the main loop: the invariant of its state, what the timer does for delayed
  tracees, and two cases in which an event or a signal is lost.
\<close>

section \<open>Results without a crash\<close>

definition safe :: "('a \<Rightarrow> bool) \<Rightarrow> halt + 'a \<Rightarrow> bool" where
  "safe P r \<longleftrightarrow> r \<noteq> Inl Crash \<and> all_ok P r"

lemma safe_simps [simp]: "safe P (Inr x) \<longleftrightarrow> P x" "safe P (Inl h) \<longleftrightarrow> h \<noteq> Crash"
  by (simp_all add: safe_def)

lemma safe_rbind: "safe P r \<Longrightarrow> (\<And>x. P x \<Longrightarrow> safe Q (f x)) \<Longrightarrow> safe Q (rbind r f)"
  by (cases r) simp_all

lemma safe_mono: "safe P r \<Longrightarrow> (\<And>x. P x \<Longrightarrow> Q x) \<Longrightarrow> safe Q r"
  by (cases r) simp_all

lemma safe_lift: "all_ok P r \<Longrightarrow> safe P (lift r)"
  by (cases r) (simp_all add: lift_def)

lemma safe_if: "(b \<Longrightarrow> safe P x) \<Longrightarrow> (\<not> b \<Longrightarrow> safe P y) \<Longrightarrow> safe P (if b then x else y)"
  by simp

section \<open>The invariant\<close>

text \<open>
  The table invariant; the waiting blocks, the extra one and the current one point into the tables;
  and while a tracee is delayed, the timer is armed or restarting has failed.
\<close>

definition base_inv :: "'k loop \<Rightarrow> bool" where
  "base_inv s \<longleftrightarrow> tab_inv s \<and>
     (\<forall>i \<in> set (l_pending s). t_wait_data_idx (l_tab s ! i) < length (l_wait_tab s)) \<and>
     (\<forall>i. l_extra s = Some i \<longrightarrow> i < length (l_tab s) \<and> l_extra_idx s < length (l_wait_tab s)) \<and>
     (\<forall>i. l_current s = Some i \<longrightarrow> i < length (l_tab s))"

definition delayed :: "'k loop \<Rightarrow> nat \<Rightarrow> bool" where
  "delayed s i \<longleftrightarrow> live s i \<and> syscall_delayed (l_tab s ! i)"

definition armed_inv :: "'k loop \<Rightarrow> bool" where
  "armed_inv s \<longleftrightarrow> timer_armed (l_timer s) \<or> l_restart_failed s \<or> (\<forall>i. \<not> delayed s i)"

definition loop_inv :: "'k loop \<Rightarrow> bool" where
  "loop_inv s \<longleftrightarrow> base_inv s \<and> armed_inv s"

definition extra_live :: "'k loop \<Rightarrow> bool" where
  "extra_live s \<longleftrightarrow> (\<forall>i. l_extra s = Some i \<longrightarrow> live s i)"

text \<open>A step that changes neither the table nor the queue, and delays a tracee only with the timer armed.\<close>

definition same_queue :: "'k loop \<Rightarrow> 'k loop \<Rightarrow> bool" where
  "same_queue s s' \<longleftrightarrow>
     map t_pid (l_tab s') = map t_pid (l_tab s) \<and>
     map t_wait_data_idx (l_tab s') = map t_wait_data_idx (l_tab s) \<and>
     l_nprocs s' = l_nprocs s \<and> l_cache s' = l_cache s \<and> l_pending s' = l_pending s \<and>
     l_extra s' = l_extra s \<and> l_extra_idx s' = l_extra_idx s \<and> l_wait_tab s' = l_wait_tab s"

definition quiet :: "'k loop \<Rightarrow> 'k loop \<Rightarrow> bool" where
  "quiet s s' \<longleftrightarrow> same_queue s s' \<and> l_current s' = l_current s \<and>
     (timer_armed (l_timer s) \<longrightarrow> timer_armed (l_timer s')) \<and>
     (l_restart_failed s \<longrightarrow> l_restart_failed s') \<and>
     (\<forall>i < length (l_tab s). syscall_delayed (l_tab s' ! i) \<longrightarrow>
        syscall_delayed (l_tab s ! i) \<or> timer_armed (l_timer s'))"

lemma same_queue_refl [simp]: "same_queue s s"
  by (simp add: same_queue_def)

lemma same_queue_trans: "same_queue a b \<Longrightarrow> same_queue b c \<Longrightarrow> same_queue a c"
  by (simp add: same_queue_def)

lemma same_queueD:
  assumes "same_queue s s'"
  shows "live s' = live s" "length (l_tab s') = length (l_tab s)" "l_extra s' = l_extra s"
    "i < length (l_tab s) \<Longrightarrow> t_pid (l_tab s' ! i) = t_pid (l_tab s ! i)"
    "i < length (l_tab s) \<Longrightarrow> t_wait_data_idx (l_tab s' ! i) = t_wait_data_idx (l_tab s ! i)"
  using assms live_cong [of s' s] map_eq_nth [of t_pid "l_tab s'" "l_tab s"]
    map_eq_nth [of t_wait_data_idx "l_tab s'" "l_tab s"]
  by (simp_all add: same_queue_def)

lemma same_queue_base_inv:
  assumes "same_queue s s'" "base_inv s" "\<And>i. l_current s' = Some i \<Longrightarrow> i < length (l_tab s)"
  shows "base_inv s'"
proof -
  have t: "tab_inv s'" using assms(1,2) tab_inv_cong [of s' s] by (simp add: same_queue_def base_inv_def)
  have p: "i < length (l_tab s)" if "i \<in> set (l_pending s)" for i
    using that assms(2) by (auto simp: base_inv_def tab_inv_def live_def)
  have f: "l_pending s' = l_pending s" "l_extra s' = l_extra s" "l_extra_idx s' = l_extra_idx s"
    "l_wait_tab s' = l_wait_tab s" using assms(1) by (simp_all add: same_queue_def)
  show ?thesis
    using assms(2,3) t p unfolding base_inv_def f by (simp add: same_queueD [OF assms(1)])
qed

lemma quiet_refl [simp]: "quiet s s"
  by (simp add: quiet_def)

lemma quiet_trans: "quiet a b \<Longrightarrow> quiet b c \<Longrightarrow> quiet a c"
  using same_queueD(2) [of a b] unfolding quiet_def by (auto intro: same_queue_trans)

lemma quiet_inv:
  assumes "quiet s s'" "loop_inv s" shows "loop_inv s'"
proof -
  have q: "same_queue s s'" "l_current s' = l_current s" using assms(1) by (simp_all add: quiet_def)
  have "base_inv s'"
    by (rule same_queue_base_inv [OF q(1)]) (use assms(2) q(2) in \<open>auto simp: loop_inv_def base_inv_def\<close>)
  moreover have "armed_inv s'"
    using assms same_queueD [OF q(1)] unfolding quiet_def loop_inv_def armed_inv_def delayed_def live_def by auto
  ultimately show ?thesis by (simp add: loop_inv_def)
qed

lemma quiet_extra: "quiet s s' \<Longrightarrow> extra_live s' \<longleftrightarrow> extra_live s"
  using same_queueD [of s s'] by (simp add: quiet_def extra_live_def)

section \<open>Steps that change no table\<close>

lemma upd_tcb_fields:
  "(i < length (l_tab s) \<Longrightarrow> g (f (l_tab s ! i)) = g (l_tab s ! i)) \<Longrightarrow>
   map g (l_tab (upd_tcb i f s)) = map g (l_tab s)"
  by (cases "i < length (l_tab s)") (auto simp: upd_tcb_def intro!: nth_equalityI simp: nth_list_update)

lemma quiet_delays:
  assumes "delays (l_timer s) (l_tab s ! i) dt (f (l_tab s ! i))"
    and "l_tab s1 = l_tab s" "l_timer s1 = dt" "same_queue s s1" "l_current s1 = l_current s"
    "l_restart_failed s1 = l_restart_failed s"
  shows "quiet s (upd_tcb i f s1)"
proof -
  have k: "ids (f (l_tab s ! i)) = ids (l_tab s ! i)" using assms(1) by (simp add: delays_def)
  have "map t_pid (l_tab (upd_tcb i f s1)) = map t_pid (l_tab s1)"
    "map t_wait_data_idx (l_tab (upd_tcb i f s1)) = map t_wait_data_idx (l_tab s1)"
    by (rule upd_tcb_fields; use k in \<open>simp add: ids_def assms(2)\<close>)+
  then have "same_queue s (upd_tcb i f s1)" using assms(4) by (simp add: same_queue_def)
  moreover have "syscall_delayed (l_tab s ! j) \<or> timer_armed dt"
    if "j < length (l_tab s)" "syscall_delayed (l_tab (upd_tcb i f s1) ! j)" for j
    using that assms(1) by (cases "j = i") (auto simp: delays_def assms(2))
  ultimately show ?thesis using assms by (auto simp: quiet_def delays_def)
qed

lemma quiet_keeps: "keeps (l_tab s ! i) (f (l_tab s ! i)) \<Longrightarrow> quiet s (upd_tcb i f s)"
  by (rule quiet_delays [where dt = "l_timer s"]) (simp_all add: keeps_delays)

lemma quiet_field:
  assumes "\<And>t. t_pid (f t) = t_pid t" "\<And>t. t_wait_data_idx (f t) = t_wait_data_idx t" "\<And>t. t_flags (f t) = t_flags t"
  shows "quiet s (upd_tcb i f s)"
proof -
  have "has TCB_DELAYED (l_tab (upd_tcb i f s) ! j) = has TCB_DELAYED (l_tab s ! j)" if "j < length (l_tab s)" for j
    using that assms(3) by (cases "j = i") (simp_all add: has_def)
  moreover have "map t_pid (l_tab (upd_tcb i f s)) = map t_pid (l_tab s)"
    "map t_wait_data_idx (l_tab (upd_tcb i f s)) = map t_wait_data_idx (l_tab s)"
    by (rule upd_tcb_fields, simp add: assms)+
  ultimately show ?thesis by (simp add: quiet_def same_queue_def)
qed

lemma quiet_set_kst [simp]: "quiet s (set_kst k s)"
  by (simp add: quiet_def same_queue_def)

lemma quiet_exit_code [simp]: "quiet s (s\<lparr>l_exit_code := c\<rparr>)" "quiet s (s\<lparr>l_exit_code := c, l_strace_child := n\<rparr>)"
  "quiet s (s\<lparr>l_sys := x\<rparr>)" "quiet s (s\<lparr>l_strace_child := n\<rparr>)" "quiet s (s\<lparr>l_popen_pid := n\<rparr>)"
  by (simp_all add: quiet_def same_queue_def)

lemma quiet_ptrace_restart: "quiet s (snd (ptrace_restart L op i sig s))"
  by (simp add: ptrace_restart_def split: prod.splits)

lemma quiet_ptrace_dispatch: "safe (\<lambda>(go, s'). quiet s s') (ptrace_dispatch L op i sig wd s)"
proof -
  obtain ok s1 where r: "ptrace_restart L op i sig s = (ok, s1)" by fastforce
  then have "quiet s s1" using quiet_ptrace_restart [of s L op i sig] by simp
  then show ?thesis
    by (auto simp: ptrace_dispatch_def r intro: quiet_field quiet_trans)
qed

lemma quiet_trace_current:
  assumes "\<And>pid. clock_law (te_clock (pe_tamper (le_phase L pid)))"
  shows "safe (\<lambda>(res, sig, s'). quiet s s') (trace_current A opt L F i s)"
  unfolding trace_current_def
proof (rule safe_rbind [OF safe_lift [OF delays_trace_syscall [OF assms]]], clarify)
  fix res sig limit st dt tcp
  assume "delays (l_timer s) (l_tab s ! i) dt tcp"
  then show "safe (\<lambda>(res, sig, s'). quiet s s')
      (Inr (res, sig, upd_tcb i (\<lambda>_. tcp) (s\<lparr>l_limit := limit, l_sys := st, l_timer := dt\<rparr>)))"
    by (auto intro!: quiet_delays simp: same_queue_def)
qed

lemma quiet_safe_trans: "quiet s s1 \<Longrightarrow> safe (\<lambda>(go, s'). quiet s1 s') r \<Longrightarrow> safe (\<lambda>(go, s'). quiet s s') r"
  by (erule safe_mono) (auto intro: quiet_trans)

lemma quiet_dispatch_syscall:
  assumes "\<And>pid. clock_law (te_clock (pe_tamper (le_phase L pid)))"
  shows "safe (\<lambda>(go, s'). quiet s s') (dispatch_syscall A opt L F op i wd s)"
  unfolding dispatch_syscall_def
  by (rule safe_rbind [OF quiet_trace_current [OF assms]], clarify)
    (auto intro!: safe_if quiet_safe_trans [OF _ quiet_ptrace_dispatch])

lemma quiet_startup_tcb: "all_ok (\<lambda>s'. quiet s s') (startup_tcb A opt L F i s)"
proof -
  let ?s = "upd_tcb i (clear_tcb_flag TCB_STARTUP) s"
  have q: "quiet s ?s" by (rule quiet_keeps) (rule keeps_flags)
  have a: "quiet s (if b then upd_tcb i (\<lambda>t. t\<lparr>t_atime := t_stime t\<rparr>) s1 else s1)" if "quiet s s1"
    for b and s1 :: "'a loop"
    using quiet_trans [OF that quiet_field, of "\<lambda>t. t\<lparr>t_atime := t_stime t\<rparr>" i] that by simp
  have g: "quiet s (upd_tcb i (\<lambda>_. if r = 1 then tcp\<lparr>t_s_prev_ent := t_s_ent tcp\<rparr> else tcp) (?s\<lparr>l_sys := st\<rparr>))"
    if "keeps (l_tab ?s ! i) tcp" for r :: int and st tcp
    by (rule quiet_trans [OF q], rule quiet_delays [where dt = "l_timer ?s"])
      (use that in \<open>auto simp: same_queue_def delays_def keeps_def ids_def has_def\<close>)
  have "all_ok (\<lambda>s'. quiet s s') (rbind (get_scno A K P F (l_sys ?s, l_tab ?s ! i)) (\<lambda>(r, st, tcp).
      Inr (if b then upd_tcb i (\<lambda>t. t\<lparr>t_atime := t_stime t\<rparr>)
             (upd_tcb i (\<lambda>_. if r = 1 then tcp\<lparr>t_s_prev_ent := t_s_ent tcp\<rparr> else tcp) (?s\<lparr>l_sys := st\<rparr>))
           else upd_tcb i (\<lambda>_. if r = 1 then tcp\<lparr>t_s_prev_ent := t_s_ent tcp\<rparr> else tcp) (?s\<lparr>l_sys := st\<rparr>))))" for K P b
    by (rule all_ok_rbind [OF keeps_get_scno], clarify) (simp only: all_ok_simps, rule a, rule g)
  then show ?thesis
    unfolding startup_tcb_def Let_def by (intro all_ok_if) (simp_all only: all_ok_simps a [OF q])
qed

section \<open>Dispatching an event\<close>

lemma loop_inv_drop:
  assumes "loop_inv s" "i < length (l_tab s)" shows "loop_inv (droptcb A i s)"
proof -
  have t: "tab_inv s" using assms(1) by (simp add: loop_inv_def base_inv_def)
  note d = droptcb_inv [OF t assms(2), where A = A]
  have p: "set (l_pending (droptcb A i s)) \<subseteq> set (l_pending s)"
    "j \<in> set (l_pending (droptcb A i s)) \<Longrightarrow> j \<noteq> i" for j
  proof -
    show "set (l_pending (droptcb A i s)) \<subseteq> set (l_pending s)" by (auto simp: droptcb_def)
    show "j \<in> set (l_pending (droptcb A i s)) \<Longrightarrow> j \<noteq> i" using d by (auto simp: tab_inv_def)
  qed
  have c: "l_current (droptcb A i s) = Some j \<Longrightarrow> l_current s = Some j" for j
    by (auto simp: droptcb_def split: if_splits)
  have "base_inv (droptcb A i s)"
    using assms(1) d(1) p c unfolding loop_inv_def base_inv_def
    by (auto simp: subset_iff) (metis droptcb_simps(11))
  moreover have "armed_inv (droptcb A i s)"
    using assms(1) d(2) unfolding loop_inv_def armed_inv_def delayed_def
    by auto
  ultimately show ?thesis by (simp add: loop_inv_def)
qed

lemma loop_inv_cache:
  assumes "loop_inv s" "tab_inv (s\<lparr>l_cache := c\<rparr>)" shows "loop_inv (s\<lparr>l_cache := c\<rparr>)"
  using assms by (simp add: loop_inv_def base_inv_def armed_inv_def delayed_def live_def)

text \<open>The process of a block that is dropped is given to another block in use.\<close>

lemma loop_inv_rename:
  assumes "loop_inv s" "live s i" "live s j" "i \<noteq> j"
  shows "loop_inv (upd_tcb j (\<lambda>t. t\<lparr>t_pid := t_pid (l_tab s ! i)\<rparr>) (droptcb A i s))" (is "loop_inv ?s")
proof -
  let ?d = "droptcb A i s"
  have li: "i < length (l_tab s)" "j < length (l_tab s)" "t_pid (l_tab s ! i) \<noteq> 0" using assms by (simp_all add: live_def)
  have t: "tab_inv s" using assms(1) by (simp add: loop_inv_def base_inv_def)
  note d = droptcb_inv [OF t li(1), where A = A]
  have dd: "loop_inv ?d" by (rule loop_inv_drop [OF assms(1) li(1)])
  have nth: "l_tab ?s ! k = (if k = j then (l_tab s ! j)\<lparr>t_pid := t_pid (l_tab s ! i)\<rparr> else l_tab ?d ! k)" for k
    using li assms(4) by (cases "k = j") simp_all
  have "live ?s k = live ?d k" for k
  proof (cases "k = j")
    case True
    then show ?thesis using li assms(3,4) by (simp add: d(2)) (simp add: live_def nth)
  qed (simp add: live_def nth)
  then have live: "live ?s = live ?d" by auto
  have old: "t_pid (l_tab s ! k) \<noteq> t_pid (l_tab s ! i)" if "live s k" "k \<noteq> i" for k
    using t that assms(2) by (auto simp: tab_inv_def)
  have "a = b" if "live ?d a" "live ?d b" "t_pid (l_tab ?s ! a) = t_pid (l_tab ?s ! b)" for a b
    using that old [of a] old [of b] t assms(4)
    by (cases "a = j"; cases "b = j") (auto simp: d(2) nth tab_inv_def)
  then have "tab_inv ?s" using d(1) unfolding tab_inv_def live upd_tcb_simps by blast
  moreover have "t_wait_data_idx (l_tab ?s ! k) = t_wait_data_idx (l_tab ?d ! k)"
    "syscall_delayed (l_tab ?s ! k) = syscall_delayed (l_tab ?d ! k)" for k
    unfolding nth using assms(4) by (simp_all add: has_def)
  ultimately show ?thesis
    using dd unfolding loop_inv_def base_inv_def armed_inv_def delayed_def live by simp
qed

lemma maybe_switch_inv:
  assumes "loop_inv s" "live s i" "maybe_switch_current_tcp A opt L i s = (sw, s')"
  shows "loop_inv s'" "(case sw of None \<Rightarrow> i | Some j \<Rightarrow> j) < length (l_tab s')"
proof -
  have t: "tab_inv s" using assms(1) by (simp add: loop_inv_def base_inv_def)
  let ?pid = "t_pid (l_tab s ! i)"
  define old where "old = unat (wd_msg (l_wait_tab s ! t_wait_data_idx (l_tab s ! i)))"
  consider "s' = s" "sw = None"
    | "old \<noteq> 0" "old \<noteq> ?pid" "fst (pid2tcb old s) = None" "s' = snd (pid2tcb old s)" "sw = None"
    | j s2 where "old \<noteq> 0" "old \<noteq> ?pid" "fst (pid2tcb old s) = Some j" "sw = Some j"
        "s2 = upd_tcb j (\<lambda>t. t\<lparr>t_pid := ?pid\<rparr>) (droptcb A i (snd (pid2tcb old s)))"
        "s' = (if o_cflag opt \<noteq> CFLAG_ONLY_STATS then upd_tcb j (set_tcb_flag TCB_REPRINT) s2 else s2)\<lparr>l_current := Some j\<rparr>"
    using assms(3) unfolding maybe_switch_current_tcp_def maybe_switch_tcbs_def old_def [symmetric]
    by (auto simp: Let_def split: prod.splits option.splits if_splits)
  then have "loop_inv s' \<and> (case sw of None \<Rightarrow> i | Some j \<Rightarrow> j) < length (l_tab s')"
  proof cases
    case 1
    then show ?thesis using assms by (simp add: live_def)
  next
    case 2
    obtain c where c: "snd (pid2tcb old s) = s\<lparr>l_cache := c\<rparr>" using pid2tcb_result(2) [OF t] by blast
    then show ?thesis
      using loop_inv_cache [OF assms(1), of c] pid2tcb_result(3) [OF t, of old] 2 assms(2) by (simp add: live_def)
  next
    case 3
    obtain c where c: "snd (pid2tcb old s) = s\<lparr>l_cache := c\<rparr>" using pid2tcb_result(2) [OF t] by blast
    let ?s1 = "s\<lparr>l_cache := c\<rparr>"
    have i1: "loop_inv ?s1" using loop_inv_cache [OF assms(1), of c] pid2tcb_result(3) [OF t, of old] c by simp
    have "find_tcb old s = Some j" using 3 pid2tcb_result(1) [OF t] by simp
    from find_tcb_Some [OF this] have j: "live ?s1 j" "i \<noteq> j" "live ?s1 i"
      using 3 assms(2) by (auto simp: live_def)
    have s2: "loop_inv s2" using loop_inv_rename [OF i1 j(3,1,2), of A] 3 c by simp
    let ?s3 = "if o_cflag opt \<noteq> CFLAG_ONLY_STATS then upd_tcb j (set_tcb_flag TCB_REPRINT) s2 else s2"
    have "quiet s2 (upd_tcb j (set_tcb_flag TCB_REPRINT) s2)" by (rule quiet_keeps) (simp add: keeps_flags)
    from quiet_inv [OF this s2] s2 have s3: "loop_inv ?s3" by simp
    have l: "j < length (l_tab ?s3)" using j(1) 3 c by (simp add: live_def)
    have "base_inv (?s3\<lparr>l_current := Some j\<rparr>)"
      by (rule same_queue_base_inv [of ?s3]) (use s3 l in \<open>simp_all add: loop_inv_def same_queue_def\<close>)
    moreover have "armed_inv (?s3\<lparr>l_current := Some j\<rparr>)"
      using s3 by (simp add: loop_inv_def armed_inv_def delayed_def live_def)
    ultimately show ?thesis using 3(4,6) l by (simp add: loop_inv_def)
  qed
  then show "loop_inv s'" "(case sw of None \<Rightarrow> i | Some j \<Rightarrow> j) < length (l_tab s')" by simp_all
qed

lemma quiet_detach_parts:
  "quiet s (snd (detach_or_interrupt_or_stop opt L i s))" "quiet s (snd (detach_interrupted_or_stopped opt L i status s))"
proof -
  have k: "quiet s (set_kst k3 (set_kst k2 (set_kst k1 s)))" "quiet s (set_kst k2 (set_kst k1 s))" for k1 k2 k3
    by (simp_all add: quiet_def same_queue_def)
  show "quiet s (snd (detach_or_interrupt_or_stop opt L i s))"
    unfolding detach_or_interrupt_or_stop_def Let_def using k by (simp split: prod.split)
  show "quiet s (snd (detach_interrupted_or_stopped opt L i status s))"
    unfolding detach_interrupted_or_stopped_def Let_def
    by (simp add: case_prod_beta quiet_ptrace_restart)
qed

lemma quiet_detach_wait: "safe (\<lambda>s'. quiet s s') (detach_wait opt L i ws s)"
proof (induction opt L i ws s rule: detach_wait.induct)
  case (4 opt L i status ws s)
  obtain d s1 where d: "detach_interrupted_or_stopped opt L i status s = (d, s1)" by fastforce
  then have q: "quiet s s1" using quiet_detach_parts(2) [of s opt L i status] by simp
  show ?case
  proof (cases d)
    case False
    show ?thesis
      using safe_mono [OF 4 [OF d [symmetric] False], of "\<lambda>s'. quiet s s'"] quiet_trans [OF q] False d by simp
  qed (simp add: d q)
qed simp_all

lemma detach_inv:
  assumes "loop_inv s" "i < length (l_tab s)"
  shows "safe loop_inv (detach A opt L i s)"
proof -
  obtain w s1 where d: "detach_or_interrupt_or_stop opt L i s = (w, s1)" by fastforce
  then have q: "quiet s s1" using quiet_detach_parts(1) [of s opt L i] by simp
  have r: "safe (\<lambda>s'. quiet s s') (if w then detach_wait opt L i (le_waitpid L) s1 else Inr s1)"
    using q safe_mono [OF quiet_detach_wait [of s1 opt L i], of "\<lambda>s'. quiet s s'"] quiet_trans [OF q] by simp
  show ?thesis
    unfolding detach_def d prod.case
  proof (rule safe_rbind [OF r])
    fix s2 assume q2: "quiet s s2"
    then have "i < length (l_tab s2)" using assms(2) same_queueD(2) [of s s2] by (simp add: quiet_def)
    then show "safe loop_inv (Inr (droptcb A i s2))" using loop_inv_drop quiet_inv [OF q2 assms(1)] by simp
  qed
qed

lemma safe_quiet_inv: "loop_inv s \<Longrightarrow> safe (\<lambda>(go, s'). quiet s s') r \<Longrightarrow> safe (\<lambda>(go, s'). loop_inv s') r"
  by (erule safe_mono) (auto intro: quiet_inv)

lemma dispatch_execve_inv:
  fixes s :: "'k loop"
  assumes "loop_inv s" "live s i" "\<And>pid. clock_law (te_clock (pe_tamper (le_phase L pid)))"
  shows "safe (\<lambda>(go, s'). loop_inv s') (dispatch_execve A opt L F op i wd s)"
proof -
  let ?s = "upd_tcb i (clear_tcb_flag TCB_CHECK_EXEC_SYSCALL) s"
  have q: "quiet s ?s" by (rule quiet_keeps) (rule keeps_flags)
  obtain sw s1 where sw: "maybe_switch_current_tcp A opt L i ?s = (sw, s1)" by fastforce
  have "live ?s i" using assms(2) same_queueD(1) [of s ?s] q by (simp add: quiet_def)
  note m = maybe_switch_inv [OF quiet_inv [OF q assms(1)] this sw]
  define j where "j = (case sw of None \<Rightarrow> i | Some j \<Rightarrow> j)"
  have j: "j < length (l_tab s1)" using m(2) by (simp add: j_def)
  have t: "safe (\<lambda>(ret, sig, s2). quiet s1 s2)
      (rbind (trace_current A opt L F j (upd_tcb j (set_tcb_flag TCB_RECOVERING) s1)) (\<lambda>(ret, sig, s).
         Inr (ret, sig, upd_tcb j (clear_tcb_flag TCB_RECOVERING) s)))"
  proof (rule safe_rbind [OF quiet_trace_current [OF assms(3)]], clarify)
    fix ret :: int and sig :: nat and s2 :: "'k loop"
    assume a: "quiet (upd_tcb j (set_tcb_flag TCB_RECOVERING) s1) s2"
    have "quiet s1 (upd_tcb j (set_tcb_flag TCB_RECOVERING) s1)" by (rule quiet_keeps) (simp add: keeps_flags)
    moreover have "quiet s2 (upd_tcb j (clear_tcb_flag TCB_RECOVERING) s2)" by (rule quiet_keeps) (rule keeps_flags)
    ultimately show "safe (\<lambda>(ret, sig, s2). quiet s1 s2) (Inr (ret, sig, upd_tcb j (clear_tcb_flag TCB_RECOVERING) s2))"
      using a by (auto intro: quiet_trans)
  qed
  have r: "safe (\<lambda>(ret, sig, s2). quiet s1 s2)
      (if sw = None \<and> entering (l_tab s1 ! j)
       then rbind (trace_current A opt L F j (upd_tcb j (set_tcb_flag TCB_RECOVERING) s1)) (\<lambda>(ret, sig, s).
         Inr (ret, sig, upd_tcb j (clear_tcb_flag TCB_RECOVERING) s))
       else Inr (0, 0, s1))"
    by (rule safe_if [OF t]) simp
  show ?thesis
    unfolding dispatch_execve_def Let_def sw prod.case j_def [symmetric]
  proof (rule safe_rbind [OF r], clarify)
    fix ret :: int and sig :: nat and s2 :: "'k loop"
    assume q2: "quiet s1 s2"
    have i2: "loop_inv s2" by (rule quiet_inv [OF q2 m(1)])
    have l2: "j < length (l_tab s2)" using j same_queueD(2) [of s1 s2] q2 by (simp add: quiet_def)
    have c: "quiet s2 (upd_tcb j (clear_tcb_flag TCB_SKIP_DETACH_ON_FIRST_EXEC) s2)"
      by (rule quiet_keeps) (rule keeps_flags)
    show "safe (\<lambda>(go, s'). loop_inv s') (if ret < 0 then Inr (True, s2)
        else if o_detach_on_execve opt then
          if has TCB_SKIP_DETACH_ON_FIRST_EXEC (l_tab s2 ! j)
          then ptrace_dispatch L op j sig wd (upd_tcb j (clear_tcb_flag TCB_SKIP_DETACH_ON_FIRST_EXEC) s2)
          else rbind (detach A opt L j s2) (\<lambda>s. Inr (True, s))
        else ptrace_dispatch L op j sig wd s2)"
      using i2 quiet_inv [OF c i2]
      by (intro safe_if safe_quiet_inv [OF _ quiet_ptrace_dispatch] safe_rbind [OF detach_inv [OF i2 l2]]) simp_all
  qed
qed

lemma dispatch_event_inv:
  assumes "loop_inv s" "\<And>wd. wdo = Some wd \<Longrightarrow> wd_te wd \<notin> {TE_BREAK, TE_NEXT} \<Longrightarrow> \<exists>i. l_current s = Some i \<and> live s i"
    and "\<And>pid. clock_law (te_clock (pe_tamper (le_phase L pid)))"
  shows "safe (\<lambda>(go, s'). loop_inv s') (dispatch_event A opt L F wdo s)"
proof (cases "\<exists>wd. wdo = Some wd \<and> wd_te wd \<notin> {TE_BREAK, TE_NEXT}")
  case False
  then show ?thesis using assms(1) by (auto simp: dispatch_event_def split: option.split)
next
  case True
  then obtain wd i where w: "wdo = Some wd" "wd_te wd \<noteq> TE_BREAK" "wd_te wd \<noteq> TE_NEXT"
    "l_current s = Some i" "live s i" using assms(2) by auto
  have i: "i < length (l_tab s)" using w(5) by (simp add: live_def)
  note pd = safe_quiet_inv [OF assms(1) quiet_ptrace_dispatch]
  note sc = safe_quiet_inv [OF assms(1) quiet_dispatch_syscall [OF assms(3)]]
  have c: "quiet s (upd_tcb i (set_tcb_flag TCB_SECCOMP_FILTER) s)" by (rule quiet_keeps) (simp add: keeps_flags)
  note ps = safe_quiet_inv [OF quiet_inv [OF c assms(1)] quiet_ptrace_dispatch]
  have pr: "quiet s (print_signalled pid status s)" "quiet s (print_exited pid status s)" for pid status
    by (simp_all add: print_signalled_def print_exited_def)
  have sg: "loop_inv (droptcb A i (print_signalled pid status s))" "loop_inv (droptcb A i (print_exited pid status s))"
    for pid status
    using i by (intro loop_inv_drop quiet_inv [OF pr(1) assms(1)] quiet_inv [OF pr(2) assms(1)];
        simp add: print_signalled_def print_exited_def)+
  show ?thesis
    unfolding dispatch_event_def Let_def w(1,4) option.case if_not_P [OF w(2)] if_not_P [OF w(3)]
    by (cases "wd_te wd") (simp_all only: trace_event.case safe_simps prod.case sg,
        (intro safe_if pd sc ps dispatch_execve_inv [OF assms(1) w(5) assms(3)])+)
qed

section \<open>Waiting for events\<close>

lemma length_set_wait_tab [simp]: "length (set_wait_tab pos wd tab) = max (Suc pos) (length tab)"
  by (simp add: set_wait_tab_def)

lemma keeps_classify_event: "keeps tcp (snd (classify e tcp))"
  by (simp add: classify_def Let_def keeps_flags)

text \<open>A longer table of events, and an event that becomes the last of the queue or the extra one.\<close>

lemma loop_inv_wait_tab:
  assumes "loop_inv s" "length (l_wait_tab s) \<le> length tab" shows "loop_inv (s\<lparr>l_wait_tab := tab\<rparr>)"
proof -
  have "x < length (l_wait_tab s) \<Longrightarrow> x < length tab" for x using assms(2) by simp
  then show ?thesis
    using assms(1) unfolding loop_inv_def base_inv_def armed_inv_def delayed_def tab_inv_def live_def by simp
qed

lemma loop_inv_extra:
  assumes "loop_inv s" "live s i" "pos < length (l_wait_tab s)"
  shows "loop_inv (s\<lparr>l_extra_idx := pos, l_extra := Some i\<rparr>)"
  using assms unfolding loop_inv_def base_inv_def armed_inv_def delayed_def tab_inv_def live_def by simp

lemma loop_inv_append:
  assumes "loop_inv s" "live s i" "i \<notin> set (l_pending s)" "pos < length (l_wait_tab s)"
  shows "loop_inv ((upd_tcb i (\<lambda>t. t\<lparr>t_wait_data_idx := pos\<rparr>) s)\<lparr>l_pending := l_pending s @ [i]\<rparr>)"
    (is "loop_inv (?s\<lparr>l_pending := _\<rparr>)")
proof -
  let ?s' = "?s\<lparr>l_pending := l_pending s @ [i]\<rparr>"
  have i: "i < length (l_tab s)" using assms(2) by (simp add: live_def)
  have nth: "l_tab ?s ! k = (if k = i then (l_tab s ! i)\<lparr>t_wait_data_idx := pos\<rparr> else l_tab s ! k)" for k
    using i by (cases "k = i") simp_all
  have live: "live ?s' = live s" by (simp add: fun_eq_iff live_def nth)
  have p: "t_pid (l_tab ?s' ! k) = t_pid (l_tab s ! k)" "has TCB_DELAYED (l_tab ?s' ! k) = has TCB_DELAYED (l_tab s ! k)"
    "t_wait_data_idx (l_tab ?s' ! k) = (if k = i then pos else t_wait_data_idx (l_tab s ! k))" for k
    by (simp_all add: nth has_def)
  have f: "length (l_tab ?s') = length (l_tab s)" "l_nprocs ?s' = l_nprocs s" "l_cache ?s' = l_cache s"
    "l_pending ?s' = l_pending s @ [i]" "l_wait_tab ?s' = l_wait_tab s" "l_extra ?s' = l_extra s"
    "l_extra_idx ?s' = l_extra_idx s" "l_current ?s' = l_current s" "l_timer ?s' = l_timer s"
    "l_restart_failed ?s' = l_restart_failed s" by simp_all
  have "tab_inv ?s'" using assms unfolding loop_inv_def base_inv_def tab_inv_def live p f by simp
  then show ?thesis
    using assms unfolding loop_inv_def base_inv_def armed_inv_def delayed_def live p f by simp
qed

lemma queue_event_inv:
  assumes "loop_inv s" "live s i" "l_extra s = None"
  shows "loop_inv (queue_event opt e pos i s)" "extra_live (queue_event opt e pos i s)"
proof -
  define s1 where "s1 = (if o_cflag opt \<noteq> CFLAG_NONE then upd_tcb i (\<lambda>t. t\<lparr>t_stime := we_stime e\<rparr>) s else s)"
  obtain wd tcp where c: "classify e (l_tab s1 ! i) = (wd, tcp)" by fastforce
  define s2 where "s2 = (upd_tcb i (\<lambda>_. tcp) s1)\<lparr>l_wait_tab := set_wait_tab pos wd (l_wait_tab s1)\<rparr>"
  have q1: "quiet s s1" by (simp add: s1_def quiet_field)
  have "keeps (l_tab s1 ! i) tcp" using keeps_classify_event [of "l_tab s1 ! i" e] c by simp
  then have q2: "quiet s (upd_tcb i (\<lambda>_. tcp) s1)" by (rule quiet_trans [OF q1 quiet_keeps])
  have s2: "loop_inv s2" unfolding s2_def
    by (rule loop_inv_wait_tab [OF quiet_inv [OF q2 assms(1)]]) simp
  have l2: "live s2 i" "l_extra s2 = None" "pos < length (l_wait_tab s2)"
    using same_queueD(1,3) [of s "upd_tcb i (\<lambda>_. tcp) s1"] q2 assms(2,3)
    by (simp_all add: s2_def quiet_def live_def [abs_def])
  have r: "queue_event opt e pos i s = (if i \<in> set (l_pending s2) then s2\<lparr>l_extra_idx := pos, l_extra := Some i\<rparr>
      else (upd_tcb i (\<lambda>t. t\<lparr>t_wait_data_idx := pos\<rparr>) s2)\<lparr>l_pending := l_pending s2 @ [i]\<rparr>)"
    by (simp add: queue_event_def Let_def s1_def [symmetric] c s2_def)
  show "loop_inv (queue_event opt e pos i s)" "extra_live (queue_event opt e pos i s)"
    using loop_inv_extra [OF s2 l2(1,3)] loop_inv_append [OF s2 l2(1) _ l2(3)] l2
    by (simp_all add: r extra_live_def live_def)
qed

lemma loop_inv_alloc:
  assumes "loop_inv s" "tab_inv (s\<lparr>l_tab := tab, l_nprocs := n\<rparr>)"
    "live (s\<lparr>l_tab := tab, l_nprocs := n\<rparr>) = (\<lambda>j. j = i \<or> live s j)" "\<not> syscall_delayed (tab ! i)"
    "\<And>j. live s j \<Longrightarrow> tab ! j = l_tab s ! j" "length (l_tab s) \<le> length tab"
  shows "loop_inv (s\<lparr>l_tab := tab, l_nprocs := n\<rparr>)"
proof -
  have p: "\<And>j. j \<in> set (l_pending s) \<Longrightarrow> live s j" using assms(1) by (simp add: loop_inv_def base_inv_def tab_inv_def)
  have l: "j < length (l_tab s) \<Longrightarrow> j < length tab" for j using assms(6) by simp
  show ?thesis
    using assms p l unfolding loop_inv_def base_inv_def armed_inv_def delayed_def assms(3) by auto
qed

lemma maybe_allocate_inv:
  assumes "loop_inv s" "pid \<noteq> 0" "find_tcb pid s = None" "l_extra s = None"
  shows "all_ok (\<lambda>(r, s'). loop_inv s' \<and> l_extra s' = None \<and> (\<forall>i. r = Some i \<longrightarrow> live s' i))
    (maybe_allocate_tcb A opt L pid status s)"
proof -
  have t: "tab_inv s" using assms(1) by (simp add: loop_inv_def base_inv_def)
  obtain i tab n where
    a: "alloctcb A pid s = Inr (i, s\<lparr>l_tab := tab, l_nprocs := n\<rparr>)" "tab_inv (s\<lparr>l_tab := tab, l_nprocs := n\<rparr>)"
    "live (s\<lparr>l_tab := tab, l_nprocs := n\<rparr>) = (\<lambda>j. j = i \<or> live s j)" "\<not> syscall_delayed (tab ! i)"
    "\<And>j. live s j \<Longrightarrow> tab ! j = l_tab s ! j" "length (l_tab s) \<le> length tab"
    by (rule alloctcb_new [OF t assms(2,3), where A = A]) (rule that; assumption)
  let ?s = "s\<lparr>l_tab := tab, l_nprocs := n\<rparr>"
  let ?f = "after_successful_attach (if o_use_seize opt then 0 else TCB_IGNORE_ONE_SIGSTOP)"
  have q: "quiet ?s (upd_tcb i ?f ?s)"
    unfolding after_successful_attach_def by (rule quiet_keeps, rule keeps_flags) simp
  have "loop_inv (upd_tcb i ?f ?s)" by (rule quiet_inv [OF q loop_inv_alloc [OF assms(1) a(2-6)]])
  moreover have "live (upd_tcb i ?f ?s) i" using same_queueD(1) [of ?s "upd_tcb i ?f ?s"] q a(3) by (simp add: quiet_def)
  moreover have "loop_inv (set_kst k s)" "loop_inv (s\<lparr>l_strace_child := 0\<rparr>)" for k
    using quiet_inv [OF quiet_set_kst assms(1)] quiet_inv [OF quiet_exit_code(4) assms(1)] by simp_all
  ultimately show ?thesis
    using assms(1,4) by (simp add: maybe_allocate_tcb_def a(1) split: prod.split)
qed

lemma wait_loop_inv:
  fixes s :: "'k loop"
  assumes "loop_inv s" "l_extra s = None" "\<And>e. W_Event e \<in> set ws \<Longrightarrow> we_pid e \<noteq> 0"
  shows "safe (\<lambda>(go, s'). loop_inv s' \<and> extra_live s') (wait_loop A opt L nohang pos ws s)"
  using assms
proof (induction A opt L nohang pos ws s rule: wait_loop.induct)
  case (6 A opt L nohang pos e ws s)
  have t: "tab_inv s" using 6(3) by (simp add: loop_inv_def base_inv_def)
  have pid: "we_pid e \<noteq> 0" using 6(5) by simp
  obtain c where c: "snd (pid2tcb (we_pid e) s) = s\<lparr>l_cache := c\<rparr>" using pid2tcb_result(2) [OF t] by blast
  let ?s1 = "s\<lparr>l_cache := c\<rparr>"
  have s1: "loop_inv ?s1" "l_extra ?s1 = None"
    using loop_inv_cache [OF 6(3), of c] pid2tcb_result(3) [OF t, of "we_pid e"] c 6(4) by simp_all
  have fst: "fst (pid2tcb (we_pid e) s) = find_tcb (we_pid e) ?s1"
    using pid2tcb_result(1) [OF t] pid by (simp add: find_tcb_def)
  have r: "safe (\<lambda>(r, s'). loop_inv s' \<and> l_extra s' = None \<and> (\<forall>i. r = Some i \<longrightarrow> live s' i))
      (case pid2tcb (we_pid e) s of (Some i, s) \<Rightarrow> Inr (Some i, s)
       | (None, s) \<Rightarrow> lift (maybe_allocate_tcb A opt L (we_pid e) (we_status e) s))" (is "safe ?P ?r")
  proof (cases "find_tcb (we_pid e) ?s1")
    case None
    then have "pid2tcb (we_pid e) s = (None, ?s1)" using c fst by (simp add: prod_eq_iff)
    then show ?thesis using safe_lift [OF maybe_allocate_inv [OF s1(1) pid None s1(2)]] by simp
  next
    case (Some i)
    then have "pid2tcb (we_pid e) s = (Some i, ?s1)" using c fst by (simp add: prod_eq_iff)
    moreover have "live ?s1 i" using find_tcb_Some [OF Some] pid by (simp add: live_def)
    ultimately show ?thesis using s1 by simp
  qed
  show ?case
  proof (cases "we_pid e = l_popen_pid s")
    case True
    then show ?thesis
      using 6(3,4) quiet_inv [OF quiet_exit_code(5) 6(3)] by (simp add: extra_live_def)
  next
    case False
    have "safe (\<lambda>(go, s'). loop_inv s' \<and> extra_live s') (rbind ?r (\<lambda>(r, s). case r of
        None \<Rightarrow> wait_loop A opt L True pos ws s
      | Some i \<Rightarrow> let s = queue_event opt e pos i s
          in if l_extra s \<noteq> None then Inr (True, s) else wait_loop A opt L True (pos + 1) ws s))"
    proof (rule safe_rbind [OF r], clarify)
      fix r and s' :: "'k loop" assume a: "loop_inv s'" "l_extra s' = None" "\<forall>i. r = Some i \<longrightarrow> live s' i"
      then show "safe (\<lambda>(go, s'). loop_inv s' \<and> extra_live s') (case r of
          None \<Rightarrow> wait_loop A opt L True pos ws s'
        | Some i \<Rightarrow> let s = queue_event opt e pos i s'
            in if l_extra s \<noteq> None then Inr (True, s) else wait_loop A opt L True (pos + 1) ws s)"
      proof (cases r)
        case None
        then show ?thesis using a 6(5) by (simp add: 6(1) [OF False refl])
      next
        case (Some i)
        have q: "loop_inv (queue_event opt e pos i s')" "extra_live (queue_event opt e pos i s')"
          using queue_event_inv [OF a(1) _ a(2)] a(3) Some by auto
        show ?thesis
          unfolding Some option.case Let_def
          by (rule safe_if) (use q 6(2) [OF False refl refl] 6(5) in simp_all)
      qed
    qed
    then show ?thesis using False by simp
  qed
qed (simp_all add: extra_live_def)

section \<open>Delayed tracees\<close>

text \<open>
  What restarting does to the blocks in a set, which delays are over and which are not, the requests
  that restart a tracee, and the block that has to be restarted first.
\<close>

definition release :: "nat set \<Rightarrow> tcb list \<Rightarrow> tcb list" where
  "release D tab = map (\<lambda>i. if i \<in> D then (clear_tcb_flag TCB_DELAYED (tab ! i))\<lparr>t_delayed_wait_data := None\<rparr>
     else tab ! i) [0..<length tab]"

definition expired :: "'k loop_env \<Rightarrow> 'k loop \<Rightarrow> nat \<Rightarrow> bool" where
  "expired L s i \<longleftrightarrow> delayed s i \<and> ts_cmp (clk_now (le_clock L)) (t_delay_expiration_time (l_tab s ! i)) > 0"

definition unexpired :: "'k loop_env \<Rightarrow> 'k loop \<Rightarrow> nat \<Rightarrow> bool" where
  "unexpired L s i \<longleftrightarrow> delayed s i \<and> \<not> expired L s i"

definition restart_op :: "'a arch_scheme \<Rightarrow> trace_opts \<Rightarrow> filters \<Rightarrow> 'k loop \<Rightarrow> nat \<Rightarrow> restart_operator" where
  "restart_op A opt F s i =
     (let tcp = l_tab s ! i
      in if has_seccomp_filter tcp
         then seccomp_filter_restart_operator A F (o_stack_trace opt) (current_personality (l_sys s)) (exiting tcp)
                (unat (t_scno tcp))
         else PTRACE_SYSCALL)"

definition restart_request ::
    "'a arch_scheme \<Rightarrow> trace_opts \<Rightarrow> 'k loop_env \<Rightarrow> filters \<Rightarrow> 'k loop \<Rightarrow> nat \<Rightarrow> 'k \<Rightarrow> request_answer \<times> 'k" where
  "restart_request A opt L F s i = le_ptrace L (restart_op A opt F s i) (t_pid (l_tab s ! i)) 0"

definition earlier :: "tcb list \<Rightarrow> nat \<Rightarrow> nat option \<Rightarrow> nat option" where
  "earlier tab i n =
     (case n of
        None \<Rightarrow> Some i
      | Some j \<Rightarrow> if ts_cmp (t_delay_expiration_time (tab ! j)) (t_delay_expiration_time (tab ! i)) > 0
                  then Some i else Some j)"

definition released :: "nat set \<Rightarrow> 'k \<Rightarrow> nat \<Rightarrow> 'k loop \<Rightarrow> 'k loop" where
  "released D k c s = s\<lparr>l_tab := release D (l_tab s), l_sys := (l_sys s)\<lparr>kst := k\<rparr>, l_exit_code := c\<rparr>"

lemma length_release [simp]: "length (release D tab) = length tab"
  by (simp add: release_def)

lemma nth_release:
  "i < length tab \<Longrightarrow> release D tab ! i =
     (if i \<in> D then (clear_tcb_flag TCB_DELAYED (tab ! i))\<lparr>t_delayed_wait_data := None\<rparr> else tab ! i)"
  by (simp add: release_def)

lemma release_fields:
  "map t_pid (release D tab) = map t_pid tab" "map t_wait_data_idx (release D tab) = map t_wait_data_idx tab"
  "map t_delay_expiration_time (release D tab) = map t_delay_expiration_time tab"
  by (auto simp: nth_release tcb_simps clear_tcb_flag_def intro!: nth_equalityI)

lemma release_empty [simp]: "release {} tab = tab"
  by (simp add: release_def map_nth)

lemma release_insert:
  assumes "i \<notin> D" shows "release D (release {i} tab) = release (insert i D) tab"
  using assms by (auto simp: nth_release intro!: nth_equalityI)

lemma released_simps [simp]:
  "l_tab (released D k c s) = release D (l_tab s)" "l_sys (released D k c s) = (l_sys s)\<lparr>kst := k\<rparr>"
  "l_interrupted (released D k c s) = l_interrupted s" "l_timer (released D k c s) = l_timer s"
  "l_restart_failed (released D k c s) = l_restart_failed s" "l_current (released D k c s) = l_current s"
  by (simp_all add: released_def)

lemma released_twice: "i \<notin> D \<Longrightarrow> released D k' c' (released {i} k c s) = released (insert i D) k' c' s"
  by (simp add: released_def release_insert)

lemma same_queue_released: "same_queue s (released D k c s)"
  by (simp add: same_queue_def released_def release_fields)

lemma has_field [simp]: "has f (t\<lparr>t_delayed_wait_data := w\<rparr>) = has f t"
  by (simp add: has_def)

lemma delayed_released: "delayed (released D k c s) i \<longleftrightarrow> delayed s i \<and> i \<notin> D"
proof -
  have "live (released D k c s) = live s" by (rule same_queueD(1) [OF same_queue_released])
  then show ?thesis
    by (cases "i < length (l_tab s)") (auto simp: delayed_def nth_release live_def has_clear_subset)
qed

lemma dispatch_restart:
  "l_current s = Some i \<Longrightarrow> wd_te wd = TE_RESTART \<Longrightarrow>
   dispatch_event A opt L F (Some wd) s = ptrace_dispatch L (restart_op A opt F s i) i 0 wd s"
  by (simp add: dispatch_event_def restart_op_def Let_def)

lemma restart_delayed_tcb_result:
  assumes "i < length (l_tab s)" "restart_request A opt L F s i (kst (l_sys s)) = (r, k)"
  shows "\<exists>c. restart_delayed_tcb A opt L F i s =
    (if l_interrupted s \<noteq> 0 then Inr (False, released {i} (kst (l_sys s)) c s)
     else Inr (r \<noteq> Other_Error, released {i} k c s))"
proof -
  let ?s = "(upd_tcb i (clear_tcb_flag TCB_DELAYED) s)\<lparr>l_current := Some i\<rparr>"
  have t: "l_tab ?s ! i = clear_tcb_flag TCB_DELAYED (l_tab s ! i)" using assms(1) by simp
  have op: "restart_op A opt F ?s i = restart_op A opt F s i"
    unfolding restart_op_def t Let_def by (simp add: tcb_simps)
  have rel: "(l_tab s)[i := (clear_tcb_flag TCB_DELAYED (l_tab s ! i))\<lparr>t_delayed_wait_data := None\<rparr>] = release {i} (l_tab s)"
    using assms(1) by (auto simp: nth_release nth_list_update intro!: nth_equalityI)
  have nd: "\<not> syscall_delayed (l_tab ?s ! i)" unfolding t by (rule has_clear_subset) simp
  have r: "ptrace_restart L (restart_op A opt F ?s i) i 0 ?s = (r \<noteq> Other_Error, set_kst k ?s)"
    using assms by (simp add: ptrace_restart_def restart_request_def op t)
  let ?f = "\<lambda>s'. upd_tcb i (\<lambda>t. t\<lparr>t_delayed_wait_data := None\<rparr>) (s'\<lparr>l_current := l_current s\<rparr>)"
  have u: "?f ?s = released {i} (kst (l_sys s)) (l_exit_code s) s" "?f (set_kst k ?s) = released {i} k (l_exit_code s) s"
    "?f ((set_kst k ?s)\<lparr>l_exit_code := 1\<rparr>) = released {i} k 1 s"
    using assms(1) by (simp_all add: upd_tcb_def set_kst_def released_def rel [symmetric])
  have intr: "l_interrupted ?s = l_interrupted s" "l_current ?s = Some i" by simp_all
  define wd where "wd = (case t_delayed_wait_data (l_tab s ! i) of
      None \<Rightarrow> \<lparr>wd_te = TE_BREAK, wd_status = 0, wd_msg = 0\<rparr> | Some wd \<Rightarrow> wd)\<lparr>wd_te := TE_RESTART\<rparr>"
  have w: "wd_te wd = TE_RESTART" by (simp add: wd_def)
  have d: "dispatch_event A opt L F (Some wd) ?s =
      (if l_interrupted s \<noteq> 0 then Inr (False, ?s)
       else if r \<noteq> Other_Error then Inr (True, set_kst k ?s) else Inr (False, (set_kst k ?s)\<lparr>l_exit_code := 1\<rparr>))"
    unfolding dispatch_restart [OF intr(2) w]
      ptrace_dispatch_def intr(1) if_not_P [OF nd] r prod.case ..
  have "restart_delayed_tcb A opt L F i s = rbind (dispatch_event A opt L F (Some wd) ?s) (\<lambda>(ret, s').
      Inr (ret, upd_tcb i (\<lambda>t. t\<lparr>t_delayed_wait_data := None\<rparr>) (s'\<lparr>l_current := l_current s\<rparr>)))"
    by (simp add: restart_delayed_tcb_def Let_def wd_def)
  then show ?thesis
    unfolding d using u by (cases "l_interrupted s \<noteq> 0"; cases "r = Other_Error") (simp_all only: if_P if_not_P rbind_simps prod.case simp_thms; blast)+
qed

lemma released_other:
  assumes "i < length (l_tab s)" "i \<notin> D"
  shows "expired L (released D k c s) i = expired L s i" "unexpired L (released D k c s) i = unexpired L s i"
    "restart_request A opt L F (released D k c s) i = restart_request A opt L F s i"
proof -
  have t: "l_tab (released D k c s) ! i = l_tab s ! i" using assms by (simp add: nth_release)
  show e: "expired L (released D k c s) i = expired L s i" using assms(2) unfolding expired_def t by (simp add: delayed_released)
  show "unexpired L (released D k c s) i = unexpired L s i" using assms(2) e by (simp add: unexpired_def delayed_released)
  show "restart_request A opt L F (released D k c s) i = restart_request A opt L F s i"
    unfolding restart_request_def restart_op_def Let_def t by simp
qed

lemma earlier_release:
  assumes "i < length tab" "\<And>j. n = Some j \<Longrightarrow> j < length tab"
  shows "earlier (release D tab) i n = earlier tab i n"
proof -
  have "t_delay_expiration_time (release D tab ! j) = t_delay_expiration_time (tab ! j)" if "j < length tab" for j
    by (rule map_eq_nth(2) [OF release_fields(3) that])
  then show ?thesis using assms by (simp add: earlier_def split: option.split)
qed

lemma fold_earlier_release:
  assumes "set is \<subseteq> {..<length tab}" "\<And>j. n = Some j \<Longrightarrow> j < length tab"
  shows "fold (earlier (release D tab)) is n = fold (earlier tab) is n"
  using assms
proof (induction "is" arbitrary: n)
  case (Cons i "is")
  have "j < length tab" if "earlier tab i n = Some j" for j
    using that Cons.prems by (auto simp: earlier_def split: option.splits if_splits)
  then show ?case using Cons earlier_release [of i tab n D] by simp
qed simp

definition restarts_ok :: "'k loop_env \<Rightarrow> 'k loop \<Rightarrow> bool" where
  "restarts_ok L s \<longleftrightarrow> l_interrupted s = 0 \<and> (\<forall>op pid sig k. fst (le_ptrace L op pid sig k) \<noteq> Other_Error)"

text \<open>What the loop over some of the blocks does, and that it succeeds if the requests do.\<close>

definition restart_spec ::
    "'a arch_scheme \<Rightarrow> trace_opts \<Rightarrow> 'k loop_env \<Rightarrow> filters \<Rightarrow> nat list \<Rightarrow> nat option \<Rightarrow> 'k loop \<Rightarrow>
     bool \<Rightarrow> nat option \<Rightarrow> nat set \<Rightarrow> 'k \<Rightarrow> bool" where
  "restart_spec A opt L F is n s ok m D k \<longleftrightarrow>
     D \<subseteq> {i \<in> set is. expired L s i} \<and> (restarts_ok L s \<longrightarrow> ok) \<and>
     (ok \<longrightarrow> D = {i \<in> set is. expired L s i} \<and> m = fold (earlier (l_tab s)) (filter (unexpired L s) is) n \<and>
        k = fold (\<lambda>i k. snd (restart_request A opt L F s i k)) (filter (expired L s) is) (kst (l_sys s)))"

text \<open>A block that is restarted first does not change what happens to the others.\<close>

lemma restart_spec_Cons:
  assumes "restart_spec A opt L F is n (released {i} k1 c1 s) ok m D k" "i \<notin> set is" "expired L s i"
    "set is \<subseteq> {..<length (l_tab s)}" "\<And>j. n = Some j \<Longrightarrow> j < length (l_tab s)"
    "k1 = snd (restart_request A opt L F s i (kst (l_sys s)))"
  shows "restart_spec A opt L F (i # is) n s ok m (insert i D) k" "i \<notin> D"
proof -
  let ?s = "released {i} k1 c1 s"
  have o: "expired L ?s j = expired L s j" "unexpired L ?s j = unexpired L s j"
    "restart_request A opt L F ?s j = restart_request A opt L F s j" if "j \<in> set is" for j
  proof -
    have "j < length (l_tab s)" "j \<notin> {i}" using that assms(2,4) by auto
    note released_other [OF this]
    then show "expired L ?s j = expired L s j" "unexpired L ?s j = unexpired L s j"
      "restart_request A opt L F ?s j = restart_request A opt L F s j" by simp_all
  qed
  have f: "filter (expired L ?s) is = filter (expired L s) is" "filter (unexpired L ?s) is = filter (unexpired L s) is"
    "{j \<in> set is. expired L ?s j} = {j \<in> set is. expired L s j}"
    using o by (auto cong: filter_cong)
  have r: "fold (\<lambda>i k. snd (restart_request A opt L F ?s i k)) (filter (expired L s) is) k1
      = fold (\<lambda>i k. snd (restart_request A opt L F s i k)) (filter (expired L s) is) k1"
    by (rule fold_cong) (simp_all add: o)
  have e: "fold (earlier (l_tab ?s)) (filter (unexpired L s) is) n = fold (earlier (l_tab s)) (filter (unexpired L s) is) n"
    unfolding released_simps(1) by (rule fold_earlier_release) (use assms(4,5) in auto)
  have ok: "restarts_ok L ?s = restarts_ok L s" by (simp add: restarts_ok_def)
  have k: "kst (l_sys ?s) = k1" by simp
  note sp = assms(1) [unfolded restart_spec_def f e ok k r]
  show "i \<notin> D" using sp assms(2) by auto
  show "restart_spec A opt L F (i # is) n s ok m (insert i D) k"
    using sp assms(2,3,6) by (auto simp: restart_spec_def unexpired_def)
qed

lemma restart_delayed_loop_result:
  assumes "distinct is" "set is \<subseteq> {..<length (l_tab s)}" "\<And>j. n = Some j \<Longrightarrow> j < length (l_tab s)"
  shows "\<exists>ok m D k c. restart_delayed_loop A opt L F is n s = Inr (ok, m, released D k c s) \<and>
    restart_spec A opt L F is n s ok m D k"
  using assms
proof (induction "is" arbitrary: n s)
  case Nil
  have "s = released {} (kst (l_sys s)) (l_exit_code s) s" by (simp add: released_def)
  moreover have "restart_spec A opt L F [] n s True n {} (kst (l_sys s))" by (simp add: restart_spec_def)
  ultimately show ?case by (metis restart_delayed_loop.simps(1))
next
  case (Cons i "is")
  have i: "i < length (l_tab s)" "i \<notin> set is" "distinct is" "set is \<subseteq> {..<length (l_tab s)}" using Cons.prems by simp_all
  have test: "t_pid (l_tab s ! i) \<noteq> 0 \<and> syscall_delayed (l_tab s ! i) \<longleftrightarrow> delayed s i"
    using i by (auto simp: delayed_def live_def)
  consider (expired) "expired L s i" | (unexpired) "unexpired L s i" | (other) "\<not> delayed s i"
    by (auto simp: unexpired_def)
  then show ?case
  proof cases
    case expired
    obtain r k where rk: "restart_request A opt L F s i (kst (l_sys s)) = (r, k)" by fastforce
    obtain c where c: "restart_delayed_tcb A opt L F i s =
        (if l_interrupted s \<noteq> 0 then Inr (False, released {i} (kst (l_sys s)) c s)
         else Inr (r \<noteq> Other_Error, released {i} k c s))"
      using restart_delayed_tcb_result [OF i(1) rk] by blast
    have step: "restart_delayed_loop A opt L F (i # is) n s = rbind (restart_delayed_tcb A opt L F i s) (\<lambda>(ok, s).
        if ok then restart_delayed_loop A opt L F is n s else Inr (False, n, s))"
      using expired test by (simp add: expired_def)
    show ?thesis
    proof (cases "l_interrupted s = 0 \<and> r \<noteq> Other_Error")
      case True
      let ?s = "released {i} k c s"
      obtain ok m D k' c' where ih: "restart_delayed_loop A opt L F is n ?s = Inr (ok, m, released D k' c' ?s)"
        "restart_spec A opt L F is n ?s ok m D k'"
        using Cons.IH [of ?s n] i Cons.prems(3) by auto
      note sp = restart_spec_Cons [OF ih(2) i(2) expired i(4) Cons.prems(3)]
      have "restart_delayed_loop A opt L F (i # is) n s = Inr (ok, m, released (insert i D) k' c' s)"
        using step c True ih(1) sp(2) rk by (simp add: released_twice)
      then show ?thesis using sp(1) rk by auto
    next
      case False
      then obtain k' where "restart_delayed_loop A opt L F (i # is) n s = Inr (False, n, released {i} k' c s)"
        using step c by (cases "l_interrupted s = 0") auto
      moreover have "\<not> restarts_ok L s" using False rk by (metis restarts_ok_def restart_request_def fst_conv)
      then have "restart_spec A opt L F (i # is) n s False n {i} k'" using expired by (simp add: restart_spec_def)
      ultimately show ?thesis by blast
    qed
  next
    case unexpired
    have e: "earlier (l_tab s) i n = Some j \<Longrightarrow> j < length (l_tab s)" for j
      using i(1) Cons.prems(3) by (auto simp: earlier_def split: option.splits if_splits)
    have "restart_delayed_loop A opt L F (i # is) n s = restart_delayed_loop A opt L F is (earlier (l_tab s) i n) s"
      using unexpired test by (simp add: unexpired_def expired_def earlier_def)
    moreover have "restart_spec A opt L F (i # is) n s = restart_spec A opt L F is (earlier (l_tab s) i n) s"
      using unexpired by (auto simp: fun_eq_iff restart_spec_def unexpired_def)
    ultimately show ?thesis using Cons.IH [OF i(3,4) e] by simp
  next
    case other
    have "restart_delayed_loop A opt L F (i # is) n s = restart_delayed_loop A opt L F is n s"
      using other test by (auto simp: Let_def)
    moreover have "restart_spec A opt L F (i # is) n s = restart_spec A opt L F is n s"
      using other by (auto simp: fun_eq_iff restart_spec_def unexpired_def expired_def)
    ultimately show ?thesis using Cons.IH [OF i(3,4) Cons.prems(3)] by simp
  qed
qed

text \<open>The earliest of the times is the one the timer is set to.\<close>

lemma ts_le_trans: "ts_cmp a b \<le> 0 \<Longrightarrow> ts_cmp b c \<le> 0 \<Longrightarrow> ts_cmp a c \<le> 0"
  by (auto simp: ts_cmp_def split: if_splits)

lemma ts_cmp_refl: "ts_cmp a a \<le> 0" "ts_cmp a b > 0 \<Longrightarrow> ts_cmp b a \<le> 0"
  by (auto simp: ts_cmp_def split: if_splits)

lemma fold_earlier:
  fixes tab "is" defines "ex \<equiv> \<lambda>i. t_delay_expiration_time (tab ! i)"
  shows "case fold (earlier tab) is n of
     None \<Rightarrow> is = [] \<and> n = None
   | Some j \<Rightarrow> (j \<in> set is \<or> n = Some j) \<and> (\<forall>i. i \<in> set is \<or> n = Some i \<longrightarrow> ts_cmp (ex j) (ex i) \<le> 0)"
proof (induction "is" arbitrary: n)
  case Nil
  then show ?case by (auto simp: ts_cmp_refl split: option.split)
next
  case (Cons i "is")
  obtain j where j: "earlier tab i n = Some j" "j = i \<or> n = Some j" "ts_cmp (ex j) (ex i) \<le> 0"
    "\<And>l. n = Some l \<Longrightarrow> ts_cmp (ex j) (ex l) \<le> 0"
  proof (cases n)
    case (Some l)
    then show ?thesis
      using that [of i] that [of l] by (cases "ts_cmp (ex l) (ex i) > 0") (auto simp: earlier_def ex_def ts_cmp_refl)
  qed (use that [of i] in \<open>simp add: earlier_def ts_cmp_refl\<close>)
  obtain m where m: "fold (earlier tab) is (Some j) = Some m" "m \<in> set is \<or> m = j"
    "\<And>l. l \<in> set is \<or> l = j \<Longrightarrow> ts_cmp (ex m) (ex l) \<le> 0"
    using Cons.IH [of "Some j"] by (auto split: option.splits)
  have "ts_cmp (ex m) (ex l) \<le> 0" if "l = i \<or> n = Some l" for l
    using ts_le_trans [OF m(3) [of j], of "ex l"] j(3,4) that by auto
  then show ?case using j m by auto
qed

text \<open>The timer after restarting: set to the earliest of the delays that are not over, if there are any.\<close>

definition next_timer :: "'k loop_env \<Rightarrow> 'k loop \<Rightarrow> delay_timer \<Rightarrow> bool" where
  "next_timer L s dt \<longleftrightarrow>
     (if \<forall>i. \<not> unexpired L s i then dt = l_timer s
      else timer_armed dt \<and> (\<exists>i. unexpired L s i \<and> timer_at dt = t_delay_expiration_time (l_tab s ! i)) \<and>
        (\<forall>i. unexpired L s i \<longrightarrow> ts_cmp (timer_at dt) (t_delay_expiration_time (l_tab s ! i)) \<le> 0))"

lemma in_table: "{i \<in> set [0..<length (l_tab s)]. expired L s i} = {i. expired L s i}"
  "i \<in> set (filter (unexpired L s) [0..<length (l_tab s)]) \<longleftrightarrow> unexpired L s i"
  by (auto simp: expired_def unexpired_def delayed_def live_def)

lemma restart_delayed_tcbs_cases:
  obtains (failed) D k c where "restart_delayed_tcbs A opt L F s = Inr (False, released D k c s)" "\<not> restarts_ok L s"
  | (no_timer) "restart_delayed_tcbs A opt L F s = Inl (Died (Die ''timer_settime''))" "\<not> clk_settime_ok (le_clock L)"
  | (restarted) c dt where "restart_delayed_tcbs A opt L F s =
      Inr (True, (released {i. expired L s i}
        (fold (\<lambda>i k. snd (restart_request A opt L F s i k)) (filter (expired L s) [0..<length (l_tab s)]) (kst (l_sys s))) c s)
        \<lparr>l_timer := dt\<rparr>)" "next_timer L s dt"
proof -
  let ?is = "[0..<length (l_tab s)]"
  have sub: "set ?is \<subseteq> {..<length (l_tab s)}" by auto
  obtain ok m D k c where r: "restart_delayed_loop A opt L F ?is None s = Inr (ok, m, released D k c s)"
    "restart_spec A opt L F ?is None s ok m D k"
    using restart_delayed_loop_result [OF distinct_upt sub, of None A opt L F] by auto
  show thesis
  proof (cases ok)
    case False
    then show thesis using failed [of D k c] r by (simp add: restart_delayed_tcbs_def restart_spec_def)
  next
    case True
    let ?k = "fold (\<lambda>i k. snd (restart_request A opt L F s i k)) (filter (expired L s) ?is) (kst (l_sys s))"
    have sp: "D = {i. expired L s i}" "m = fold (earlier (l_tab s)) (filter (unexpired L s) ?is) None" "k = ?k"
      using r(2) True by (simp_all only: restart_spec_def in_table simp_thms)
    let ?s = "released {i. expired L s i} ?k c s"
    note m = fold_earlier [where tab = "l_tab s" and ?is = "filter (unexpired L s) ?is" and n = None, folded sp(2)]
    have run: "restart_delayed_tcbs A opt L F s = (case m of None \<Rightarrow> Inr (True, ?s)
        | Some i \<Rightarrow> rbind (lift (arm_delay_timer (le_clock L) (l_tab ?s ! i) (l_timer ?s))) (\<lambda>dt. Inr (True, ?s\<lparr>l_timer := dt\<rparr>)))"
      using r(1) True sp(1,3) by (simp add: restart_delayed_tcbs_def)
    show thesis
    proof (cases m)
      case None
      have "?s\<lparr>l_timer := l_timer s\<rparr> = ?s" by (simp add: released_def)
      moreover have "next_timer L s (l_timer s)"
        using m in_table(2) [where L = L and s = s] unfolding None by (auto simp: next_timer_def)
      ultimately show thesis using restarted [where c = c and dt = "l_timer s"] run None by simp
    next
      case (Some i)
      have i: "unexpired L s i" "\<And>j. unexpired L s j \<Longrightarrow>
          ts_cmp (t_delay_expiration_time (l_tab s ! i)) (t_delay_expiration_time (l_tab s ! j)) \<le> 0"
        using m in_table(2) [where L = L and s = s] unfolding Some by auto
      then have "i < length (l_tab s)" by (simp add: unexpired_def delayed_def live_def)
      then have ex: "t_delay_expiration_time (l_tab ?s ! i) = t_delay_expiration_time (l_tab s ! i)"
        using map_eq_nth(2) [OF release_fields(3)] by simp
      let ?dt = "(l_timer s)\<lparr>timer_armed := True, timer_at := t_delay_expiration_time (l_tab s ! i)\<rparr>"
      have nt: "next_timer L s ?dt" using i by (auto simp: next_timer_def)
      show thesis
      proof (cases "clk_settime_ok (le_clock L)")
        case True
        then show thesis using restarted [OF _ nt, where c = c] run ex unfolding Some by (simp add: arm_delay_timer_def lift_def)
      next
        case False
        then show thesis using no_timer run unfolding Some by (simp add: arm_delay_timer_def lift_def)
      qed
    qed
  qed
qed

section \<open>One round of the loop\<close>

lemma base_inv_same:
  "same_queue s s' \<Longrightarrow> l_current s' = l_current s \<Longrightarrow> base_inv s \<Longrightarrow> base_inv s'"
  by (erule same_queue_base_inv) (auto simp: base_inv_def)

lemma timer_sighandler_inv:
  assumes "loop_inv s"
  shows "safe (\<lambda>s'. loop_inv s' \<and> l_extra s' = l_extra s) (timer_sighandler A opt L F s)"
proof -
  let ?s = "s\<lparr>l_timer := delay_timer_expired (l_timer s)\<rparr>"
  have b: "base_inv s'" "l_extra s' = l_extra s" if "same_queue ?s s'" "l_current s' = l_current ?s" for s'
  proof -
    have q: "same_queue s ?s" "l_current ?s = l_current s" by (simp_all add: same_queue_def)
    show "base_inv s'" using base_inv_same [OF same_queue_trans [OF q(1) that(1)]] that(2) assms by (simp add: loop_inv_def)
    show "l_extra s' = l_extra s" using same_queueD(3) [OF that(1)] by simp
  qed
  have rel: "same_queue ?s ((released D k c ?s)\<lparr>l_timer := dt, l_restart_failed := f\<rparr>)" for D k c dt f
    using same_queue_released [of ?s D k c] by (simp add: same_queue_def)
  show ?thesis
  proof (cases "l_restart_failed s")
    case True
    then show ?thesis using b [OF same_queue_refl] by (simp add: timer_sighandler_def loop_inv_def armed_inv_def)
  next
    case False
    have t: "timer_sighandler A opt L F s =
        rbind (restart_delayed_tcbs A opt L F ?s) (\<lambda>(ok, s). Inr (if ok then s else s\<lparr>l_restart_failed := True\<rparr>))"
      using False by (simp add: timer_sighandler_def)
    show ?thesis
    proof (cases rule: restart_delayed_tcbs_cases [where A = A and opt = opt and L = L and F = F and s = ?s])
      case (failed D k c)
      have eq: "(released D k c ?s)\<lparr>l_timer := l_timer ?s, l_restart_failed := True\<rparr> = (released D k c ?s)\<lparr>l_restart_failed := True\<rparr>"
        by (simp add: released_def)
      from b [OF rel [where D = D and k = k and c = c and dt = "l_timer ?s" and f = True, unfolded eq]] show ?thesis
        unfolding t failed(1) by (simp add: loop_inv_def armed_inv_def)
    next
      case no_timer
      then show ?thesis unfolding t by simp
    next
      case (restarted c dt)
      let ?k = "fold (\<lambda>i k. snd (restart_request A opt L F ?s i k)) (filter (expired L ?s) [0..<length (l_tab ?s)]) (kst (l_sys ?s))"
      let ?r = "released {i. expired L ?s i} ?k c ?s"
      have eq: "?r\<lparr>l_timer := dt, l_restart_failed := l_restart_failed s\<rparr> = ?r\<lparr>l_timer := dt\<rparr>"
        by (simp add: released_def)
      have "delayed (?r\<lparr>l_timer := dt\<rparr>) i \<longleftrightarrow> unexpired L ?s i" for i
        using delayed_released [of "{i. expired L ?s i}" ?k c ?s i] by (simp add: unexpired_def delayed_def live_def)
      then have "armed_inv (?r\<lparr>l_timer := dt\<rparr>)"
        using restarted(2) by (auto simp: armed_inv_def next_timer_def split: if_splits)
      with b [OF rel [where D = "{i. expired L ?s i}" and k = ?k and c = c and dt = dt and f = "l_restart_failed s", unfolded eq]] show ?thesis
        unfolding t restarted(1) by (simp add: loop_inv_def)
    qed
  qed
qed

lemma alarms_inv:
  "loop_inv s \<Longrightarrow> safe (\<lambda>s'. loop_inv s' \<and> l_extra s' = l_extra s) (alarms A opt F Ls s)"
proof (induction Ls arbitrary: s)
  case (Cons L Ls)
  show ?case unfolding alarms.simps
    by (rule safe_rbind [OF timer_sighandler_inv [OF Cons.prems]], rule safe_mono [OF Cons.IH]) auto
qed simp

lemma take_extra_inv:
  assumes "loop_inv s" "live s i" "l_pending s = []"
  shows "loop_inv (upd_tcb i (\<lambda>t. t\<lparr>t_wait_data_idx := pos\<rparr>) (s\<lparr>l_extra := None\<rparr>))" (is "loop_inv ?s")
    "live (upd_tcb i (\<lambda>t. t\<lparr>t_wait_data_idx := pos\<rparr>) (s\<lparr>l_extra := None\<rparr>)) i"
proof -
  let ?e = "s\<lparr>l_extra := None\<rparr>"
  have e: "loop_inv ?e" "live ?e = live s" using assms(1)
    by (simp_all add: loop_inv_def base_inv_def tab_inv_def armed_inv_def delayed_def live_def [abs_def])
  note u = upd_tcb_pid_inv [of i ?e "\<lambda>t. t\<lparr>t_wait_data_idx := pos\<rparr>"]
  show "live ?s i" using u(2) e(2) assms(2) by simp
  have d: "delayed ?s j = delayed ?e j" for j
    using u(2) e(2) by (cases "j = i") (auto simp: delayed_def live_def has_def)
  show "loop_inv ?s" using e(1) u(1) assms(3) unfolding loop_inv_def base_inv_def armed_inv_def d by simp
qed

text \<open>The block an event is about is in use.\<close>

definition about_live :: "tcb_wait_data option \<times> 'k loop \<Rightarrow> bool" where
  "about_live = (\<lambda>(wdo, s). loop_inv s \<and>
     (\<forall>wd. wdo = Some wd \<longrightarrow> wd_te wd \<notin> {TE_BREAK, TE_NEXT} \<longrightarrow> (\<exists>i. l_current s = Some i \<and> live s i)))"

lemma next_event_exit_inv:
  assumes "loop_inv s" "live s i" shows "safe about_live (next_event_exit A opt L F i s)"
proof -
  let ?s = "s\<lparr>l_sys := clear_regs (l_sys s)\<rparr>"
  have r: "all_ok (\<lambda>s'. quiet s s') (if has TCB_STARTUP (l_tab ?s ! i) then startup_tcb A opt L F i ?s else Inr ?s)"
    by (rule all_ok_if, rule all_ok_mono [OF quiet_startup_tcb], erule quiet_trans [OF quiet_exit_code(3)]) simp
  have "about_live (wdo, s'\<lparr>l_current := Some i\<rparr>)" if q: "quiet s s'" for wdo s'
  proof -
    have inv: "loop_inv s'" by (rule quiet_inv [OF q assms(1)])
    have l: "live s' i" using same_queueD(1) [of s s'] q assms(2) by (simp add: quiet_def)
    have "base_inv (s'\<lparr>l_current := Some i\<rparr>)"
      by (rule same_queue_base_inv [of s']) (use inv l in \<open>simp_all add: same_queue_def loop_inv_def live_def\<close>)
    then show ?thesis using inv l by (simp add: about_live_def loop_inv_def armed_inv_def delayed_def live_def)
  qed
  then show ?thesis
    unfolding next_event_exit_def Let_def by (intro safe_rbind [OF safe_lift [OF r]]) simp
qed

lemma next_event_get_tcp_inv:
  assumes "loop_inv s" shows "safe about_live (next_event_get_tcp A opt L F s)"
proof (cases "l_pending s")
  case Nil
  then show ?thesis using loop_inv_wait_tab [OF assms] by (simp add: next_event_get_tcp_def about_live_def Let_def)
next
  case (Cons i "is")
  have "loop_inv (s\<lparr>l_pending := is\<rparr>)" "live (s\<lparr>l_pending := is\<rparr>) i"
    using assms unfolding loop_inv_def base_inv_def tab_inv_def armed_inv_def delayed_def live_def Cons by simp_all
  then show ?thesis using next_event_exit_inv by (simp add: next_event_get_tcp_def Cons)
qed

lemma next_event_inv:
  assumes "loop_inv s" "extra_live s" "\<And>e. W_Event e \<in> set ws \<Longrightarrow> we_pid e \<noteq> 0"
  shows "safe about_live (next_event A opt L F Ls ws s)"
proof -
  have n: "about_live (None, s')" if "loop_inv s'" for s' using that by (simp add: about_live_def)
  have c: "loop_inv (s\<lparr>l_strace_child := 0\<rparr>)" by (rule quiet_inv [OF quiet_exit_code(4) assms(1)])
  have e: "safe about_live (next_event_exit A opt L F i
      (upd_tcb i (\<lambda>t. t\<lparr>t_wait_data_idx := l_extra_idx s\<rparr>) (s\<lparr>l_extra := None\<rparr>)))"
    if "l_extra s = Some i" "l_pending s = []" for i
    using assms(2) that by (intro next_event_exit_inv take_extra_inv [OF assms(1)]) (simp_all add: extra_live_def)
  have w: "safe about_live (rbind (wait_loop A opt L False 0 ws s') (\<lambda>(go, s).
      if go then next_event_get_tcp A opt L F s else Inr (None, s)))" if "loop_inv s'" "l_extra s' = None" for s'
    by (rule safe_rbind [OF wait_loop_inv [OF that assms(3)]]) (auto simp: next_event_get_tcp_inv n)
  have a: "safe (\<lambda>s'. loop_inv s' \<and> l_extra s' = l_extra s) (if b then alarms A opt F Ls s else Inr s)" for b
    by (simp add: alarms_inv [OF assms(1)] assms(1))
  have r: "safe about_live (rbind (if b then alarms A opt F Ls s else Inr s) (\<lambda>s.
      if b \<and> l_restart_failed s then Inr (None, s)
      else rbind (wait_loop A opt L False 0 ws s) (\<lambda>(go, s).
        if go then next_event_get_tcp A opt L F s else Inr (None, s))))" if "l_extra s = None" for b
    by (rule safe_rbind [OF a], rule safe_if) (use n w that in auto)
  show ?thesis
    unfolding next_event_def Let_def
    by (cases "l_extra s") (auto simp: n assms(1) c e r next_event_get_tcp_inv intro!: safe_if)
qed

lemma main_step_inv:
  fixes s :: "'k loop"
  assumes "loop_inv s" "extra_live s" "\<And>pid. clock_law (te_clock (pe_tamper (le_phase L pid)))"
    and "\<And>e. W_Event e \<in> set ws \<Longrightarrow> we_pid e \<noteq> 0"
  shows "safe (\<lambda>(go, s'). loop_inv s') (main_step A opt F (L, Ls, ws) s)"
  unfolding main_step_def prod.case
proof (rule safe_rbind [OF next_event_inv [OF assms(1,2)]])
  fix x :: "tcb_wait_data option \<times> 'k loop" assume "about_live x"
  then show "safe (\<lambda>(go, s'). loop_inv s') (case x of (wd, s) \<Rightarrow> dispatch_event A opt L F wd s)"
    by (cases x) (auto simp: about_live_def intro!: dispatch_event_inv assms(3))
qed (rule assms(4))

text \<open>
  The states the loop reaches while the kernel keeps its side: the process of a wait status is not 0,
  a timer with time left is armed, and no further event is queued for a block that is dropped.
\<close>

definition round_ok :: "'k round \<Rightarrow> bool" where
  "round_ok = (\<lambda>(L, Ls, ws). (\<forall>pid. clock_law (te_clock (pe_tamper (le_phase L pid)))) \<and>
     (\<forall>e. W_Event e \<in> set ws \<longrightarrow> we_pid e \<noteq> 0))"

inductive reaches :: "'a arch_scheme \<Rightarrow> trace_opts \<Rightarrow> filters \<Rightarrow> 'k loop \<Rightarrow> 'k loop \<Rightarrow> bool"
  for A opt F s0 where
  start: "reaches A opt F s0 s0"
| round: "reaches A opt F s0 s \<Longrightarrow> round_ok r \<Longrightarrow> main_step A opt F r s = Inr (True, s') \<Longrightarrow> extra_live s' \<Longrightarrow>
    reaches A opt F s0 s'"

lemma reaches_inv:
  "reaches A opt F s0 s \<Longrightarrow> loop_inv s0 \<Longrightarrow> extra_live s0 \<Longrightarrow> loop_inv s \<and> extra_live s"
proof (induction rule: reaches.induct)
  case (round s r s')
  then show ?case
    using main_step_inv [of s "fst r" "snd (snd r)" A opt F "fst (snd r)"]
    by (auto simp: round_ok_def case_prod_beta)
qed simp

section \<open>An event queued for a block that is dropped\<close>

text \<open>The stop before \<^verbatim>\<open>execve\<close> of the thread \<open>j\<close>, reported for its leader \<open>i\<close>.\<close>

definition execve_stop :: "'k loop_env \<Rightarrow> nat \<Rightarrow> nat \<Rightarrow> 'k loop \<Rightarrow> bool" where
  "execve_stop L i j s \<longleftrightarrow>
     (let wd = l_wait_tab s ! t_wait_data_idx (l_tab s ! i); pid = t_pid (l_tab s ! j)
      in wd_te wd = TE_STOP_BEFORE_EXECVE \<and> unat (wd_msg wd) = pid \<and> pid < 2 ^ 31 \<and> pid \<noteq> t_pid (l_tab s ! i) \<and>
         live s i \<and> live s j \<and> le_os_release L \<ge> 0x30000)"

lemma ptrace_dispatch_True:
  assumes "restarts_ok L s"
  obtains s' where "ptrace_dispatch L op i sig wd s = Inr (True, s')" "quiet s s'" "l_sys s' = (l_sys s)\<lparr>kst := kst (l_sys s')\<rparr>"
    "l_interrupted s' = 0" "l_limit s' = l_limit s" "l_exit_code s' = l_exit_code s" "l_strace_child s' = l_strace_child s"
    "j \<noteq> i \<Longrightarrow> l_tab s' ! j = l_tab s ! j"
proof -
  obtain r k where rk: "le_ptrace L op (t_pid (l_tab s ! i)) sig (kst (l_sys s)) = (r, k)" by fastforce
  then have "r \<noteq> Other_Error" "l_interrupted s = 0" using assms unfolding restarts_ok_def by (metis fst_conv)+
  then have "ptrace_dispatch L op i sig wd s =
      Inr (True, if syscall_delayed (l_tab s ! i) then upd_tcb i (\<lambda>t. t\<lparr>t_delayed_wait_data := Some wd\<rparr>) s else set_kst k s)"
    using rk by (simp add: ptrace_dispatch_def ptrace_restart_def)
  then show ?thesis
    using that \<open>l_interrupted s = 0\<close> by (simp add: quiet_field set_kst_def split: if_splits)
qed

lemma execve_switch:
  assumes "tab_inv s" "execve_stop L i j s"
  obtains s' where "maybe_switch_current_tcp A opt L i s = (Some j, s')" "length (l_tab s') = length (l_tab s)"
    "l_tab s' ! i = zero_tcb A" "t_pid (l_tab s' ! j) = t_pid (l_tab s ! i)" "l_pending s' = filter (\<lambda>k. k \<noteq> i) (l_pending s)"
    "l_extra s' = l_extra s" "l_extra_idx s' = l_extra_idx s" "l_wait_tab s' = l_wait_tab s" "l_limit s' = l_limit s"
    "l_interrupted s' = l_interrupted s" "l_exit_code s' = l_exit_code s" "l_strace_child s' = l_strace_child s"
proof -
  let ?pid = "t_pid (l_tab s ! j)"
  have e: "unat (wd_msg (l_wait_tab s ! t_wait_data_idx (l_tab s ! i))) = ?pid" "?pid \<noteq> t_pid (l_tab s ! i)"
    "live s i" "live s j" "\<not> le_os_release L < 0x30000" "?pid \<noteq> 0" "\<not> ?pid \<ge> 2 ^ 31"
    using assms(2) by (simp_all add: execve_stop_def Let_def live_def)
  have ij: "i \<noteq> j" "i < length (l_tab s)" "j < length (l_tab s)" using e(2-4) by (auto simp: live_def)
  obtain c where "snd (pid2tcb ?pid s) = s\<lparr>l_cache := c\<rparr>" using pid2tcb_result(2) [OF assms(1)] by blast
  moreover have "fst (pid2tcb ?pid s) = Some j" using pid2tcb_result(1) [OF assms(1)] find_tcb_live [OF assms(1) e(4)] e(6) by simp
  ultimately have p: "pid2tcb ?pid s = (Some j, s\<lparr>l_cache := c\<rparr>)" by (simp add: prod_eq_iff)
  let ?d = "droptcb A i (s\<lparr>l_cache := c\<rparr>)"
  let ?u = "upd_tcb j (\<lambda>t. t\<lparr>t_pid := t_pid (l_tab s ! i)\<rparr>) ?d"
  have m: "maybe_switch_current_tcp A opt L i s =
      (Some j, (if o_cflag opt \<noteq> CFLAG_ONLY_STATS then upd_tcb j (set_tcb_flag TCB_REPRINT) ?u else ?u)\<lparr>l_current := Some j\<rparr>)"
    unfolding maybe_switch_current_tcp_def maybe_switch_tcbs_def Let_def e(1) p using e(2,5,6,7) by simp
  have d: "l_tab ?d ! i = zero_tcb A" "l_pending ?d = filter (\<lambda>k. k \<noteq> i) (l_pending s)"
    using ij(2) e(3) by (simp_all add: droptcb_def live_def)
  show ?thesis
    by (rule that [OF m]) (use ij d in \<open>simp_all add: set_tcb_flag_fields split: if_split\<close>)
qed

text \<open>The event of the leader is dispatched, and the thread takes over its process.\<close>

lemma execve_round:
  assumes "loop_inv s" "execve_stop L i j s" "l_pending s = [i]" "restarts_ok L s" "l_limit s \<noteq> 0"
    and "\<not> has TCB_STARTUP (l_tab s ! i)" "\<not> o_detach_on_execve opt"
  obtains s' where "main_step A opt F (L, Ls, ws) s = Inr (True, s')" "l_tab s' ! i = zero_tcb A"
    "length (l_tab s') = length (l_tab s)" "t_pid (l_tab s' ! j) = t_pid (l_tab s ! i)" "l_pending s' = []"
    "l_extra s' = l_extra s" "l_extra_idx s' = l_extra_idx s" "l_wait_tab s' = l_wait_tab s" "l_limit s' = l_limit s"
    "l_interrupted s' = 0" "l_exit_code s' = l_exit_code s" "l_strace_child s' = l_strace_child s"
proof -
  let ?wd = "l_wait_tab s ! t_wait_data_idx (l_tab s ! i)"
  let ?a = "s\<lparr>l_pending := [], l_sys := clear_regs (l_sys s), l_current := Some i\<rparr>"
  let ?b = "upd_tcb i (clear_tcb_flag TCB_CHECK_EXEC_SYSCALL) ?a"
  have ij: "i \<noteq> j" "i < length (l_tab s)" "j < length (l_tab s)" "wd_te ?wd = TE_STOP_BEFORE_EXECVE"
    using assms(2) by (auto simp: execve_stop_def Let_def live_def)
  have "next_event A opt L F Ls ws s = Inr (Some ?wd, ?a)"
    using assms(3-6)
    by (simp add: next_event_def next_event_get_tcp_def next_event_exit_def restarts_ok_def lift_def Let_def)
  then have m: "main_step A opt F (L, Ls, ws) s = dispatch_execve A opt L F (restart_op A opt F ?a i) i ?wd ?a"
    using ij(4) by (simp add: main_step_def dispatch_event_def restart_op_def Let_def)
  have inv: "tab_inv ?b"
  proof -
    have "tab_inv ?a" using assms(1) by (simp add: loop_inv_def base_inv_def tab_inv_def live_def)
    then show ?thesis by (subst upd_tcb_pid_inv(1)) simp_all
  qed
  have st: "execve_stop L i j ?b"
    using assms(2) ij(1-3) by (simp add: execve_stop_def Let_def live_def clear_tcb_flag_def)
  obtain c where c: "maybe_switch_current_tcp A opt L i ?b = (Some j, c)" "length (l_tab c) = length (l_tab ?b)"
    "l_tab c ! i = zero_tcb A" "t_pid (l_tab c ! j) = t_pid (l_tab ?b ! i)" "l_pending c = filter (\<lambda>k. k \<noteq> i) (l_pending ?b)"
    "l_extra c = l_extra ?b" "l_extra_idx c = l_extra_idx ?b" "l_wait_tab c = l_wait_tab ?b" "l_limit c = l_limit ?b"
    "l_interrupted c = l_interrupted ?b" "l_exit_code c = l_exit_code ?b" "l_strace_child c = l_strace_child ?b"
    by (rule execve_switch [OF inv st, where A = A and opt = opt]) (rule that; assumption)
  have ok: "restarts_ok L c" using assms(4) c(10) by (simp add: restarts_ok_def)
  obtain d where d: "ptrace_dispatch L (restart_op A opt F ?a i) j 0 ?wd c = Inr (True, d)" "quiet c d"
    "l_interrupted d = 0" "l_limit d = l_limit c" "l_exit_code d = l_exit_code c" "l_strace_child d = l_strace_child c"
    "i \<noteq> j \<Longrightarrow> l_tab d ! i = l_tab c ! i"
    by (rule ptrace_dispatch_True [OF ok, where op = "restart_op A opt F ?a i" and i = j and sig = 0 and wd = ?wd and j = i])
      (rule that; assumption)
  have "main_step A opt F (L, Ls, ws) s = Inr (True, d)"
    unfolding m dispatch_execve_def Let_def c(1) using d(1) assms(7) by simp
  moreover have "length (l_tab d) = length (l_tab c)" "t_pid (l_tab d ! j) = t_pid (l_tab c ! j)"
    "l_pending d = l_pending c" "l_extra d = l_extra c" "l_extra_idx d = l_extra_idx c" "l_wait_tab d = l_wait_tab c"
    using d(2) same_queueD [of c d] ij c(2) by (simp_all add: quiet_def, simp_all add: same_queue_def)
  ultimately show ?thesis
    using that [of d] c d ij by simp
qed

text \<open>The death of the leader is dispatched for the block that was dropped.\<close>

lemma dead_block_round:
  assumes "l_tab s ! i = zero_tcb A" "i < length (l_tab s)" "l_pending s = []" "l_extra s = Some i" "l_limit s \<noteq> 0"
    and "l_interrupted s = 0" "l_strace_child s \<noteq> 0" "wd_te (l_wait_tab s ! l_extra_idx s) = TE_SIGNALLED"
  obtains s' where "main_step A opt F (L, Ls, ws) s = Inr (True, s')" "l_exit_code s' = l_exit_code s"
    "l_strace_child s' = l_strace_child s" "l_nprocs s' = l_nprocs s"
    "\<And>j. j \<noteq> i \<Longrightarrow> l_tab s' ! j = l_tab s ! j" "length (l_tab s') = length (l_tab s)"
proof -
  let ?wd = "l_wait_tab s ! l_extra_idx s"
  let ?e = "upd_tcb i (\<lambda>t. t\<lparr>t_wait_data_idx := l_extra_idx s\<rparr>) (s\<lparr>l_extra := None\<rparr>)"
  let ?f = "?e\<lparr>l_sys := clear_regs (l_sys s), l_current := Some i\<rparr>"
  have z: "l_tab ?f ! i = (zero_tcb A)\<lparr>t_wait_data_idx := l_extra_idx s\<rparr>" using assms(1,2) by simp
  have "next_event A opt L F Ls ws s = Inr (Some ?wd, ?f)"
    using assms by (simp add: next_event_def next_event_exit_def lift_def Let_def has_def zero_tcb_def)
  moreover have "dispatch_event A opt L F (Some ?wd) ?f = Inr (True, ?f)"
    using assms(7,8) z
    by (simp add: dispatch_event_def Let_def print_signalled_def droptcb_def zero_tcb_def)
  ultimately have "main_step A opt F (L, Ls, ws) s = Inr (True, ?f)" by (simp add: main_step_def)
  then show ?thesis using that [of ?f] by simp
qed

section \<open>Concrete states\<close>

text \<open>A kernel that records the requests that restart a tracee, at a given time, and three states.\<close>

definition log_phase :: "'k phase_env" where
  "log_phase =
     \<lparr>pe_tamper = \<lparr>te_ops = \<lparr>get_info_supported = False, set_info_supported = False, op_get_syscall_info = (\<lambda>k. None),
         op_set_syscall_info = (\<lambda>s k. None), op_getregset = (\<lambda>k. Regset_Gone), op_getregs = (\<lambda>k. None),
         op_upoke = (\<lambda>off v k. None)\<rparr>,
        te_upoken = (\<lambda>a bs k. (0, k)),
        te_clock = \<lparr>clk_now = zero_ts, clk_remaining = (\<lambda>dt. Some zero_ts), clk_create_ok = True, clk_settime_ok = True\<rparr>,
        te_SEN_printargs = 0, te_needs_set_error = False\<rparr>,
      pe_umoven = (\<lambda>a n k. None), pe_sys_func = (\<lambda>t k. 0), pe_pathtrace_match = (\<lambda>t k. False),
      pe_SEN_ipc = 1, pe_SEN_socketcall = 2, pe_SEN_restart_syscall = 3, pe_SEN_exec = [], pe_now = zero_ts\<rparr>"

definition log_env :: "timespec \<Rightarrow> (nat \<times> nat) list loop_env" where
  "log_env now =
     \<lparr>le_phase = (\<lambda>pid. log_phase), le_ptrace = (\<lambda>op pid sig k. (OK, k @ [(pid, sig)])),
      le_interrupt = (\<lambda>pid k. (OK, k)), le_tkill = (\<lambda>pid sig k. (OK, k)), le_setoptions = (\<lambda>pid. OK),
      le_clock = \<lparr>clk_now = now, clk_remaining = (\<lambda>dt. Some zero_ts), clk_create_ok = True, clk_settime_ok = True\<rparr>,
      le_waitpid = [], le_os_release = 0x60000\<rparr>"

definition plain_opts :: trace_opts where
  "plain_opts =
     \<lparr>o_cflag = CFLAG_NONE, o_Tflag = False, o_tracing_paths = False, o_output_separately = False, o_followfork = True,
      o_detach_on_execve = False, o_use_seize = True, o_stack_trace = False, o_seccomp_before_sysentry = False\<rparr>"

definition delayed_procs :: "(nat \<times> nat) list loop" where
  "delayed_procs = (two_procs [])
     \<lparr>l_tab := [(zero_tcb small_arch)\<lparr>t_pid := 7, t_flags := TCB_DELAYED,
                  t_delay_expiration_time := \<lparr>tv_sec = 1, tv_nsec = 0\<rparr>\<rparr>,
                (zero_tcb small_arch)\<lparr>t_pid := 1031, t_flags := TCB_DELAYED,
                  t_delay_expiration_time := \<lparr>tv_sec = 5, tv_nsec = 0\<rparr>\<rparr>]\<rparr>"

definition killed_in_execve :: "(nat \<times> nat) list loop" where
  "killed_in_execve = (two_procs [])
     \<lparr>l_pending := [0], l_extra := Some 0, l_extra_idx := 1,
      l_wait_tab := [\<lparr>wd_te = TE_STOP_BEFORE_EXECVE, wd_status = 0, wd_msg = 1031\<rparr>,
                     \<lparr>wd_te = TE_SIGNALLED, wd_status = 9, wd_msg = 0\<rparr>]\<rparr>"

lemma log_env_ok:
  "restarts_ok (log_env now) (two_procs k)" "clock_law (te_clock (pe_tamper (le_phase (log_env now) pid)))"
  by (simp_all add: restarts_ok_def log_env_def two_procs_def clock_law_def log_phase_def ts_nz_def zero_ts_def)

lemma two_procs_live: "live (two_procs k) i \<longleftrightarrow> i < 2"
  by (cases i) (auto simp: live_def two_procs_def less_Suc_eq)

lemma two_procs_loop_inv: "loop_inv (two_procs k)"
proof -
  have "l_pending (two_procs k) = []" "l_extra (two_procs k) = None" "l_current (two_procs k) = None"
    by (simp_all add: two_procs_def)
  moreover have "\<not> delayed (two_procs k) i" for i
  proof
    assume "delayed (two_procs k) i"
    then have "i = 0 \<or> i = 1" "syscall_delayed (l_tab (two_procs k) ! i)" by (auto simp: delayed_def two_procs_live)
    then show False by (auto simp: two_procs_def has_def zero_tcb_def)
  qed
  ultimately show ?thesis by (simp add: loop_inv_def base_inv_def two_procs_inv armed_inv_def)
qed

section \<open>Properties\<close>



text \<open>C8: When the delay timer fires, and the requests to the kernel succeed, exactly the tracees whose
  delay is over are restarted, each with one request and in the order of the table, the others stay
  delayed, and the timer is set to the earliest time at which one of these has to be restarted.\<close>

theorem expired_delays_restarted:
  assumes "restarts_ok L s" "clk_settime_ok (le_clock L)"
  shows "\<exists>s'. restart_delayed_tcbs A opt L F s = Inr (True, s') \<and>
    (\<forall>i. delayed s' i \<longleftrightarrow> unexpired L s i) \<and> next_timer L s (l_timer s') \<and>
    kst (l_sys s') = fold (\<lambda>i k. snd (restart_request A opt L F s i k))
      (filter (expired L s) [0..<length (l_tab s)]) (kst (l_sys s))"
proof (cases rule: restart_delayed_tcbs_cases [where A = A and opt = opt and L = L and F = F and s = s])
  case (restarted c dt)
  have "delayed ((released D k c s)\<lparr>l_timer := dt\<rparr>) i = delayed (released D k c s) i" for D k i
    by (simp add: delayed_def live_def)
  then show ?thesis
    using restarted by (auto simp: delayed_released unexpired_def)
qed (use assms in simp_all)

text \<open>Of two delayed tracees, one has to be restarted now and the other one two seconds later.\<close>

theorem expired_delays_restarted_witness:
  "\<exists>s'. restart_delayed_tcbs small_arch plain_opts (log_env \<lparr>tv_sec = 3, tv_nsec = 0\<rparr>) (init_filters small_env)
     delayed_procs = Inr (True, s') \<and> \<not> delayed s' 0 \<and> delayed s' 1 \<and> kst (l_sys s') = [(7, 0)] \<and>
     timer_armed (l_timer s') \<and> timer_at (l_timer s') = \<lparr>tv_sec = 5, tv_nsec = 0\<rparr>"
proof -
  let ?L = "log_env \<lparr>tv_sec = 3, tv_nsec = 0\<rparr>"
  have tab: "length (l_tab delayed_procs) = 2" by (simp add: delayed_procs_def)
  have d: "delayed delayed_procs i \<longleftrightarrow> i = 0 \<or> i = 1" for i
    by (auto simp: delayed_def live_def delayed_procs_def has_def less_Suc_eq)
  have e: "expired ?L delayed_procs i \<longleftrightarrow> i = 0" for i
    by (auto simp: expired_def d) (auto simp: delayed_procs_def log_env_def ts_cmp_def)
  have u: "unexpired ?L delayed_procs i \<longleftrightarrow> i = 1" for i
    by (auto simp: unexpired_def d e)
  have f: "filter (expired ?L delayed_procs) [0..<2] = [0]" by (simp add: e upt_rec)
  have k: "snd (restart_request small_arch plain_opts ?L (init_filters small_env) delayed_procs 0 []) = [(7, 0)]"
    by (simp add: restart_request_def log_env_def delayed_procs_def)
  have "restarts_ok ?L delayed_procs" "clk_settime_ok (le_clock ?L)" "kst (l_sys delayed_procs) = []"
    by (simp_all add: restarts_ok_def log_env_def delayed_procs_def two_procs_def)
  from expired_delays_restarted [OF this(1,2), of small_arch plain_opts "init_filters small_env"] this(3) f k
  show ?thesis by (auto simp: u tab next_timer_def) (auto simp: delayed_procs_def)
qed

text \<open>C36: A tracee that is stopped for an injected delay is not restarted at its stop, and the signal
  to be injected there is not kept. When the delay is over it is restarted with no signal, so a signal
  injected together with a delay is never delivered.\<close>

theorem signal_lost_in_delay:
  assumes "i < length (l_tab s)" "l_interrupted s = 0" "syscall_delayed (l_tab s ! i)"
  shows "\<exists>s1. (\<forall>sig. ptrace_dispatch L op i sig wd s = Inr (True, s1)) \<and> kst (l_sys s1) = kst (l_sys s) \<and>
    (\<exists>ok s2. restart_delayed_tcb A opt L' F i s1 = Inr (ok, s2) \<and>
       kst (l_sys s2) = snd (le_ptrace L' (restart_op A opt F s i) (t_pid (l_tab s ! i)) 0 (kst (l_sys s))))"
proof -
  let ?s = "upd_tcb i (\<lambda>t. t\<lparr>t_delayed_wait_data := Some wd\<rparr>) s"
  obtain r k where rk: "restart_request A opt L' F ?s i (kst (l_sys ?s)) = (r, k)" by fastforce
  obtain c where "restart_delayed_tcb A opt L' F i ?s = Inr (r \<noteq> Other_Error, released {i} k c ?s)"
    using restart_delayed_tcb_result [OF _ rk] assms(1,2) by auto
  moreover have "restart_op A opt F ?s i = restart_op A opt F s i"
    using assms(1) by (simp add: restart_op_def Let_def)
  ultimately show ?thesis
    using assms rk by (intro exI [of _ ?s]) (simp add: ptrace_dispatch_def restart_request_def)
qed

theorem signal_lost_in_delay_witness:
  "\<exists>s1. ptrace_dispatch (log_env zero_ts) PTRACE_SYSCALL 0 10 \<lparr>wd_te = TE_SYSCALL_STOP, wd_status = 0x857f, wd_msg = 0\<rparr>
       delayed_procs = Inr (True, s1) \<and>
     (\<exists>ok s2. restart_delayed_tcb small_arch plain_opts (log_env zero_ts) (init_filters small_env) 0 s1 = Inr (ok, s2) \<and>
        kst (l_sys s2) = [(7, 0)])"
proof -
  have s: "0 < length (l_tab delayed_procs)" "l_interrupted delayed_procs = 0" "syscall_delayed (l_tab delayed_procs ! 0)"
    "t_pid (l_tab delayed_procs ! 0) = 7" "kst (l_sys delayed_procs) = []"
    by (simp_all add: delayed_procs_def two_procs_def has_def)
  show ?thesis
    using signal_lost_in_delay [OF s(1-3), of "log_env zero_ts" PTRACE_SYSCALL
        "\<lparr>wd_te = TE_SYSCALL_STOP, wd_status = 0x857f, wd_msg = 0\<rparr>" small_arch plain_opts "log_env zero_ts"
        "init_filters small_env"]
    unfolding s(4,5) by (auto simp: log_env_def)
qed



end
