(* ===== verification/Attach_Cleanup.thy ===== *)
theory Attach_Cleanup
  imports Event_Safety
begin

text \<open>
  The beginning and the end of tracing in \<^verbatim>\<open>src/src/strace.c\<close>: attaching to the processes given on the
  command line with all their threads, and detaching from every tracee before strace exits. The
  answers of the kernel, the listing of the threads of a process and the wait statuses are parameters.
\<close>

record 'k attach_env =
  ae_attach :: "nat \<Rightarrow> 'k \<Rightarrow> bool \<times> 'k"
  ae_seize :: "nat \<Rightarrow> 'k \<Rightarrow> bool \<times> 'k"
  ae_kill :: "nat \<Rightarrow> nat \<Rightarrow> 'k \<Rightarrow> 'k"
  ae_tasks :: "nat \<Rightarrow> (bool \<times> string) list option"
  ae_parent_pid :: nat
  ae_tracer_pid :: nat
  ae_daemonized :: bool

section \<open>Attaching\<close>

definition ptrace_attach_or_seize :: "trace_opts \<Rightarrow> 'k loop_env \<Rightarrow> 'k attach_env \<Rightarrow> nat \<Rightarrow> 'k \<Rightarrow> bool \<times> 'k" where
  "ptrace_attach_or_seize opt L E pid k =
     (if \<not> o_use_seize opt then ae_attach E pid k
      else case ae_seize E pid k of (ok, k) \<Rightarrow>
        if \<not> ok then (False, k) else case le_interrupt L pid k of (r, k) \<Rightarrow> (r = OK, k))"

definition attach_flags :: "trace_opts \<Rightarrow> u32" where
  "attach_flags opt = TCB_GRABBED OR (if o_use_seize opt then 0 else TCB_IGNORE_ONE_SIGSTOP)"

text \<open>The threads listed for the process \<open>pid\<close>: whether the entry has an inode, and its name.\<close>

fun attach_threads ::
    "'a arch_scheme \<Rightarrow> trace_opts \<Rightarrow> 'k loop_env \<Rightarrow> 'k attach_env \<Rightarrow> nat \<Rightarrow> (bool \<times> string) list \<Rightarrow> 'k loop \<Rightarrow>
     die + 'k loop" where
  "attach_threads A opt L E pid [] s = Inr s"
| "attach_threads A opt L E pid ((ino, name) # ds) s =
     (let tid = string_to_uint name
      in if \<not> ino \<or> tid \<le> 0 \<or> tid = int pid then attach_threads A opt L E pid ds s
         else case ptrace_attach_or_seize opt L E (nat tid) (kst (l_sys s)) of (ok, k) \<Rightarrow>
           let s = set_kst k s
           in if \<not> ok then attach_threads A opt L E pid ds s
              else rbind (alloctcb A (nat tid) s) (\<lambda>(i, s).
                attach_threads A opt L E pid ds (upd_tcb i (after_successful_attach (attach_flags opt)) s)))"

definition attach_tcb ::
    "'a arch_scheme \<Rightarrow> trace_opts \<Rightarrow> 'k loop_env \<Rightarrow> 'k attach_env \<Rightarrow> nat \<Rightarrow> 'k loop \<Rightarrow> die + 'k loop" where
  "attach_tcb A opt L E i s =
     (let pid = t_pid (l_tab s ! i)
      in case ptrace_attach_or_seize opt L E pid (kst (l_sys s)) of (ok, k) \<Rightarrow>
        let s = set_kst k s
        in if \<not> ok then Inr (droptcb A i s)
           else let s = upd_tcb i (after_successful_attach (attach_flags opt)) s
             in if o_followfork opt \<and> pid \<noteq> l_strace_child s
                then case ae_tasks E pid of None \<Rightarrow> Inr s | Some ds \<Rightarrow> attach_threads A opt L E pid ds s
                else Inr s)"

text \<open>The loop over a table that may grow while it runs; the result is \<open>None\<close> if it does not end.\<close>

partial_function (option) attach_loop ::
    "'a arch_scheme \<Rightarrow> trace_opts \<Rightarrow> 'k loop_env \<Rightarrow> 'k attach_env \<Rightarrow> nat \<Rightarrow> 'k loop \<Rightarrow> (die + bool \<times> 'k loop) option" where
  "attach_loop A opt L E i s =
     (if i \<ge> length (l_tab s) then Some (Inr (False, s))
      else let tcp = l_tab s ! i
        in if t_pid tcp = 0 \<or> has TCB_ATTACHED tcp then attach_loop A opt L E (i + 1) s
           else if t_pid tcp = ae_parent_pid E \<or> t_pid tcp = ae_tracer_pid E
           then attach_loop A opt L E (i + 1) (droptcb A i s)
           else case attach_tcb A opt L E i s of
             Inl d \<Rightarrow> Some (Inl d)
           | Inr s \<Rightarrow> if l_interrupted s \<noteq> 0 then Some (Inr (True, s)) else attach_loop A opt L E (i + 1) s)"

definition startup_attach ::
    "'a arch_scheme \<Rightarrow> trace_opts \<Rightarrow> 'k loop_env \<Rightarrow> 'k attach_env \<Rightarrow> 'k loop \<Rightarrow> (die + 'k loop) option" where
  "startup_attach A opt L E s =
     map_option (\<lambda>r. rbind r (\<lambda>(interrupted, s).
       Inr (if \<not> interrupted \<and> ae_daemonized E
            then (set_kst (ae_kill E (ae_parent_pid E) (unat SIGKILL) (kst (l_sys s))) s)\<lparr>l_strace_child := 0\<rparr>
            else s))) (attach_loop A opt L E 0 s)"

section \<open>Detaching from everything\<close>

datatype cleanup_answer = CW_EINTR | CW_Error | CW_Status nat u32

abbreviation SIGCONT :: nat where "SIGCONT \<equiv> 18"
abbreviation SIGTERM :: nat where "SIGTERM \<equiv> 15"

text \<open>The first pass, over every block: the number of tracees that have to be waited for.\<close>

fun cleanup_detach ::
    "'a arch_scheme \<Rightarrow> trace_opts \<Rightarrow> 'k loop_env \<Rightarrow> 'k attach_env \<Rightarrow> nat \<Rightarrow> nat list \<Rightarrow> 'k loop \<Rightarrow> nat \<times> 'k loop" where
  "cleanup_detach A opt L E fatal_sig [] s = (0, s)"
| "cleanup_detach A opt L E fatal_sig (i # is) s =
     (let pid = t_pid (l_tab s ! i)
      in if pid = 0 then cleanup_detach A opt L E fatal_sig is s
         else let s = (if pid = l_strace_child s
                       then set_kst (ae_kill E pid fatal_sig (ae_kill E pid SIGCONT (kst (l_sys s)))) s else s)
           in case detach_or_interrupt_or_stop opt L i s of (wait, s) \<Rightarrow>
             case cleanup_detach A opt L E fatal_sig is (if wait then s else droptcb A i s) of (n, s) \<Rightarrow>
               (if wait then n + 1 else n, s))"

fun cleanup_wait ::
    "'a arch_scheme \<Rightarrow> trace_opts \<Rightarrow> 'k loop_env \<Rightarrow> nat \<Rightarrow> cleanup_answer list \<Rightarrow> 'k loop \<Rightarrow> halt + 'k loop" where
  "cleanup_wait A opt L 0 ws s = Inr s"
| "cleanup_wait A opt L (Suc n) [] s = Inl Waiting"
| "cleanup_wait A opt L (Suc n) (CW_EINTR # ws) s = cleanup_wait A opt L (Suc n) ws s"
| "cleanup_wait A opt L (Suc n) (CW_Error # ws) s = Inr s"
| "cleanup_wait A opt L (Suc n) (CW_Status pid status # ws) s =
     (if pid = l_popen_pid s then
        cleanup_wait A opt L (Suc n) ws (if WIFSTOPPED status then s else s\<lparr>l_popen_pid := 0\<rparr>)
      else case pid2tcb pid s of
        (None, s) \<Rightarrow> cleanup_wait A opt L (Suc n) ws s
      | (Some i, s) \<Rightarrow>
          case detach_interrupted_or_stopped opt L i status s of (gone, s) \<Rightarrow>
            if gone then cleanup_wait A opt L n ws (droptcb A i s) else cleanup_wait A opt L (Suc n) ws s)"

definition cleanup ::
    "'a arch_scheme \<Rightarrow> trace_opts \<Rightarrow> 'k loop_env \<Rightarrow> 'k attach_env \<Rightarrow> bool \<Rightarrow> nat \<Rightarrow> cleanup_answer list \<Rightarrow> 'k loop \<Rightarrow>
     halt + 'k loop" where
  "cleanup A opt L E exitkill fatal_sig ws s =
     (if exitkill then Inr s
      else let fatal_sig = (if fatal_sig = 0 then SIGTERM else fatal_sig)
        in case cleanup_detach A opt L E fatal_sig [0..<length (l_tab s)] s of (n, s) \<Rightarrow> cleanup_wait A opt L n ws s)"

text \<open>
  How strace ends: with an exit code, or by raising the signal that ended the child or interrupted
  strace, and with 128 more than its number as the exit code if it survives that.
\<close>

datatype exit_status = Exit nat | Raise nat

definition terminate ::
    "'a arch_scheme \<Rightarrow> trace_opts \<Rightarrow> 'k loop_env \<Rightarrow> 'k attach_env \<Rightarrow> bool \<Rightarrow> cleanup_answer list \<Rightarrow> 'k loop \<Rightarrow>
     halt + exit_status" where
  "terminate A opt L E exitkill ws s =
     (let sig = l_interrupted s
      in rbind (cleanup A opt L E exitkill sig ws s) (\<lambda>s.
           let exit_code = (if sig \<noteq> 0 then 0x100 + sig else l_exit_code s)
           in Inr (if exit_code > 0xff then Raise (exit_code mod 0x100) else Exit exit_code)))"

text \<open>\<^verbatim>\<open>main\<close> after the initialization.\<close>

definition main_run ::
    "'a arch_scheme \<Rightarrow> trace_opts \<Rightarrow> filters \<Rightarrow> 'k round list \<Rightarrow> 'k loop_env \<Rightarrow> 'k attach_env \<Rightarrow> bool \<Rightarrow>
     cleanup_answer list \<Rightarrow> 'k loop \<Rightarrow> halt + exit_status" where
  "main_run A opt F rs L E exitkill ws s =
     rbind (main_loop A opt F rs (s\<lparr>l_exit_code := (if l_nprocs s = 0 then 1 else 0)\<rparr>)) (terminate A opt L E exitkill ws)"

section \<open>Attaching ends and attaches to everything\<close>

definition count_ok :: "'k loop \<Rightarrow> bool" where
  "count_ok s \<longleftrightarrow> l_nprocs s = card {i. live s i}"

definition unattached :: "'k loop \<Rightarrow> nat set" where
  "unattached s = {i. live s i \<and> \<not> has TCB_ATTACHED (l_tab s ! i)}"

lemma finite_unattached [simp]: "finite (unattached s)"
  by (rule finite_subset [OF _ finite_live [of s]]) (auto simp: unattached_def)

lemma unattached_less: "i \<in> unattached s \<Longrightarrow> i < length (l_tab s)"
  by (simp add: unattached_def live_def)

text \<open>A new block can always be allocated, and leaves the others alone.\<close>

lemma alloctcb_count:
  assumes "count_ok s" "pid \<noteq> 0"
  obtains i s' where "alloctcb A pid s = Inr (i, s')" "count_ok s'" "live s' = (\<lambda>j. j = i \<or> live s j)"
    "\<not> live s i" "i < length (l_tab s')" "\<And>j. live s j \<Longrightarrow> l_tab s' ! j = l_tab s ! j" "l_interrupted s' = l_interrupted s"
proof -
  define s1 where "s1 = (if l_nprocs s = length (l_tab s) then expand_tcbtab A s else s)"
  have n: "l_nprocs s1 = l_nprocs s" "l_interrupted s1 = l_interrupted s" by (simp_all add: s1_def expand_tcbtab_def)
  have live: "live s1 = live s" by (simp add: s1_def live_expand)
  have tab: "l_tab s1 ! j = l_tab s ! j" if "live s j" for j
    using that by (simp add: s1_def expand_tcbtab_def nth_append live_def)
  have len: "l_nprocs s < length (l_tab s1)"
    using assms(1) card_live_le [of s] grow_capacity_greater [of 8 "length (l_tab s)"]
    by (auto simp: s1_def count_ok_def expand_tcbtab_def)
  have "find_tcb 0 s1 \<noteq> None"
  proof
    assume "find_tcb 0 s1 = None"
    then have "{i. live s1 i} = {..<length (l_tab s1)}" by (auto simp: find_tcb_None live_def)
    then show False using assms(1) len live by (simp add: count_ok_def)
  qed
  then obtain i where i: "find_tcb 0 s1 = Some i" by auto
  then have il: "i < length (l_tab s1)" "\<not> live s i" using find_tcb_Some [OF i] unfolding live [symmetric] by (simp_all add: live_def)
  define s2 where "s2 = (upd_tcb i (\<lambda>_. (zero_tcb A)\<lparr>t_pid := pid, t_currpers := current_personality (l_sys s1)\<rparr>) s1)
      \<lparr>l_nprocs := l_nprocs s1 + 1\<rparr>"
  have l2: "live s2 = (\<lambda>j. j = i \<or> live s j)"
  proof
    fix j
    show "live s2 j = (j = i \<or> live s j)"
      using il assms(2) unfolding live [symmetric] by (cases "j = i") (simp_all add: live_def s2_def)
  qed
  have "{j. j = i \<or> live s j} = insert i {j. live s j}" by auto
  moreover have "l_nprocs s2 = Suc (l_nprocs s)" using n(1) by (simp add: s2_def)
  ultimately have c2: "count_ok s2" using assms(1) il(2) by (simp add: count_ok_def l2)
  have a2: "alloctcb A pid s = Inr (i, s2)"
    using i by (simp add: alloctcb_def Let_def s1_def [symmetric] s2_def)
  have t2: "l_tab s2 ! j = l_tab s ! j" if "live s j" for j
    using that il(2) tab by (cases "j = i") (auto simp: s2_def)
  have e2: "i < length (l_tab s2)" "l_interrupted s2 = l_interrupted s" using il(1) n(2) by (simp_all add: s2_def)
  show ?thesis by (rule that [OF a2 c2 l2 il(2) e2(1) t2 e2(2)])
qed

lemma has_attached: "has TCB_ATTACHED (after_successful_attach f tcp)"
  by (simp add: after_successful_attach_def tcb_simps or_and_eq_0)

lemma attach_keeps:
  assumes "count_ok s" "i < length (l_tab s)"
  shows "count_ok (upd_tcb i (after_successful_attach f) s)" "live (upd_tcb i (after_successful_attach f) s) = live s"
    "unattached (upd_tcb i (after_successful_attach f) s) = unattached s - {i}"
proof -
  have p: "t_pid (after_successful_attach f t) = t_pid t" for t by (simp add: after_successful_attach_def)
  show l: "live (upd_tcb i (after_successful_attach f) s) = live s" by (rule upd_tcb_pid_inv(2)) (rule p)
  show "count_ok (upd_tcb i (after_successful_attach f) s)" using assms(1) l by (simp add: count_ok_def)
  show "unattached (upd_tcb i (after_successful_attach f) s) = unattached s - {i}"
  proof (rule set_eqI)
    fix j
    show "j \<in> unattached (upd_tcb i (after_successful_attach f) s) \<longleftrightarrow> j \<in> unattached s - {i}"
      using assms(2) by (cases "j = i") (simp_all add: unattached_def l has_attached)
  qed
qed

lemma attach_threads_ok:
  assumes "count_ok s"
  shows "\<exists>s'. attach_threads A opt L E pid ds s = Inr s' \<and> count_ok s' \<and> unattached s' = unattached s \<and>
    l_interrupted s' = l_interrupted s"
  using assms
proof (induction A opt L E pid ds s rule: attach_threads.induct)
  case (2 A opt L E pid ino name ds s)
  let ?tid = "string_to_uint name"
  obtain ok k where ok: "ptrace_attach_or_seize opt L E (nat ?tid) (kst (l_sys s)) = (ok, k)" by fastforce
  have k: "count_ok (set_kst k s)" "unattached (set_kst k s) = unattached s" "l_interrupted (set_kst k s) = l_interrupted s"
    using 2(4) by (simp_all add: count_ok_def unattached_def live_def)
  show ?case
  proof (cases "\<not> ino \<or> ?tid \<le> 0 \<or> ?tid = int pid")
    case True
    then show ?thesis using 2(1) [OF refl True 2(4)] by simp
  next
    case new: False
    show ?thesis
    proof (cases ok)
      case False
      then show ?thesis using 2(2) [OF refl new ok [symmetric] refl _ k(1)] new ok k(2) by simp
    next
      case True
      have tid: "nat ?tid \<noteq> 0" using new by simp
      obtain i s1 where a: "alloctcb A (nat ?tid) (set_kst k s) = Inr (i, s1)" "count_ok s1"
        "live s1 = (\<lambda>j. j = i \<or> live (set_kst k s) j)" "\<not> live (set_kst k s) i" "i < length (l_tab s1)"
        "\<And>j. live (set_kst k s) j \<Longrightarrow> l_tab s1 ! j = l_tab (set_kst k s) ! j" "l_interrupted s1 = l_interrupted (set_kst k s)"
        by (rule alloctcb_count [OF k(1) tid, where A = A]) (rule that; assumption)
      let ?s = "upd_tcb i (after_successful_attach (attach_flags opt)) s1"
      note u = attach_keeps [OF a(2,5), where f = "attach_flags opt"]
      have "unattached s1 - {i} = unattached (set_kst k s)"
        using a(3,4,6) by (auto simp: unattached_def)
      moreover have "attach_threads A opt L E pid ((ino, name) # ds) s = attach_threads A opt L E pid ds ?s"
        using new ok True a(1) by simp
      ultimately show ?thesis
        using 2(3) [OF refl new ok [symmetric] refl _ u(1)] True u(3) k(2,3) a(7) by simp
    qed
  qed
qed simp

lemma droptcb_count:
  assumes "count_ok s" "live s i"
  shows "count_ok (droptcb A i s)" "live (droptcb A i s) = (\<lambda>j. live s j \<and> j \<noteq> i)"
    "unattached (droptcb A i s) = unattached s - {i}"
proof -
  have i: "i < length (l_tab s)" "t_pid (l_tab s ! i) \<noteq> 0" using assms(2) by (simp_all add: live_def)
  have "live (droptcb A i s) j \<longleftrightarrow> live s j \<and> j \<noteq> i" for j
    using i by (cases "j = i") (auto simp: live_def droptcb_def zero_tcb_def)
  then show l: "live (droptcb A i s) = (\<lambda>j. live s j \<and> j \<noteq> i)" by auto
  have "{j. live s j \<and> j \<noteq> i} = {j. live s j} - {i}" by auto
  moreover have "l_nprocs (droptcb A i s) = l_nprocs s - 1" using i by (simp add: droptcb_def)
  ultimately show "count_ok (droptcb A i s)" using assms by (simp add: count_ok_def l)
  show "unattached (droptcb A i s) = unattached s - {i}" unfolding unattached_def l by auto
qed

lemma attach_tcb_ok:
  assumes "count_ok s" "live s i"
  shows "\<exists>s'. attach_tcb A opt L E i s = Inr s' \<and> count_ok s' \<and> unattached s' = unattached s - {i} \<and>
    l_interrupted s' = l_interrupted s"
proof -
  let ?pid = "t_pid (l_tab s ! i)"
  obtain ok k where ok: "ptrace_attach_or_seize opt L E ?pid (kst (l_sys s)) = (ok, k)" by fastforce
  have k: "count_ok (set_kst k s)" "unattached (set_kst k s) = unattached s" "live (set_kst k s) i"
    "i < length (l_tab (set_kst k s))"
    using assms by (simp_all add: count_ok_def unattached_def live_def)
  let ?s = "upd_tcb i (after_successful_attach (attach_flags opt)) (set_kst k s)"
  note d = droptcb_count [OF k(1,3), where A = A]
  note u = attach_keeps [OF k(1,4), where f = "attach_flags opt"]
  show ?thesis
  proof (cases "ok \<and> o_followfork opt \<and> ?pid \<noteq> l_strace_child s \<and> ae_tasks E ?pid \<noteq> None")
    case True
    then obtain ds where "attach_tcb A opt L E i s = attach_threads A opt L E ?pid ds ?s"
      using ok by (auto simp: attach_tcb_def Let_def)
    then show ?thesis using attach_threads_ok [OF u(1), of A opt L E ?pid ds] u(3) k(2) by simp
  next
    case False
    then have "attach_tcb A opt L E i s = Inr (if ok then ?s else droptcb A i (set_kst k s))"
      using ok by (auto simp: attach_tcb_def Let_def split: option.split)
    then show ?thesis using u d k(2) by simp
  qed
qed

lemma attach_loop_ok:
  assumes "count_ok s" "l_interrupted s = 0" "unattached s \<subseteq> {i..}"
  shows "\<exists>s'. attach_loop A opt L E i s = Some (Inr (False, s')) \<and> count_ok s' \<and> unattached s' = {}"
  using assms
proof (induction "(i, s)" arbitrary: i s
    rule: wf_induct_rule [OF wf_measures [of "[\<lambda>(i, s). card (unattached s), \<lambda>(i, s). length (l_tab s) - i]"]])
  case (1 i s)
  note IH = 1(1) and s = 1(2-4)
  have drop: "unattached s - {i} \<subseteq> {i + 1..}"
  proof
    fix j assume "j \<in> unattached s - {i}"
    then have "i \<le> j" "j \<noteq> i" using s(3) by auto
    then show "j \<in> {i + 1..}" by simp
  qed
  show ?case
  proof (cases "i < length (l_tab s)")
    case False
    then have "unattached s = {}" using s(3) unattached_less [of _ s] by fastforce
    then show ?thesis using False s(1) by (simp add: attach_loop.simps [of A opt L E i s])
  next
    case True
    let ?t = "l_tab s ! i"
    show ?thesis
    proof (cases "i \<in> unattached s")
      case False
      then have "attach_loop A opt L E i s = attach_loop A opt L E (i + 1) s"
        using True by (subst attach_loop.simps) (auto simp: unattached_def live_def)
      moreover have "unattached s \<subseteq> {i + 1..}" using drop False by auto
      ultimately show ?thesis using IH [of "i + 1" s] s True by simp
    next
      case un: True
      then have l: "live s i" "t_pid ?t \<noteq> 0" "\<not> has TCB_ATTACHED ?t" by (auto simp: unattached_def live_def)
      have less: "((i + 1, s'), (i, s)) \<in> measures [\<lambda>(i, s). card (unattached s), \<lambda>(i, s). length (l_tab s) - i]"
        if "unattached s' = unattached s - {i}" for s'
        using card_Diff1_less [OF finite_unattached un] that by simp
      note d = droptcb_count [OF s(1) l(1), where A = A]
      obtain s' where a: "attach_tcb A opt L E i s = Inr s'" "count_ok s'" "unattached s' = unattached s - {i}"
        "l_interrupted s' = 0" using attach_tcb_ok [OF s(1) l(1), of A opt L E] s(2) by auto
      show ?thesis
      proof (cases "t_pid ?t = ae_parent_pid E \<or> t_pid ?t = ae_tracer_pid E")
        case True
        then have "attach_loop A opt L E i s = attach_loop A opt L E (i + 1) (droptcb A i s)"
          using \<open>i < length (l_tab s)\<close> l by (subst attach_loop.simps) auto
        then show ?thesis using IH [OF less [OF d(3)] d(1)] s(2) drop d(3) by simp
      next
        case False
        then have "attach_loop A opt L E i s = attach_loop A opt L E (i + 1) s'"
          using \<open>i < length (l_tab s)\<close> l a by (subst attach_loop.simps) simp
        then show ?thesis using IH [OF less [OF a(3)] a(2,4)] drop a(3) by simp
      qed
    qed
  qed
qed

section \<open>Cleaning up ends and leaves no tracee\<close>

definition shrinks :: "'k loop \<Rightarrow> 'k loop \<Rightarrow> bool" where
  "shrinks s s' \<longleftrightarrow> tab_inv s' \<and> length (l_tab s') = length (l_tab s) \<and> l_popen_pid s' = l_popen_pid s \<and>
     (\<forall>i. live s' i \<longrightarrow> live s i \<and> t_pid (l_tab s' ! i) = t_pid (l_tab s ! i))"

lemma shrinks_trans: "shrinks a b \<Longrightarrow> shrinks b c \<Longrightarrow> shrinks a c"
  by (simp add: shrinks_def)

lemma set_kst_live [simp]: "live (set_kst k s) = live s"
  by (simp add: live_def fun_eq_iff)

lemma set_kst_shrinks: "tab_inv s \<Longrightarrow> shrinks s (set_kst k s)"
  by (simp add: shrinks_def tab_inv_def) (simp add: set_kst_def)

lemma droptcb_shrinks:
  assumes "tab_inv s" "i < length (l_tab s)" shows "shrinks s (droptcb A i s)"
  using droptcb_inv [OF assms, where A = A] by (auto simp: shrinks_def droptcb_def)

lemma detach_parts_kst:
  "\<exists>k. snd (detach_or_interrupt_or_stop opt L i s) = set_kst k s"
  "\<exists>k. snd (detach_interrupted_or_stopped opt L i status s) = set_kst k s"
proof -
  have k: "set_kst k (set_kst k' s) = set_kst k s" "s = set_kst (kst (l_sys s)) s" for k k' and s :: "'a loop"
    by (simp_all add: set_kst_def)
  have r: "\<exists>k. snd (ptrace_restart L op i sig s) = set_kst k s" for op sig
    by (simp add: ptrace_restart_def split: prod.split) blast
  have e: "\<exists>k. s = set_kst k s" by (rule exI, rule k(2))
  show "\<exists>k. snd (detach_or_interrupt_or_stop opt L i s) = set_kst k s"
    unfolding detach_or_interrupt_or_stop_def Let_def using k by (simp split: prod.split; blast)
  show "\<exists>k. snd (detach_interrupted_or_stopped opt L i status s) = set_kst k s"
    unfolding detach_interrupted_or_stopped_def Let_def by (simp add: case_prod_beta r e)
qed

text \<open>The first pass drops the blocks it does not count.\<close>

lemma cleanup_detach_ok:
  assumes "tab_inv s" "distinct is" "set is \<subseteq> {..<length (l_tab s)}" "cleanup_detach A opt L E sig is s = (n, s')"
  shows "shrinks s s' \<and> n = card {i \<in> set is. live s' i} \<and> (\<forall>i. i \<notin> set is \<longrightarrow> live s' i = live s i)"
  using assms
proof (induction "is" arbitrary: s n)
  case Nil
  then show ?case by (simp add: shrinks_def)
next
  case (Cons i "is")
  have i: "i < length (l_tab s)" "i \<notin> set is" "distinct is" "set is \<subseteq> {..<length (l_tab s)}" using Cons.prems by simp_all
  show ?case
  proof (cases "t_pid (l_tab s ! i) = 0")
    case True
    then have "cleanup_detach A opt L E sig is s = (n, s')" "\<not> live s i" using Cons.prems(4) by (simp_all add: live_def)
    with Cons.IH [OF Cons.prems(1) i(3,4)] i(2) show ?thesis by (auto intro!: arg_cong [where f = card])
  next
    case False
    let ?s0 = "if t_pid (l_tab s ! i) = l_strace_child s
        then set_kst (ae_kill E (t_pid (l_tab s ! i)) sig (ae_kill E (t_pid (l_tab s ! i)) SIGCONT (kst (l_sys s)))) s else s"
    obtain w s1 where w: "detach_or_interrupt_or_stop opt L i ?s0 = (w, s1)" by fastforce
    obtain k where k: "s1 = set_kst k s"
    proof -
      obtain k where "s1 = set_kst k ?s0" using detach_parts_kst(1) [of opt L i ?s0] w by auto
      then have "s1 = set_kst k s" by (simp add: set_kst_def)
      then show ?thesis by (rule that)
    qed
    define s2 where "s2 = (if w then s1 else droptcb A i s1)"
    obtain m where m: "cleanup_detach A opt L E sig is s2 = (m, s')" "n = (if w then m + 1 else m)"
      using Cons.prems(4) False w by (auto simp: Let_def s2_def split: prod.splits)
    have sh1: "shrinks s s1" "tab_inv s1" using set_kst_shrinks [OF Cons.prems(1), of k] k by (simp_all add: shrinks_def)
    have l1: "length (l_tab s1) = length (l_tab s)" "live s1 = live s" using k by simp_all
    have sh: "shrinks s s2" "tab_inv s2"
      using shrinks_trans [OF sh1(1) droptcb_shrinks [OF sh1(2), where A = A]] sh1 i(1) l1(1)
        droptcb_inv(1) [OF sh1(2), of i A] by (auto simp: s2_def)
    have "live s i" using i(1) False by (simp add: live_def)
    then have l2: "live s2 j = (if j = i then w else live s j)" for j
      using droptcb_inv(2) [OF sh1(2), of i A] i(1) l1 by (simp add: s2_def)
    have len: "set is \<subseteq> {..<length (l_tab s2)}" using i(4) sh(1) by (simp add: shrinks_def)
    note ih = Cons.IH [OF sh(2) i(3) len m(1)]
    have li: "live s' i = w" using ih i(2) l2 by simp
    have "{j \<in> set (i # is). live s' j} = (if w then insert i {j \<in> set is. live s' j} else {j \<in> set is. live s' j})"
      using li by auto
    moreover have "i \<notin> {j \<in> set is. live s' j}" using i(2) by simp
    ultimately show ?thesis
      using ih m(2) shrinks_trans [OF sh(1)] l2 by simp
  qed
qed

text \<open>The second pass waits for the others, each of which ends at some time.\<close>

definition ends :: "cleanup_answer list \<Rightarrow> nat \<Rightarrow> bool" where
  "ends ws pid \<longleftrightarrow> (\<exists>status. CW_Status pid status \<in> set ws \<and> \<not> WIFSTOPPED status)"

lemma ends_Cons [simp]:
  "ends (CW_EINTR # ws) p = ends ws p"
  "ends (CW_Status pid status # ws) p \<longleftrightarrow> p = pid \<and> \<not> WIFSTOPPED status \<or> ends ws p"
  by (auto simp: ends_def)

lemma cleanup_wait_ok:
  assumes "tab_inv s" "card {i. live s i} = n" "CW_Error \<notin> set ws"
    and "\<And>i. live s i \<Longrightarrow> t_pid (l_tab s ! i) \<noteq> l_popen_pid s \<and> ends ws (t_pid (l_tab s ! i))"
  shows "\<exists>s'. cleanup_wait A opt L n ws s = Inr s' \<and> tab_inv s' \<and> (\<forall>i. \<not> live s' i)"
  using assms
proof (induction A opt L n ws s rule: cleanup_wait.induct)
  case (1 A opt L ws s)
  then show ?case by auto
next
  case (2 A opt L n s)
  then have "{i. live s i} \<noteq> {}" by (metis card.empty nat.distinct(1))
  then show ?case using 2(4) by (auto simp: ends_def)
next
  case (5 A opt L n pid status ws s)
  note inv = 5(5) and card = 5(6) and err = 5(7) and live = 5(8)
  have err': "CW_Error \<notin> set ws" using err by simp
  show ?case
  proof (cases "pid = l_popen_pid s")
    case True
    let ?s = "if WIFSTOPPED status then s else s\<lparr>l_popen_pid := 0\<rparr>"
    have l: "live ?s = live s" "l_tab ?s = l_tab s" by (auto simp: live_def fun_eq_iff)
    have "tab_inv ?s" using inv by (simp add: tab_inv_def live_def)
    moreover have "t_pid (l_tab ?s ! i) \<noteq> l_popen_pid ?s \<and> ends ws (t_pid (l_tab ?s ! i))" if "live ?s i" for i
      using live [of i] that True unfolding l by (auto simp: live_def)
    ultimately have "\<exists>s'. cleanup_wait A opt L (Suc n) ws ?s = Inr s' \<and> tab_inv s' \<and> (\<forall>i. \<not> live s' i)"
      using card by (intro 5(1) [OF True _ _ err']) (simp_all only: l simp_thms not_False_eq_True)
    then show ?thesis using True by simp
  next
    case np: False
    obtain c where c: "snd (pid2tcb pid s) = s\<lparr>l_cache := c\<rparr>" using pid2tcb_result(2) [OF inv] by blast
    let ?s = "s\<lparr>l_cache := c\<rparr>"
    have l: "live ?s = live s" by (auto simp: live_def fun_eq_iff)
    have inv': "tab_inv ?s" using pid2tcb_result(3) [OF inv, of pid] c by simp
    have fst: "fst (pid2tcb pid s) = (if pid = 0 then None else find_tcb pid s)" by (rule pid2tcb_result(1) [OF inv])
    show ?thesis
    proof (cases "fst (pid2tcb pid s)")
      case None
      then have n: "pid2tcb pid s = (None, ?s)" using c by (simp add: prod_eq_iff)
      have "t_pid (l_tab s ! i) \<noteq> pid" if "live s i" for i
        using None fst that by (auto simp: find_tcb_None live_def split: if_splits)
      then have "t_pid (l_tab ?s ! i) \<noteq> l_popen_pid ?s \<and> ends ws (t_pid (l_tab ?s ! i))" if "live ?s i" for i
        using live [of i] that unfolding l by auto
      then have "\<exists>s'. cleanup_wait A opt L (Suc n) ws ?s = Inr s' \<and> tab_inv s' \<and> (\<forall>i. \<not> live s' i)"
        using card by (intro 5(2) [OF np n [symmetric] refl inv' _ err']) (simp_all only: l simp_thms not_False_eq_True)
      then show ?thesis using np n by simp
    next
      case (Some i)
      then have n: "pid2tcb pid s = (Some i, ?s)" using c by (simp add: prod_eq_iff)
      have i: "live s i" "t_pid (l_tab s ! i) = pid"
        using Some fst find_tcb_Some [of pid s i] by (auto simp: live_def split: if_splits)
      obtain g s1 where g: "detach_interrupted_or_stopped opt L i status ?s = (g, s1)" by fastforce
      then obtain k where k: "s1 = set_kst k ?s" using detach_parts_kst(2) [of opt L i status ?s] by auto
      have inv1: "tab_inv s1" using set_kst_shrinks [OF inv', of k] k by (simp add: shrinks_def)
      have l1: "live s1 = live s" "l_tab s1 = l_tab s" "l_popen_pid s1 = l_popen_pid s" using k l by simp_all (simp add: set_kst_def)
      show ?thesis
      proof (cases g)
        case False
        then have "WIFSTOPPED status" using g by (auto simp: detach_interrupted_or_stopped_def Let_def split: if_splits)
        then have "t_pid (l_tab s1 ! j) \<noteq> l_popen_pid s1 \<and> ends ws (t_pid (l_tab s1 ! j))" if "live s1 j" for j
          using live [of j] that unfolding l1 by simp
        then have "\<exists>s'. cleanup_wait A opt L (Suc n) ws s1 = Inr s' \<and> tab_inv s' \<and> (\<forall>i. \<not> live s' i)"
          using card by (intro 5(4) [OF np n [symmetric] refl g [symmetric] False inv1 _ err']) (simp_all only: l1 simp_thms not_False_eq_True)
        then show ?thesis using np n g False by simp
      next
        case True
        let ?d = "droptcb A i s1"
        have il: "i < length (l_tab s1)" using i(1) by (simp add: l1 live_def)
        note d = droptcb_inv [OF inv1 il, where A = A]
        have "{j. live ?d j} = {j. live s j} - {i}" by (auto simp: d(2) l1)
        then have cd: "card {j. live ?d j} = n" using card i(1) by simp
        have "t_pid (l_tab ?d ! j) \<noteq> l_popen_pid ?d \<and> ends ws (t_pid (l_tab ?d ! j))" if "live ?d j" for j
        proof -
          have j: "live s j" "j \<noteq> i" using that by (simp_all add: d(2) l1)
          then have "t_pid (l_tab s ! j) \<noteq> pid" using inv i by (auto simp: tab_inv_def)
          moreover have "l_popen_pid ?d = l_popen_pid s" "l_tab ?d ! j = l_tab s ! j" using j(2) l1 by (simp_all add: droptcb_def)
          ultimately show ?thesis using live [OF j(1)] by simp
        qed
        then have "\<exists>s'. cleanup_wait A opt L n ws ?d = Inr s' \<and> tab_inv s' \<and> (\<forall>i. \<not> live s' i)"
          using cd by (intro 5(3) [OF np n [symmetric] refl g [symmetric] True d(1) _ err'])
        then show ?thesis using np n g True by simp
      qed
    qed
  qed
qed simp_all

section \<open>Properties\<close>

text \<open>C9: Attaching ends, although the table grows while the loop over it attaches the threads of a
  process, and afterwards strace is attached to every process that has a block: a process it could not
  attach to has lost its block. The number of processes is that of the blocks in use.\<close>

theorem startup_attaches_all:
  assumes "count_ok s" "l_interrupted s = 0"
  shows "\<exists>s'. startup_attach A opt L E s = Some (Inr s') \<and> count_ok s' \<and>
    (\<forall>i. live s' i \<longrightarrow> has TCB_ATTACHED (l_tab s' ! i))"
proof -
  have "unattached s \<subseteq> {0..}" by simp
  then obtain s1 where s1: "attach_loop A opt L E 0 s = Some (Inr (False, s1))" "count_ok s1" "unattached s1 = {}"
    using attach_loop_ok [OF assms, of 0 A opt L E] by blast
  have l: "live ((set_kst k s1)\<lparr>l_strace_child := 0\<rparr>) = live s1" for k by (simp add: live_def fun_eq_iff)
  show ?thesis
    using s1 unfolding startup_attach_def
    by (cases "ae_daemonized E") (auto simp: count_ok_def unattached_def l)
qed

text \<open>Attaching to the first process and its second thread succeeds, attaching to the second process fails.\<close>

definition attach_one :: "(nat \<times> nat) list attach_env" where
  "attach_one =
     \<lparr>ae_attach = (\<lambda>pid k. (pid < 1000, k)), ae_seize = (\<lambda>pid k. (pid < 1000, k)), ae_kill = (\<lambda>pid sig k. k @ [(pid, sig)]),
      ae_tasks = (\<lambda>pid. Some [(True, ''.''), (True, ''7''), (True, ''8'')]), ae_parent_pid = 1, ae_tracer_pid = 1,
      ae_daemonized = False\<rparr>"

theorem startup_attaches_all_witness:
  "\<exists>s'. startup_attach small_arch plain_opts (log_env zero_ts) attach_one (two_procs []) = Some (Inr s') \<and>
     (\<forall>i. live s' i \<longrightarrow> has TCB_ATTACHED (l_tab s' ! i))"
proof -
  have "count_ok (two_procs ([] :: (nat \<times> nat) list))" "l_interrupted (two_procs ([] :: (nat \<times> nat) list)) = 0"
    using two_procs_inv [of "[] :: (nat \<times> nat) list"] by (simp_all add: count_ok_def tab_inv_def two_procs_def)
  from startup_attaches_all [OF this, of small_arch plain_opts "log_env zero_ts" attach_one] show ?thesis by blast
qed


definition attached_procs :: "(nat \<times> nat) list loop" where
  "attached_procs = (two_procs [])
     \<lparr>l_tab := map (set_tcb_flag (TCB_ATTACHED OR TCB_IGNORE_ONE_SIGSTOP)) (l_tab (two_procs ([] :: (nat \<times> nat) list)))\<rparr>"


end
