(* ===== verification/Ucopy.thy ===== *)
theory Ucopy
  imports Prelude
begin

text \<open>
  Copying memory from and to a tracee, \<^verbatim>\<open>src/src/ucopy.c\<close>: reading through a cache of four pages, the
  older way of reading and writing one word after the other, and strings that end with a zero. The
  system calls \<^verbatim>\<open>process_vm_readv\<close> and \<^verbatim>\<open>process_vm_writev\<close>, and the requests that peek and poke a
  word, are parameters; a page has \<open>2 ^ pb\<close> bytes.
\<close>

datatype mem_errno = ENOSYS_m | EPERM_m | ESRCH_m | EFAULT_m | EIO_m | EINVAL_m | Other_m

record 'k mem_ops =
  mo_readv :: "u64 \<Rightarrow> nat \<Rightarrow> 'k \<Rightarrow> mem_errno + u8 list"
  mo_writev :: "u64 \<Rightarrow> u8 list \<Rightarrow> 'k \<Rightarrow> (mem_errno + nat) \<times> 'k"
  mo_peek :: "u64 \<Rightarrow> 'k \<Rightarrow> mem_errno + u8 list"
  mo_poke :: "u64 \<Rightarrow> u8 list \<Rightarrow> 'k \<Rightarrow> mem_errno option \<times> 'k"

text \<open>The file-scope variables, the buffers of the pages, and \<^verbatim>\<open>errno\<close>.\<close>

record ucopy =
  readv_not_supported :: bool
  writev_not_supported :: bool
  cached_idx :: int
  cached_raddr :: "u64 list"
  page_buf :: "u8 list list"
  uc_errno :: mem_errno

abbreviation CACHED_PAGES :: nat where "CACHED_PAGES \<equiv> 4"

section \<open>The cache of pages\<close>

definition invalidate_umove_cache :: "ucopy \<Rightarrow> ucopy" where
  "invalidate_umove_cache st = st\<lparr>cached_idx := - 1\<rparr>"

definition get_next_unused_idx :: "ucopy \<Rightarrow> nat" where
  "get_next_unused_idx st = nat ((cached_idx st + 1) mod int CACHED_PAGES)"

definition lookup_cached_raddr_idx :: "u64 \<Rightarrow> ucopy \<Rightarrow> nat option" where
  "lookup_cached_raddr_idx raddr st =
     (if cached_idx st \<ge> 0 then
        let c = nat (cached_idx st)
        in find (\<lambda>i. raddr = cached_raddr st ! i) (rev [0..<c + 1] @ rev [c + 1..<CACHED_PAGES])
      else None)"

definition set_cached_raddr_idx :: "u64 \<Rightarrow> nat \<Rightarrow> ucopy \<Rightarrow> ucopy" where
  "set_cached_raddr_idx raddr idx st =
     (let st = (if cached_idx st < 0 then st\<lparr>cached_raddr := replicate CACHED_PAGES 0\<rparr> else st)
      in st\<lparr>cached_raddr := (cached_raddr st)[idx := raddr], cached_idx := int idx\<rparr>)"

definition process_read_mem :: "'k mem_ops \<Rightarrow> 'k \<Rightarrow> u64 \<Rightarrow> nat \<Rightarrow> ucopy \<Rightarrow> (mem_errno + u8 list) \<times> ucopy" where
  "process_read_mem M k raddr len st =
     (case mo_readv M raddr len k of
        Inl e \<Rightarrow> (Inl e, st\<lparr>uc_errno := e, readv_not_supported := readv_not_supported st \<or> e = ENOSYS_m\<rparr>)
      | Inr bs \<Rightarrow> (Inr (take len bs), st))"

text \<open>One page: from the cache, or read into the buffer after the last one used.\<close>

definition read_page :: "'k mem_ops \<Rightarrow> nat \<Rightarrow> 'k \<Rightarrow> u64 \<Rightarrow> ucopy \<Rightarrow> (mem_errno + nat) \<times> ucopy" where
  "read_page M pb k page_start st =
     (case lookup_cached_raddr_idx page_start st of
        Some idx \<Rightarrow> (Inr idx, st)
      | None \<Rightarrow>
          let idx = get_next_unused_idx st
          in case process_read_mem M k page_start (2 ^ pb) st of
               (Inl e, st) \<Rightarrow> (Inl e, st)
             | (Inr bs, st) \<Rightarrow>
                 (Inr idx, set_cached_raddr_idx page_start idx
                    (st\<lparr>page_buf := (page_buf st)[idx := bs @ drop (length bs) (page_buf st ! idx)]\<rparr>)))"

section \<open>Reading\<close>

definition page_of :: "nat \<Rightarrow> u64 \<Rightarrow> u64" where
  "page_of pb addr = addr AND NOT (mask pb)"

definition page_offset :: "nat \<Rightarrow> u64 \<Rightarrow> nat" where
  "page_offset pb addr = unat (addr AND mask pb)"

lemma page_offset_mod: "page_offset pb addr = unat addr mod 2 ^ pb"
proof -
  have "page_offset pb addr = take_bit pb (unat addr)"
    by (simp add: page_offset_def take_bit_eq_mask [symmetric] unsigned_take_bit_eq)
  then show ?thesis by (simp add: take_bit_eq_mod)
qed

lemma page_offset_less: "page_offset pb addr < 2 ^ pb"
  by (simp add: page_offset_mod)

text \<open>The loop over the pages of a range, with the bytes that have been read.\<close>

function vm_read_pages ::
    "'k mem_ops \<Rightarrow> nat \<Rightarrow> 'k \<Rightarrow> u64 \<Rightarrow> nat \<Rightarrow> u8 list \<Rightarrow> ucopy \<Rightarrow> (mem_errno + u8 list) \<times> ucopy" where
  "vm_read_pages M pb k taddr len total_read st =
     (let page_start = page_of pb taddr; offset = page_offset pb taddr
      in case read_page M pb k page_start st of
           (Inl e, st) \<Rightarrow> (if total_read \<noteq> [] then Inr total_read else Inl e, st)
         | (Inr idx, st) \<Rightarrow>
             if len \<le> 2 ^ pb - offset
             then (Inr (total_read @ take len (drop offset (page_buf st ! idx))), st)
             else vm_read_pages M pb k (page_start + 2 ^ pb) (len - (2 ^ pb - offset))
                    (total_read @ take (2 ^ pb - offset) (drop offset (page_buf st ! idx))) st)"
  by pat_completeness auto
termination
  by (relation "measure (\<lambda>(M, pb, k, taddr, len, total_read, st). len)") (use page_offset_less in auto)

definition vm_read_mem ::
    "'k mem_ops \<Rightarrow> nat \<Rightarrow> 'k \<Rightarrow> u64 \<Rightarrow> nat \<Rightarrow> ucopy \<Rightarrow> (mem_errno + u8 list) \<times> ucopy" where
  "vm_read_mem M pb k taddr len st =
     (if len = 0 then (Inr [], st)
      else let page_start = page_of pb taddr;
               page_after_last = page_of pb (taddr + of_nat len + mask pb)
        in if page_start = 0 \<or> page_after_last < page_start \<or>
              unat (page_after_last - page_start) > CACHED_PAGES * 2 ^ pb
           then process_read_mem M k taddr len st
           else vm_read_pages M pb k taddr len [] st)"

definition tracee_addr_is_invalid :: "nat \<Rightarrow> u64 \<Rightarrow> bool" where
  "tracee_addr_is_invalid wordsize addr \<longleftrightarrow> wordsize < 8 \<and> addr AND NOT 0xffffffff \<noteq> 0"

abbreviation WORD_BYTES :: nat where "WORD_BYTES \<equiv> 8"

lemma residue_less: "unat (addr AND 7 :: u64) < WORD_BYTES"
proof -
  have "addr AND 7 \<le> (7 :: u64)" by (rule word_and_le1)
  then have "unat (addr AND 7) \<le> unat (7 :: u64)" by (simp add: word_le_nat_alt)
  then show ?thesis by simp
qed

text \<open>The result of the function, and the bytes it has stored.\<close>

function umoven_peekdata :: "'k mem_ops \<Rightarrow> 'k \<Rightarrow> u64 \<Rightarrow> nat \<Rightarrow> int \<times> u8 list" where
  "umoven_peekdata M k addr len =
     (if len = 0 then (0, [])
      else let residue = unat (addr AND 7); addr = addr AND NOT 7
        in case mo_peek M addr k of
             Inl e \<Rightarrow> (- 1, [])
           | Inr w \<Rightarrow>
               let m = min (WORD_BYTES - residue) len;
                   (r, bs) = umoven_peekdata M k (addr + 8) (len - m)
               in (r, take m (drop residue w) @ bs))"
  by pat_completeness auto
termination
  by (relation "measure (\<lambda>(M, k, addr, len). len)") (use residue_less in \<open>auto simp: min_def\<close>)

definition umoven ::
    "'k mem_ops \<Rightarrow> nat \<Rightarrow> nat \<Rightarrow> 'k \<Rightarrow> u64 \<Rightarrow> nat \<Rightarrow> ucopy \<Rightarrow> (int \<times> u8 list) \<times> ucopy" where
  "umoven M pb wordsize k addr len st =
     (if tracee_addr_is_invalid wordsize addr then ((- 1, []), st)
      else if readv_not_supported st then (umoven_peekdata M k addr len, st)
      else let (rc, st) = vm_read_mem M pb k addr len st;
               bs = (case rc of Inr bs \<Rightarrow> bs | Inl e \<Rightarrow> []);
               r = (case rc of Inr bs \<Rightarrow> length bs mod 2 ^ 32 | Inl e \<Rightarrow> 2 ^ 32 - 1)
        in if r = len then ((0, bs), st)
           else if r < 2 ^ 31 then ((- 1, bs), st)
           else if uc_errno st \<in> {ENOSYS_m, EPERM_m} then (umoven_peekdata M k addr len, st)
           else ((- 1, bs), st))"

section \<open>Reading strings\<close>

function umovestr_peekdata :: "'k mem_ops \<Rightarrow> 'k \<Rightarrow> u64 \<Rightarrow> nat \<Rightarrow> nat \<Rightarrow> int \<times> u8 list" where
  "umovestr_peekdata M k addr len nread =
     (if len = 0 then (0, [])
      else let residue = unat (addr AND 7); addr = addr AND NOT 7
        in case mo_peek M addr k of
             Inl e \<Rightarrow> (- 1, [])
           | Inr w \<Rightarrow>
               let m = min (WORD_BYTES - residue) len; bs = take m (drop residue w)
               in case find (\<lambda>j. w ! j = 0) [residue..<WORD_BYTES] of
                    Some j \<Rightarrow> (int (nread + (j + 1)), bs)
                  | None \<Rightarrow>
                      let (r, bs') = umovestr_peekdata M k (addr + 8) (len - m) (nread + m) in (r, bs @ bs'))"
  by pat_completeness auto
termination
  by (relation "measure (\<lambda>(M, k, addr, len, nread). len)") (use residue_less in \<open>auto simp: min_def\<close>)

text \<open>The part of the rest of the string that lies in the page of its first byte.\<close>

definition umovestr_chunk :: "nat \<Rightarrow> u64 \<Rightarrow> nat \<Rightarrow> nat" where
  "umovestr_chunk pb addr len =
     (let chunk_len = min len (2 ^ pb); end_in_page = page_offset pb (addr + of_nat chunk_len)
      in if chunk_len > end_in_page then chunk_len - end_in_page else chunk_len)"

function umovestr_loop ::
    "'k mem_ops \<Rightarrow> nat \<Rightarrow> 'k \<Rightarrow> u64 \<Rightarrow> nat \<Rightarrow> nat \<Rightarrow> ucopy \<Rightarrow> (int \<times> u8 list) \<times> ucopy" where
  "umovestr_loop M pb k addr len nread st =
     (if len = 0 then ((0, []), st)
      else let (r, st) = vm_read_mem M pb k addr (umovestr_chunk pb addr len) st
        in case r of
             Inr (b # bs) \<Rightarrow>
               (case find (\<lambda>j. (b # bs) ! j = 0) [0..<length (b # bs)] of
                  Some j \<Rightarrow> ((int (nread + j + 1), b # bs), st)
                | None \<Rightarrow>
                    let ((ret, bs'), st) =
                      umovestr_loop M pb k (addr + of_nat (length (b # bs))) (len - length (b # bs))
                        (nread + length (b # bs)) st
                    in ((ret, (b # bs) @ bs'), st))
           | _ \<Rightarrow>
               if uc_errno st \<in> {ENOSYS_m, EPERM_m} \<and> nread = 0
               then (umovestr_peekdata M k addr len 0, st)
               else ((- 1, []), st))"
  by pat_completeness auto
termination
  by (relation "measure (\<lambda>(M, pb, k, addr, len, nread, st). len)") auto

definition umovestr ::
    "'k mem_ops \<Rightarrow> nat \<Rightarrow> nat \<Rightarrow> 'k \<Rightarrow> u64 \<Rightarrow> nat \<Rightarrow> ucopy \<Rightarrow> (int \<times> u8 list) \<times> ucopy" where
  "umovestr M pb wordsize k addr len st =
     (if tracee_addr_is_invalid wordsize addr then ((- 1, []), st)
      else if readv_not_supported st then (umovestr_peekdata M k addr len 0, st)
      else umovestr_loop M pb k addr len 0 st)"

section \<open>Writing\<close>

definition vm_write_mem :: "'k mem_ops \<Rightarrow> u64 \<Rightarrow> u8 list \<Rightarrow> ucopy \<Rightarrow> 'k \<Rightarrow> (mem_errno + nat) \<times> ucopy \<times> 'k" where
  "vm_write_mem M raddr bs st k =
     (case mo_writev M raddr bs k of
        (Inl e, k) \<Rightarrow> (Inl e, st\<lparr>writev_not_supported := writev_not_supported st \<or> e = ENOSYS_m\<rparr>, k)
      | (Inr n, k) \<Rightarrow> (Inr n, st, k))"

definition upoken_peekpoke :: "'k mem_ops \<Rightarrow> u64 \<Rightarrow> u8 list \<Rightarrow> nat \<Rightarrow> 'k \<Rightarrow> bool \<times> 'k" where
  "upoken_peekpoke M addr bs offset k =
     (case mo_peek M addr k of
        Inl e \<Rightarrow> (False, k)
      | Inr w \<Rightarrow>
          case mo_poke M addr (take offset w @ bs @ drop (offset + length bs) w) k of (e, k) \<Rightarrow> (e = None, k))"

text \<open>The whole words, and the bytes after the last of them.\<close>

function upoken_words :: "'k mem_ops \<Rightarrow> u64 \<Rightarrow> u8 list \<Rightarrow> nat \<Rightarrow> 'k \<Rightarrow> nat \<times> 'k" where
  "upoken_words M addr bs nwritten k =
     (if length bs \<ge> WORD_BYTES then
        case mo_poke M addr (take WORD_BYTES bs) k of
          (None, k) \<Rightarrow> upoken_words M (addr + 8) (drop WORD_BYTES bs) (nwritten + WORD_BYTES) k
        | (Some e, k) \<Rightarrow> (nwritten, k)
      else if bs \<noteq> [] then
        case upoken_peekpoke M addr bs 0 k of (ok, k) \<Rightarrow> (if ok then nwritten + length bs else nwritten, k)
      else (nwritten, k))"
  by pat_completeness auto
termination
  by (relation "measure (\<lambda>(M, addr, bs, nwritten, k). length bs)") auto

definition upoken_pokedata :: "'k mem_ops \<Rightarrow> u64 \<Rightarrow> u8 list \<Rightarrow> 'k \<Rightarrow> nat \<times> 'k" where
  "upoken_pokedata M addr bs k =
     (if bs \<noteq> [] \<and> addr AND 7 \<noteq> 0 then
        let residue = unat (addr AND 7); npoke = min (WORD_BYTES - residue) (length bs); addr = addr AND NOT 7
        in case upoken_peekpoke M addr (take npoke bs) residue k of
             (False, k) \<Rightarrow> (0, k)
           | (True, k) \<Rightarrow> upoken_words M (addr + 8) (drop npoke bs) npoke k
      else upoken_words M addr bs 0 k)"

definition upoken :: "'k mem_ops \<Rightarrow> nat \<Rightarrow> u64 \<Rightarrow> u8 list \<Rightarrow> ucopy \<Rightarrow> 'k \<Rightarrow> nat \<times> ucopy \<times> 'k" where
  "upoken M wordsize addr bs st k =
     (if tracee_addr_is_invalid wordsize addr then (0, st, k)
      else if writev_not_supported st then (case upoken_pokedata M addr bs k of (n, k) \<Rightarrow> (n, st, k))
      else case vm_write_mem M addr bs st k of
             (Inr r, st, k) \<Rightarrow> (if r mod 2 ^ 32 = length bs then length bs else r mod 2 ^ 32, st, k)
           | (Inl e, st, k) \<Rightarrow>
               if length bs = 2 ^ 32 - 1 then (length bs, st, k)
               else if e \<in> {ENOSYS_m, EPERM_m, EFAULT_m, EIO_m}
               then (case upoken_pokedata M addr bs k of (n, k) \<Rightarrow> (n, st, k))
               else (0, st, k))"

declare vm_read_pages.simps [simp del] umoven_peekdata.simps [simp del] umovestr_peekdata.simps [simp del]
  umovestr_loop.simps [simp del] upoken_words.simps [simp del]

section \<open>The memory of a tracee\<close>

text \<open>
  What the system call does, for a memory \<open>mem\<close> with no value at an address that is not mapped: it
  reads the whole range or nothing, and a page is mapped as a whole.
\<close>

definition bytes :: "(u64 \<Rightarrow> u8 option) \<Rightarrow> u64 \<Rightarrow> nat \<Rightarrow> u8 list" where
  "bytes mem a n = map (\<lambda>i. the (mem (a + of_nat i))) [0..<n]"

definition mapped :: "(u64 \<Rightarrow> u8 option) \<Rightarrow> u64 \<Rightarrow> nat \<Rightarrow> bool" where
  "mapped mem a n \<longleftrightarrow> (\<forall>i < n. mem (a + of_nat i) \<noteq> None)"

definition mem_laws :: "nat \<Rightarrow> 'k mem_ops \<Rightarrow> 'k \<Rightarrow> (u64 \<Rightarrow> u8 option) \<Rightarrow> bool" where
  "mem_laws pb M k mem \<longleftrightarrow>
     (\<forall>a n. n > 0 \<longrightarrow> mo_readv M a n k = (if mapped mem a n then Inr (bytes mem a n) else Inl EFAULT_m)) \<and>
     (\<forall>a. mem a = None \<longleftrightarrow> mem (page_of pb a) = None)"

text \<open>The pages in the cache are those of the memory.\<close>

definition coherent :: "nat \<Rightarrow> (u64 \<Rightarrow> u8 option) \<Rightarrow> ucopy \<Rightarrow> bool" where
  "coherent pb mem st \<longleftrightarrow>
     length (cached_raddr st) = CACHED_PAGES \<and> length (page_buf st) = CACHED_PAGES \<and>
     (\<forall>i < CACHED_PAGES. length (page_buf st ! i) = 2 ^ pb) \<and> - 1 \<le> cached_idx st \<and> cached_idx st < int CACHED_PAGES \<and>
     (cached_idx st \<ge> 0 \<longrightarrow> (\<forall>i < CACHED_PAGES. cached_raddr st ! i \<noteq> 0 \<longrightarrow>
        mapped mem (cached_raddr st ! i) (2 ^ pb) \<and> page_buf st ! i = bytes mem (cached_raddr st ! i) (2 ^ pb)))"

lemma length_bytes [simp]: "length (bytes mem a n) = n"
  by (simp add: bytes_def)

lemma bytes_add: "bytes mem a (m + n) = bytes mem a m @ bytes mem (a + of_nat m) n"
  by (rule nth_equalityI) (auto simp: bytes_def nth_append ac_simps)

lemma bytes_part: "m + n \<le> N \<Longrightarrow> take n (drop m (bytes mem a N)) = bytes mem (a + of_nat m) n"
  by (rule nth_equalityI) (auto simp: bytes_def ac_simps)

lemma mapped_part: "mapped mem a N \<Longrightarrow> m + n \<le> N \<Longrightarrow> mapped mem (a + of_nat m) n"
  by (auto simp: mapped_def ac_simps) (metis add.commute less_le_trans nat_add_left_cancel_less of_nat_add)

lemma mapped_add: "mapped mem a (m + n) \<longleftrightarrow> mapped mem a m \<and> mapped mem (a + of_nat m) n"
proof
  assume "mapped mem a (m + n)"
  then show "mapped mem a m \<and> mapped mem (a + of_nat m) n"
    using mapped_part [of mem a "m + n" 0 m] mapped_part [of mem a "m + n" m n] by simp
next
  assume l: "mapped mem a m \<and> mapped mem (a + of_nat m) n"
  show "mapped mem a (m + n)"
    unfolding mapped_def
  proof (intro allI impI)
    fix i assume i: "i < m + n"
    show "mem (a + of_nat i) \<noteq> None"
    proof (cases "i < m")
      case False
      then have "a + of_nat m + of_nat (i - m) = a + of_nat i" by (simp add: add.assoc of_nat_add [symmetric])
      then show ?thesis using l i False unfolding mapped_def by (metis add.commute less_diff_conv2 not_less)
    qed (use l in \<open>simp add: mapped_def\<close>)
  qed
qed

lemma page_split: "page_of pb a + of_nat (page_offset pb a) = a"
proof -
  have "(a AND NOT (mask pb)) + (a AND mask pb) = (a AND NOT (mask pb)) OR (a AND mask pb)"
    by (rule disjunctive_add) (simp add: bit_simps)
  also have "\<dots> = a" by (rule bit_word_eqI) (auto simp: bit_simps)
  finally show ?thesis by (simp add: page_of_def page_offset_def)
qed

lemma page_of_page [simp]: "page_of pb (page_of pb a) = page_of pb a"
  by (simp add: page_of_def and.assoc)

lemma page_offset_page [simp]: "page_offset pb (page_of pb a) = 0"
  by (simp add: page_of_def page_offset_def and.assoc)

lemma page_add:
  assumes "i < 2 ^ pb"
  shows "page_of pb (page_of pb a + of_nat i) = page_of pb a"
    "page_offset pb (page_of pb a + of_nat i) = unat (of_nat i :: u64)"
proof -
  let ?w = "of_nat i :: u64"
  have w: "?w AND mask pb = ?w"
    using assms by (simp add: take_bit_eq_mask [symmetric] take_bit_of_nat take_bit_nat_eq_self)
  have n: "?w AND NOT (mask pb) = 0" by (subst w [symmetric]) (simp add: and.assoc)
  have d: "page_of pb a AND ?w = 0"
    using n by (simp add: page_of_def and.assoc and.commute [of "NOT (mask pb)"])
  have "page_of pb a + ?w = page_of pb a OR ?w"
    using d by (simp add: disjunctive_add_eq_or)
  then show "page_of pb (page_of pb a + ?w) = page_of pb a" "page_offset pb (page_of pb a + ?w) = unat ?w"
    using w n by (simp_all add: page_of_def page_offset_def bit.conj_disj_distrib2 and.assoc)
qed

lemma page_mapped:
  assumes "mem_laws pb M k mem" "page_offset pb a + n \<le> 2 ^ pb" "n > 0"
  shows "mapped mem a n \<longleftrightarrow> mem a \<noteq> None"
proof
  assume "mapped mem a n"
  from this [unfolded mapped_def, rule_format, of 0] show "mem a \<noteq> None" using assms(3) by simp
next
  assume m: "mem a \<noteq> None"
  have law: "mem b = None \<longleftrightarrow> mem (page_of pb b) = None" for b using assms(1) by (simp add: mem_laws_def)
  show "mapped mem a n"
    unfolding mapped_def
  proof (intro allI impI)
    fix i assume "i < n"
    then have "page_of pb (page_of pb a + of_nat (page_offset pb a + i)) = page_of pb a"
      using assms(2) by (intro page_add(1)) simp
    moreover have "page_of pb a + of_nat (page_offset pb a + i) = a + of_nat i"
      by (simp add: add.assoc [symmetric] page_split)
    ultimately have "page_of pb (a + of_nat i) = page_of pb a" by (simp only:)
    then show "mem (a + of_nat i) \<noteq> None" using law [of a] law [of "a + of_nat i"] m by simp
  qed
qed

lemma lookup_cached:
  assumes "coherent pb mem st" "lookup_cached_raddr_idx p st = Some i"
  shows "i < CACHED_PAGES" "cached_raddr st ! i = p" "cached_idx st \<ge> 0"
proof -
  show c: "cached_idx st \<ge> 0" using assms(2) by (simp add: lookup_cached_raddr_idx_def split: if_splits)
  let ?l = "rev [0..<nat (cached_idx st) + 1] @ rev [nat (cached_idx st) + 1..<CACHED_PAGES]"
  have "find (\<lambda>i. p = cached_raddr st ! i) ?l = Some i"
    using assms(2) c by (simp add: lookup_cached_raddr_idx_def Let_def del: upt_Suc)
  then obtain j where j: "j < length ?l" "i = ?l ! j" "p = cached_raddr st ! i" unfolding find_Some_iff by blast
  have "i \<in> set ?l" unfolding j(2) by (rule nth_mem [OF j(1)])
  then show "i < CACHED_PAGES" using assms(1) c by (auto simp: coherent_def simp del: upt_Suc)
  show "cached_raddr st ! i = p" using j(3) by simp
qed

lemma get_next_unused: "coherent pb mem st \<Longrightarrow> get_next_unused_idx st < CACHED_PAGES"
  by (simp add: get_next_unused_idx_def nat_less_iff)

text \<open>A page that is mapped is found in its buffer afterwards, and the cache stays coherent.\<close>

lemma cache_page:
  assumes "coherent pb mem st" "mapped mem p (2 ^ pb)" "idx < CACHED_PAGES"
  shows "coherent pb mem (set_cached_raddr_idx p idx (st\<lparr>page_buf := (page_buf st)[idx := bytes mem p (2 ^ pb)]\<rparr>))"
  using assms unfolding coherent_def set_cached_raddr_idx_def Let_def
  by (cases "cached_idx st < 0") (auto simp: nth_list_update)

lemma read_page_coherent:
  assumes "coherent pb mem st" "mem_laws pb M k mem" "page_of pb p = p" "p \<noteq> 0" "read_page M pb k p st = (r, st')"
  shows "coherent pb mem st' \<and> readv_not_supported st' = readv_not_supported st \<and>
    (if mem p = None then r = Inl EFAULT_m \<and> uc_errno st' = EFAULT_m
     else \<exists>idx. r = Inr idx \<and> page_buf st' ! idx = bytes mem p (2 ^ pb))"
proof -
  have "page_offset pb p = 0" using assms(3) page_offset_page [of pb p] by simp
  then have m: "mapped mem p (2 ^ pb) \<longleftrightarrow> mem p \<noteq> None" by (intro page_mapped [OF assms(2)]) simp_all
  show ?thesis
  proof (cases "lookup_cached_raddr_idx p st")
    case (Some i)
    note l = lookup_cached [OF assms(1) Some]
    have "mapped mem p (2 ^ pb)" "page_buf st ! i = bytes mem p (2 ^ pb)"
      using assms(1,4) l by (auto simp: coherent_def)
    then show ?thesis using assms(1,5) Some m by (auto simp: read_page_def)
  next
    case None
    let ?i = "get_next_unused_idx st"
    have i: "?i < CACHED_PAGES" by (rule get_next_unused [OF assms(1)])
    have read: "mo_readv M p (2 ^ pb) k = (if mem p \<noteq> None then Inr (bytes mem p (2 ^ pb)) else Inl EFAULT_m)"
      using assms(2) m by (simp add: mem_laws_def)
    show ?thesis
    proof (cases "mem p = None")
      case True
      then have "r = Inl EFAULT_m" "st' = st\<lparr>uc_errno := EFAULT_m\<rparr>"
        using assms(5) None read by (auto simp: read_page_def process_read_mem_def Let_def)
      then show ?thesis using assms(1) True by (simp add: coherent_def)
    next
      case False
      have "length (page_buf st ! ?i) = 2 ^ pb" using assms(1) i by (simp add: coherent_def)
      then have r: "r = Inr ?i"
        "st' = set_cached_raddr_idx p ?i (st\<lparr>page_buf := (page_buf st)[?i := bytes mem p (2 ^ pb)]\<rparr>)"
        using assms(5) None read False by (simp_all add: read_page_def process_read_mem_def Let_def)
      have "page_buf st' ! ?i = bytes mem p (2 ^ pb)" "readv_not_supported st' = readv_not_supported st"
        using assms(1) i by (simp_all add: r(2) set_cached_raddr_idx_def Let_def coherent_def)
      moreover have "coherent pb mem st'" unfolding r(2) using cache_page [OF assms(1) _ i] m False by simp
      ultimately show ?thesis using False r(1) by simp
    qed
  qed
qed

text \<open>A range inside one page.\<close>

lemma vm_read_mem_page:
  assumes "coherent pb mem st" "mem_laws pb M k mem" "page_offset pb a + n \<le> 2 ^ pb" "n > 0"
    and "vm_read_mem M pb k a n st = (r, st')"
  shows "coherent pb mem st' \<and> readv_not_supported st' = readv_not_supported st \<and>
    (if mem a = None then r = Inl EFAULT_m \<and> uc_errno st' = EFAULT_m else r = Inr (bytes mem a n))"
proof -
  let ?p = "page_of pb a"
  note m = page_mapped [OF assms(2-4)]
  have mp: "mem a = None \<longleftrightarrow> mem ?p = None" using assms(2) by (simp add: mem_laws_def)
  consider "(r, st') = process_read_mem M k a n st" | "?p \<noteq> 0" "(r, st') = vm_read_pages M pb k a n [] st"
    using assms(4,5) by (auto simp: vm_read_mem_def Let_def split: if_splits)
  then show ?thesis
  proof cases
    case 1
    have "mo_readv M a n k = (if mem a \<noteq> None then Inr (bytes mem a n) else Inl EFAULT_m)"
      using assms(2,4) m by (simp add: mem_laws_def)
    then show ?thesis using 1 assms(1) by (auto simp: process_read_mem_def coherent_def split: if_splits)
  next
    case 2
    obtain q st1 where q: "read_page M pb k ?p st = (q, st1)" by fastforce
    note c = read_page_coherent [OF assms(1,2) page_of_page 2(1) q]
    have le: "n \<le> 2 ^ pb - page_offset pb a" using assms(3) by simp
    show ?thesis
    proof (cases "mem a = None")
      case True
      then show ?thesis using 2(2) q c mp by (subst (asm) vm_read_pages.simps) auto
    next
      case False
      then obtain i where i: "q = Inr i" "page_buf st1 ! i = bytes mem ?p (2 ^ pb)" using c mp by auto
      have "take n (drop (page_offset pb a) (bytes mem ?p (2 ^ pb))) = bytes mem a n"
        using assms(3) by (simp add: bytes_part page_split)
      then show ?thesis using 2(2) q c i False le by (subst (asm) vm_read_pages.simps) auto
    qed
  qed
qed

text \<open>What reading a string returns: the number of bytes up to the first zero, if this comes before an
  address that is not mapped, and 0 if there is none.\<close>

fun string_spec :: "(u64 \<Rightarrow> u8 option) \<Rightarrow> u64 \<Rightarrow> nat \<Rightarrow> int" where
  "string_spec mem a 0 = 0"
| "string_spec mem a (Suc n) =
     (case mem a of
        None \<Rightarrow> - 1
      | Some b \<Rightarrow> if b = 0 then 1 else let r = string_spec mem (a + 1) n in if r > 0 then r + 1 else r)"

lemma string_spec_skip:
  assumes "\<And>i. i < c \<Longrightarrow> \<exists>b. mem (a + of_nat i) = Some b \<and> b \<noteq> 0" "c \<le> len"
  shows "string_spec mem a len = (let r = string_spec mem (a + of_nat c) (len - c) in if r > 0 then r + int c else r)"
  using assms
proof (induction c arbitrary: a len)
  case (Suc c)
  obtain n where n: "len = Suc n" "c \<le> n" using Suc.prems(2) by (cases len) auto
  obtain b where b: "mem a = Some b" "b \<noteq> 0" using Suc.prems(1) [of 0] by auto
  have "\<exists>b. mem (a + 1 + of_nat i) = Some b \<and> b \<noteq> 0" if "i < c" for i
    using Suc.prems(1) [of "Suc i"] that by (simp add: add.assoc)
  from Suc.IH [OF this n(2)] show ?case by (simp add: n(1) b Let_def add.assoc)
qed (simp add: Let_def)

lemma string_spec_zero:
  assumes "\<And>i. i < j \<Longrightarrow> \<exists>b. mem (a + of_nat i) = Some b \<and> b \<noteq> 0" "mem (a + of_nat j) = Some 0" "j < len"
  shows "string_spec mem a len = int j + 1"
proof -
  have "string_spec mem a len = (let r = string_spec mem (a + of_nat j) (len - j) in if r > 0 then r + int j else r)"
    by (rule string_spec_skip) (use assms(1,3) in simp_all)
  then show ?thesis using assms(2,3) by (cases "len - j") (auto simp: Let_def)
qed

lemma page_offset_add:
  assumes "pb < 32" shows "page_offset pb (a + of_nat n) = (page_offset pb a + n) mod 2 ^ pb"
proof -
  have d: "(2 :: nat) ^ pb dvd 2 ^ 64" by (rule le_imp_power_dvd) (use assms in simp)
  have "unat (a + of_nat n) = (unat a + n) mod 2 ^ 64"
    by (simp add: unat_word_ariths unat_of_nat mod_simps)
  then show ?thesis using d by (simp add: page_offset_mod mod_mod_cancel mod_simps)
qed

lemma umovestr_chunk:
  assumes "0 < len" "pb < 32"
  shows "0 < umovestr_chunk pb a len" "umovestr_chunk pb a len \<le> len" "page_offset pb a + umovestr_chunk pb a len \<le> 2 ^ pb"
proof -
  define off c where "off = page_offset pb a" and "c = min len (2 ^ pb)"
  have o: "off < 2 ^ pb" by (simp add: off_def page_offset_less)
  have c: "0 < c" "c \<le> len" "c \<le> 2 ^ pb" using assms(1) by (simp_all add: c_def)
  have e: "umovestr_chunk pb a len = (if c > (off + c) mod 2 ^ pb then c - (off + c) mod 2 ^ pb else c)"
    by (simp add: umovestr_chunk_def Let_def off_def c_def page_offset_add [OF assms(2)])
  have "0 < umovestr_chunk pb a len \<and> umovestr_chunk pb a len \<le> len \<and> off + umovestr_chunk pb a len \<le> 2 ^ pb"
  proof (cases "off + c < 2 ^ pb")
    case True
    then show ?thesis using c by (simp add: e)
  next
    case False
    then have "(off + c) mod 2 ^ pb = off + c - 2 ^ pb" using o c(3) by (subst mod_if) (simp add: mod_if)
    then show ?thesis using o c False by (auto simp: e)
  qed
  then show "0 < umovestr_chunk pb a len" "umovestr_chunk pb a len \<le> len" "page_offset pb a + umovestr_chunk pb a len \<le> 2 ^ pb"
    by (simp_all add: off_def)
qed

lemma umovestr_loop_chunk:
  assumes "len \<noteq> 0" "vm_read_mem M pb k a (umovestr_chunk pb a len) st = (Inr xs, st1)" "xs \<noteq> []"
  shows "find (\<lambda>j. xs ! j = 0) [0..<length xs] = Some j \<Longrightarrow>
      umovestr_loop M pb k a len nread st = ((int (nread + j + 1), xs), st1)"
    "find (\<lambda>j. xs ! j = 0) [0..<length xs] = None \<Longrightarrow>
      umovestr_loop M pb k (a + of_nat (length xs)) (len - length xs) (nread + length xs) st1 = ((ret, bs), st2) \<Longrightarrow>
      umovestr_loop M pb k a len nread st = ((ret, xs @ bs), st2)"
proof -
  obtain b bs1 where xs: "xs = b # bs1" using assms(3) by (cases xs) auto
  show "find (\<lambda>j. xs ! j = 0) [0..<length xs] = Some j \<Longrightarrow>
      umovestr_loop M pb k a len nread st = ((int (nread + j + 1), xs), st1)"
    using assms(1,2) unfolding xs
    by (subst umovestr_loop.simps) (simp only: if_False simp_thms Let_def prod.case sum.case list.case option.case)
  show "find (\<lambda>j. xs ! j = 0) [0..<length xs] = None \<Longrightarrow>
      umovestr_loop M pb k (a + of_nat (length xs)) (len - length xs) (nread + length xs) st1 = ((ret, bs), st2) \<Longrightarrow>
      umovestr_loop M pb k a len nread st = ((ret, xs @ bs), st2)"
    using assms(1,2) unfolding xs
    by (subst umovestr_loop.simps) (simp only: if_False simp_thms Let_def prod.case sum.case list.case option.case)
qed

lemma umovestr_loop_fault:
  assumes "len \<noteq> 0" "vm_read_mem M pb k a (umovestr_chunk pb a len) st = (Inl EFAULT_m, st1)" "uc_errno st1 = EFAULT_m"
  shows "umovestr_loop M pb k a len nread st = ((- 1, []), st1)"
  using assms by (subst umovestr_loop.simps) simp

lemma umovestr_loop_spec:
  assumes "coherent pb mem st" "mem_laws pb M k mem" "pb < 32" "umovestr_loop M pb k a len nread st = ((ret, bs), st')"
  shows "coherent pb mem st' \<and> ret = (let r = string_spec mem a len in if r > 0 then r + int nread else r) \<and>
    (ret \<ge> 0 \<longrightarrow> (\<exists>n. bs = bytes mem a n \<and> n \<le> len \<and> mapped mem a n \<and> (ret = 0 \<longrightarrow> n = len) \<and> ret \<le> int (nread + n)))"
  using assms
proof (induction len arbitrary: a nread st ret bs rule: less_induct)
  case (less len)
  note 1 = less.IH less.prems
  show ?case
  proof (cases "len = 0")
    case True
    then show ?thesis using 1(2,5) by (auto simp: mapped_def bytes_def umovestr_loop.simps)
  next
    case False
    let ?c = "umovestr_chunk pb a len"
    have c: "0 < ?c" "?c \<le> len" "page_offset pb a + ?c \<le> 2 ^ pb" using umovestr_chunk [of len pb a] False 1(4) by simp_all
    obtain r st1 where r: "vm_read_mem M pb k a ?c st = (r, st1)" by fastforce
    note v = vm_read_mem_page [OF 1(2,3) c(3,1) r]
    show ?thesis
    proof (cases "mem a")
      case None
      then have "string_spec mem a len = - 1" using False by (cases len) simp_all
      moreover have "umovestr_loop M pb k a len nread st = ((- 1, []), st1)"
        by (rule umovestr_loop_fault) (use False r v None in simp_all)
      ultimately show ?thesis using 1(5) v by simp
    next
      case (Some b0)
      then have rb: "r = Inr (bytes mem a ?c)" and m: "mapped mem a ?c"
        using v page_mapped [OF 1(3) c(3,1)] by simp_all
      let ?xs = "bytes mem a ?c"
      have ne: "?xs \<noteq> []" using c(1) by (simp add: bytes_def)
      have nth: "?xs ! i = the (mem (a + of_nat i))" "mem (a + of_nat i) \<noteq> None" if "i < ?c" for i
        using that m by (simp_all add: bytes_def mapped_def)
      note chunk = umovestr_loop_chunk [OF False r [unfolded rb] ne, unfolded length_bytes]
      show ?thesis
      proof (cases "find (\<lambda>j. ?xs ! j = 0) [0..<?c]")
        case (Some j)
        then have j: "j < ?c" "?xs ! j = 0" "\<And>i. i < j \<Longrightarrow> ?xs ! i \<noteq> 0" unfolding find_upt_Some by auto
        have "string_spec mem a len = int j + 1"
        proof (rule string_spec_zero)
          show "mem (a + of_nat j) = Some 0" using nth [OF j(1)] j(2) by (cases "mem (a + of_nat j)") simp_all
          show "\<exists>x. mem (a + of_nat i) = Some x \<and> x \<noteq> 0" if "i < j" for i
            using nth [of i] j(1) j(3) [OF that] that by (cases "mem (a + of_nat i)") simp_all
        qed (use j(1) c(2) in simp)
        moreover have "ret = int (nread + j + 1)" "bs = ?xs" "st' = st1" using 1(5) chunk(1) [OF Some] by simp_all
        ultimately show ?thesis using v m c(2) j(1) by auto
      next
        case None
        then have j: "?xs ! i \<noteq> 0" if "i < ?c" for i using that unfolding find_upt_None by auto
        obtain ret2 bs2 st2 where rec: "umovestr_loop M pb k (a + of_nat ?c) (len - ?c) (nread + ?c) st1 = ((ret2, bs2), st2)"
          by (metis prod.exhaust)
        then have res: "ret = ret2" "bs = ?xs @ bs2" "st' = st2" using 1(5) chunk(2) [OF None rec] by simp_all
        have sp: "string_spec mem a len = (let r = string_spec mem (a + of_nat ?c) (len - ?c) in if r > 0 then r + int ?c else r)"
        proof (rule string_spec_skip)
          show "\<exists>x. mem (a + of_nat i) = Some x \<and> x \<noteq> 0" if "i < ?c" for i
            using nth [OF that] j [OF that] by (cases "mem (a + of_nat i)") simp_all
        qed (rule c(2))
        have "len - ?c < len" "coherent pb mem st1" using c(1) False v by simp_all
        note ih = 1(1) [OF this 1(3,4) rec [folded res(3)]]
        have "ret = (let r = string_spec mem a len in if r > 0 then r + int nread else r)"
          using ih unfolding sp res(1) by (auto simp: Let_def)
        moreover have "\<exists>n. bs = bytes mem a n \<and> n \<le> len \<and> mapped mem a n \<and> (ret = 0 \<longrightarrow> n = len) \<and> ret \<le> int (nread + n)" if "ret \<ge> 0"
        proof -
          obtain n where n: "bs2 = bytes mem (a + of_nat ?c) n" "n \<le> len - ?c" "mapped mem (a + of_nat ?c) n"
            "ret = 0 \<longrightarrow> n = len - ?c" "ret \<le> int (nread + ?c + n)" using ih \<open>ret \<ge> 0\<close> unfolding res(1) by blast
          have "bs = bytes mem a (?c + n)" unfolding res(2) n(1) by (rule bytes_add [symmetric])
          moreover have "mapped mem a (?c + n)" using m n(3) by (simp add: mapped_add)
          ultimately show ?thesis using n(2,4,5) c(2) by (intro exI [of _ "?c + n"]) auto
        qed
        ultimately show ?thesis using ih by blast
      qed
    qed
  qed
qed

lemma umovestr_spec:
  assumes "coherent pb mem st" "mem_laws pb M k mem" "pb < 32" "\<not> readv_not_supported st"
    and "umovestr M pb wordsize k a len st = ((r, bs), st')"
  shows "coherent pb mem st' \<and> r = (if tracee_addr_is_invalid wordsize a then - 1 else string_spec mem a len) \<and>
    (r \<ge> 0 \<longrightarrow> (\<exists>n \<le> len. bs = bytes mem a n \<and> mapped mem a n \<and> r \<le> int n \<and> (r = 0 \<longrightarrow> n = len)))"
proof (cases "tracee_addr_is_invalid wordsize a")
  case True
  then show ?thesis using assms(1,5) by (simp add: umovestr_def)
next
  case False
  then have "umovestr_loop M pb k a len 0 st = ((r, bs), st')" using assms(4,5) by (simp add: umovestr_def)
  from umovestr_loop_spec [OF assms(1-3) this] show ?thesis using False by (auto simp: Let_def)
qed

text \<open>A kernel with these answers does not make the tracer give up \<^verbatim>\<open>process_vm_readv\<close>.\<close>

lemma process_read_mem_kept:
  "mem_laws pb M k mem \<Longrightarrow> 0 < len \<Longrightarrow> readv_not_supported (snd (process_read_mem M k a len st)) = readv_not_supported st"
  by (simp add: process_read_mem_def mem_laws_def)

lemma read_page_kept:
  "mem_laws pb M k mem \<Longrightarrow> readv_not_supported (snd (read_page M pb k a st)) = readv_not_supported st"
  using process_read_mem_kept [of pb M k mem "2 ^ pb" a st]
  by (auto simp: read_page_def set_cached_raddr_idx_def Let_def split: option.splits prod.splits sum.splits)

lemma vm_read_pages_kept:
  "mem_laws pb M k mem \<Longrightarrow> readv_not_supported (snd (vm_read_pages M pb k a len bs st)) = readv_not_supported st"
proof (induction M pb k a len bs st rule: vm_read_pages.induct)
  case (1 M pb k a len bs st)
  obtain r st1 where r: "read_page M pb k (page_of pb a) st = (r, st1)" by fastforce
  then have "readv_not_supported st1 = readv_not_supported st" using read_page_kept [OF 1(2), of "page_of pb a" st] by simp
  then show ?case using 1 r by (subst vm_read_pages.simps) (auto simp: Let_def split: sum.splits)
qed

lemma vm_read_mem_kept:
  "mem_laws pb M k mem \<Longrightarrow> readv_not_supported (snd (vm_read_mem M pb k a len st)) = readv_not_supported st"
  using vm_read_pages_kept [of pb M k mem a len "[]" st] process_read_mem_kept [of pb M k mem len a st]
  by (auto simp: vm_read_mem_def Let_def)

lemma umovestr_loop_kept:
  "mem_laws pb M k mem \<Longrightarrow> readv_not_supported (snd (umovestr_loop M pb k a len nread st)) = readv_not_supported st"
proof (induction len arbitrary: a nread st rule: less_induct)
  case (less len)
  obtain r st1 where r: "vm_read_mem M pb k a (umovestr_chunk pb a len) st = (r, st1)" by fastforce
  then have k: "readv_not_supported st1 = readv_not_supported st" using vm_read_mem_kept [OF less(2), of a "umovestr_chunk pb a len" st] by simp
  show ?case
  proof (cases "len \<noteq> 0 \<and> (\<exists>xs. r = Inr xs \<and> xs \<noteq> [])")
    case True
    then obtain xs where xs: "len \<noteq> 0" "r = Inr xs" "xs \<noteq> []" by blast
    note chunk = umovestr_loop_chunk [OF xs(1) r [unfolded xs(2)] xs(3)]
    obtain ret bs st2 where rec: "umovestr_loop M pb k (a + of_nat (length xs)) (len - length xs) (nread + length xs) st1 = ((ret, bs), st2)"
      by (metis prod.exhaust)
    have "len - length xs < len" using xs(1,3) by simp
    from less(1) [OF this less(2), of "a + of_nat (length xs)" "nread + length xs" st1] have "readv_not_supported st2 = readv_not_supported st"
      using rec k by simp
    then show ?thesis using chunk(1) chunk(2) [OF _ rec] k by (cases "find (\<lambda>j. xs ! j = 0) [0..<length xs]") simp_all
  next
    case False
    then show ?thesis using r k by (subst umovestr_loop.simps) (auto simp: Let_def split: sum.splits list.splits)
  qed
qed

lemma umovestr_kept:
  "mem_laws pb M k mem \<Longrightarrow> readv_not_supported (snd (umovestr M pb wordsize k a len st)) = readv_not_supported st"
  using umovestr_loop_kept [of pb M k mem a len 0 st] by (auto simp: umovestr_def)

lemma umoven_kept:
  "mem_laws pb M k mem \<Longrightarrow> readv_not_supported (snd (umoven M pb wordsize k a len st)) = readv_not_supported st"
  using vm_read_mem_kept [of pb M k mem a len st] by (auto simp: umoven_def Let_def split: prod.splits)

text \<open>A range of several pages that does not reach the end of the address space.\<close>

lemma next_page:
  assumes "pb < 32" "unat a + (2 ^ pb - page_offset pb a) < 2 ^ 64"
  shows "page_of pb a + 2 ^ pb = a + of_nat (2 ^ pb - page_offset pb a)"
    "page_of pb (a + of_nat (2 ^ pb - page_offset pb a)) \<noteq> 0"
    "unat (a + of_nat (2 ^ pb - page_offset pb a)) = unat a + (2 ^ pb - page_offset pb a)"
proof -
  let ?a = "a + of_nat (2 ^ pb - page_offset pb a)"
  have o: "page_offset pb a < 2 ^ pb" by (rule page_offset_less)
  then have "of_nat (page_offset pb a) + of_nat (2 ^ pb - page_offset pb a) = (2 ^ pb :: u64)"
    by (simp only: of_nat_add [symmetric]) simp
  then show eq: "page_of pb a + 2 ^ pb = ?a" using page_split [of pb a] by (metis add.assoc)
  show u: "unat ?a = unat a + (2 ^ pb - page_offset pb a)"
    using assms(2) by (simp add: unat_word_ariths unat_of_nat mod_simps)
  have "page_offset pb ?a = 0" using page_offset_add [OF assms(1), of a "2 ^ pb - page_offset pb a"] o by simp
  then have "page_of pb ?a = ?a" using page_split [of pb ?a] by simp
  then show "page_of pb ?a \<noteq> 0" using u o by auto
qed

lemma vm_read_pages_step:
  assumes "read_page M pb k (page_of pb a) st = (q, st1)"
  shows "q = Inl e \<Longrightarrow> vm_read_pages M pb k a len bs st = (if bs \<noteq> [] then Inr bs else Inl e, st1)"
    "q = Inr i \<Longrightarrow> len \<le> 2 ^ pb - page_offset pb a \<Longrightarrow>
      vm_read_pages M pb k a len bs st = (Inr (bs @ take len (drop (page_offset pb a) (page_buf st1 ! i))), st1)"
    "q = Inr i \<Longrightarrow> \<not> len \<le> 2 ^ pb - page_offset pb a \<Longrightarrow>
      vm_read_pages M pb k a len bs st = vm_read_pages M pb k (page_of pb a + 2 ^ pb) (len - (2 ^ pb - page_offset pb a))
        (bs @ take (2 ^ pb - page_offset pb a) (drop (page_offset pb a) (page_buf st1 ! i))) st1"
  using assms by (simp_all add: vm_read_pages.simps [of M pb k a len bs st] Let_def)

lemma vm_read_pages_spec:
  assumes "coherent pb mem st" "mem_laws pb M k mem" "pb < 32" "page_of pb a \<noteq> 0" "unat a + len + 2 ^ pb \<le> 2 ^ 64"
    and "len > 0" "vm_read_pages M pb k a len bs st = (r, st')"
  shows "coherent pb mem st' \<and> readv_not_supported st' = readv_not_supported st \<and>
    (if mapped mem a len then r = Inr (bs @ bytes mem a len)
     else (\<exists>m < len. r = Inr (bs @ bytes mem a m)) \<or> r = Inl EFAULT_m)"
  using assms
proof (induction len arbitrary: a bs st rule: less_induct)
  case (less len)
  let ?p = "page_of pb a" and ?o = "page_offset pb a"
  let ?n = "2 ^ pb - ?o"
  obtain q st1 where q: "read_page M pb k ?p st = (q, st1)" by fastforce
  note c = read_page_coherent [OF less.prems(1,2) page_of_page less.prems(4) q]
  note step = vm_read_pages_step [OF q]
  have mp: "mem a = None \<longleftrightarrow> mem ?p = None" using less.prems(2) by (simp add: mem_laws_def)
  have o: "?o < 2 ^ pb" by (rule page_offset_less)
  show ?case
  proof (cases "mem a = None")
    case True
    then have "\<not> mapped mem a len" using less.prems(6) unfolding mapped_def by (intro notI) (drule spec [of _ 0], simp)
    moreover have "r = Inr (bs @ bytes mem a 0) \<or> r = Inl EFAULT_m" "st' = st1"
      using step(1) [of EFAULT_m len bs] c True mp less.prems(7) by (auto simp: bytes_def split: if_splits)
    ultimately show ?thesis using c less.prems(6) by auto
  next
    case False
    then obtain i where i: "q = Inr i" "page_buf st1 ! i = bytes mem ?p (2 ^ pb)" using c mp by auto
    have part: "take m (drop ?o (page_buf st1 ! i)) = bytes mem a m" if "m \<le> ?n" for m
      using that o by (simp add: i(2) bytes_part page_split)
    show ?thesis
    proof (cases "len \<le> ?n")
      case True
      moreover have "mapped mem a len" using page_mapped [OF less.prems(2), of a len] True o less.prems(6) False by simp
      ultimately show ?thesis using step(2) [OF i(1) True, of bs] part c less.prems(7) by simp
    next
      case more: False
      have m: "mapped mem a ?n" using page_mapped [OF less.prems(2), of a ?n] o False by simp
      have u: "unat a + ?n < 2 ^ 64" using less.prems(5) more by simp
      note np = next_page [OF less.prems(3) u]
      let ?a = "a + of_nat ?n"
      have "vm_read_pages M pb k ?a (len - ?n) (bs @ bytes mem a ?n) st1 = (r, st')"
        using step(3) [OF i(1) more, of bs] part [of ?n] less.prems(7) np(1) by simp
      moreover have "len - ?n < len" "len - ?n > 0" "coherent pb mem st1" using o more less.prems(6) c by simp_all
      moreover have "unat ?a + (len - ?n) + 2 ^ pb \<le> 2 ^ 64" unfolding np(3) using less.prems(5) more by simp
      ultimately have ih: "coherent pb mem st' \<and> readv_not_supported st' = readv_not_supported st1 \<and>
          (if mapped mem ?a (len - ?n) then r = Inr ((bs @ bytes mem a ?n) @ bytes mem ?a (len - ?n))
           else (\<exists>m < len - ?n. r = Inr ((bs @ bytes mem a ?n) @ bytes mem ?a m)) \<or> r = Inl EFAULT_m)"
        by (intro less.IH less.prems(2,3) np(2))
      have add: "(bs @ bytes mem a ?n) @ bytes mem ?a l = bs @ bytes mem a (?n + l)" for l by (simp add: bytes_add)
      have "mapped mem a len \<longleftrightarrow> mapped mem ?a (len - ?n)" using mapped_add [of mem a ?n "len - ?n"] m more by simp
      moreover have "?n + l < len" if "l < len - ?n" for l using that by simp
      ultimately show ?thesis using ih c more unfolding add by (auto split: if_splits)
    qed
  qed
qed

lemma page_of_unat: "unat (page_of pb a) + page_offset pb a = unat a"
proof -
  have "unat (page_of pb a) = unat a - page_offset pb a"
  proof -
    have "page_of pb a = a - of_nat (page_offset pb a)" using page_split [of pb a] by (metis add_diff_cancel_right')
    moreover have "of_nat (page_offset pb a) \<le> a" by (simp add: page_offset_def word_and_le2)
    ultimately show ?thesis by (simp add: unat_sub page_offset_def)
  qed
  moreover have "page_offset pb a \<le> unat a" by (simp add: page_offset_mod)
  ultimately show ?thesis by simp
qed

lemma page_end:
  assumes "pb < 32"
  shows "unat (a + of_nat len + mask pb :: u64) = (unat a + len + (2 ^ pb - 1)) mod 2 ^ 64"
proof -
  let ?b = "a + of_nat len + mask pb"
  have m: "unat (mask pb :: u64) = 2 ^ pb - 1" using assms by (intro unat_mask) simp
  define K :: nat where "K = 2 ^ pb - 1"
  have "unat ?b = ((unat a + len) mod 2 ^ 64 + K) mod 2 ^ 64"
    unfolding K_def m [symmetric] by (simp add: unat_word_ariths unat_of_nat mod_simps)
  then show ?thesis unfolding K_def [symmetric] by (simp only: mod_add_left_eq)
qed

lemma no_wrap:
  assumes "pb < 32" "len < 2 ^ 32" "\<not> page_of pb (a + of_nat len + mask pb) < page_of pb a"
  shows "unat a + len + 2 ^ pb \<le> 2 ^ 64"
proof (rule ccontr)
  assume "\<not> ?thesis"
  then have w: "unat a + len + (2 ^ pb - 1) \<ge> 2 ^ 64" by simp
  let ?b = "a + of_nat len + mask pb"
  have p: "(2 :: nat) ^ pb \<le> 2 ^ 31" using assms(1) by (intro power_increasing) simp_all
  have "unat ?b = (unat a + len + (2 ^ pb - 1)) mod 2 ^ 64" by (rule page_end [OF assms(1)])
  moreover have "unat a < 2 ^ 64" using unsigned_less [of a] by simp
  ultimately have "unat ?b = unat a + len + (2 ^ pb - 1) - 2 ^ 64"
    using w assms(2) p by (subst (asm) mod_if) (simp add: mod_if)
  moreover have "unat (page_of pb ?b) \<le> unat ?b" using page_of_unat [of pb ?b] by simp
  moreover have "unat (page_of pb a) \<le> unat (page_of pb ?b)" using assms(3) by (simp add: word_less_nat_alt not_less)
  ultimately show False
    using page_of_unat [of pb a] page_offset_less [of pb a] assms(2) p w by simp
qed

lemma vm_read_mem_spec:
  assumes "coherent pb mem st" "mem_laws pb M k mem" "pb < 32" "len < 2 ^ 32" "vm_read_mem M pb k a len st = (r, st')"
  shows "coherent pb mem st' \<and> readv_not_supported st' = readv_not_supported st \<and>
    (if mapped mem a len then r = Inr (bytes mem a len)
     else (\<exists>m < len. r = Inr (bytes mem a m)) \<or> r = Inl EFAULT_m)"
proof -
  consider (none) "len = 0" | (direct) "len > 0" "(r, st') = process_read_mem M k a len st"
    | (pages) "len > 0" "page_of pb a \<noteq> 0" "\<not> page_of pb (a + of_nat len + mask pb) < page_of pb a"
        "(r, st') = vm_read_pages M pb k a len [] st"
    using assms(5) by (auto simp: vm_read_mem_def Let_def split: if_splits)
  then show ?thesis
  proof cases
    case none
    then show ?thesis using assms(1,5) by (simp add: vm_read_mem_def mapped_def bytes_def)
  next
    case direct
    have "mo_readv M a len k = (if mapped mem a len then Inr (bytes mem a len) else Inl EFAULT_m)"
      using assms(2) direct(1) by (simp add: mem_laws_def)
    then show ?thesis using direct(2) assms(1) by (auto simp: process_read_mem_def coherent_def split: if_splits)
  next
    case pages
    have "vm_read_pages M pb k a len [] st = (r, st')" using pages(4) by simp
    from vm_read_pages_spec [OF assms(1-3) pages(2) no_wrap [OF assms(3,4) pages(3)] pages(1) this]
    show ?thesis unfolding append_Nil .
  qed
qed

section \<open>One word after the other\<close>

text \<open>A peek at an aligned address reads the word there, which lies inside one page.\<close>

definition peek_laws :: "'k mem_ops \<Rightarrow> 'k \<Rightarrow> (u64 \<Rightarrow> u8 option) \<Rightarrow> bool" where
  "peek_laws M k mem \<longleftrightarrow>
     (\<forall>a. page_of 3 a = a \<longrightarrow> mo_peek M a k = (if mem a = None then Inl EIO_m else Inr (bytes mem a WORD_BYTES)))"

lemma word_page: "addr AND NOT 7 = page_of 3 addr" "addr AND - 8 = page_of 3 addr" "unat (addr AND 7 :: u64) = page_offset 3 addr"
  by (simp_all add: page_of_def page_offset_def mask_eq_exp_minus_1)

lemma laws_word: "mem_laws pb M k mem \<Longrightarrow> 3 \<le> pb \<Longrightarrow> mem_laws 3 M k mem"
proof -
  assume l: "mem_laws pb M k mem" and pb: "3 \<le> pb"
  have "page_of pb (page_of 3 a) = page_of pb a" for a
    using pb by (intro bit_word_eqI) (auto simp: page_of_def bit_simps)
  then have "mem a = None \<longleftrightarrow> mem (page_of 3 a) = None" for a using l unfolding mem_laws_def by metis
  then show ?thesis using l by (simp add: mem_laws_def)
qed

text \<open>The bytes of a word from an address on.\<close>

lemma peek_word:
  assumes "peek_laws M k mem" "mem_laws 3 M k mem"
  shows "mo_peek M (page_of 3 a) k = (if mem a = None then Inl EIO_m else Inr (bytes mem (page_of 3 a) WORD_BYTES))"
    "m \<le> WORD_BYTES - page_offset 3 a \<Longrightarrow> take m (drop (page_offset 3 a) (bytes mem (page_of 3 a) WORD_BYTES)) = bytes mem a m"
    "mem a \<noteq> None \<Longrightarrow> m \<le> WORD_BYTES - page_offset 3 a \<Longrightarrow> mapped mem a m"
    "page_of 3 a + 8 = a + of_nat (WORD_BYTES - page_offset 3 a)" "page_offset 3 a < WORD_BYTES"
proof -
  show o: "page_offset 3 a < WORD_BYTES" using page_offset_less [of 3 a] by simp
  have "mem a = None \<longleftrightarrow> mem (page_of 3 a) = None" using assms(2) by (simp add: mem_laws_def)
  then show "mo_peek M (page_of 3 a) k = (if mem a = None then Inl EIO_m else Inr (bytes mem (page_of 3 a) WORD_BYTES))"
    using assms(1) by (simp add: peek_laws_def)
  show "m \<le> WORD_BYTES - page_offset 3 a \<Longrightarrow> take m (drop (page_offset 3 a) (bytes mem (page_of 3 a) WORD_BYTES)) = bytes mem a m"
    using o by (simp add: bytes_part page_split)
  show "mapped mem a m" if "mem a \<noteq> None" "m \<le> WORD_BYTES - page_offset 3 a"
    using page_mapped [OF assms(2), of a m] that o by (cases "m = 0") (simp_all add: mapped_def)
  have "of_nat (page_offset 3 a) + of_nat (WORD_BYTES - page_offset 3 a) = (8 :: u64)"
    using o by (simp only: of_nat_add [symmetric]) simp
  then show "page_of 3 a + 8 = a + of_nat (WORD_BYTES - page_offset 3 a)" using page_split [of 3 a] by (metis add.assoc)
qed

lemma umoven_peekdata_spec:
  assumes "peek_laws M k mem" "mem_laws 3 M k mem"
  shows "fst (umoven_peekdata M k a len) = (if mapped mem a len then 0 else - 1)"
    "mapped mem a len \<Longrightarrow> snd (umoven_peekdata M k a len) = bytes mem a len"
proof -
  have "fst (umoven_peekdata M k a len) = (if mapped mem a len then 0 else - 1) \<and>
      (mapped mem a len \<longrightarrow> snd (umoven_peekdata M k a len) = bytes mem a len)"
  proof (induction len arbitrary: a rule: less_induct)
    case (less len)
    note p = peek_word [OF assms]
    show ?case
    proof (cases "len = 0 \<or> mem a = None")
      case True
      moreover have "\<not> mapped mem a len" if "mem a = None" "len \<noteq> 0"
        using that unfolding mapped_def by (intro notI) (drule spec [of _ 0], simp)
      ultimately show ?thesis
        using p(1) [of a] by (auto simp: umoven_peekdata.simps [of M k a len] word_page mapped_def bytes_def Let_def)
    next
      case False
      let ?n = "WORD_BYTES - page_offset 3 a"
      let ?m = "min ?n len" and ?w = "bytes mem (page_of 3 a) WORD_BYTES"
      let ?r = "umoven_peekdata M k (page_of 3 a + 8) (len - ?m)"
      have step: "umoven_peekdata M k a len = (fst ?r, bytes mem a ?m @ snd ?r)"
        using False p(1) [of a] p(2) [of ?m a]
        by (auto simp: umoven_peekdata.simps [of M k a len] word_page Let_def case_prod_beta)
      show ?thesis
      proof (cases "len \<le> ?n")
        case True
        then show ?thesis using step False p(3) [of a len] by (simp add: umoven_peekdata.simps)
      next
        case more: False
        have "len - ?n < len" using False p(5) [of a] by (intro diff_less) auto
        note ih = less.IH [OF this, of "a + of_nat ?n"]
        have "mapped mem a ?n" using False p(3) [of a ?n] by simp
        then have "mapped mem a len \<longleftrightarrow> mapped mem (a + of_nat ?n) (len - ?n)"
          using mapped_add [of mem a ?n "len - ?n"] more by simp
        moreover have "bytes mem a len = bytes mem a ?n @ bytes mem (a + of_nat ?n) (len - ?n)"
          using bytes_add [of mem a ?n "len - ?n"] more by simp
        ultimately show ?thesis using ih step more unfolding p(4) by simp
      qed
    qed
  qed
  then show "fst (umoven_peekdata M k a len) = (if mapped mem a len then 0 else - 1)"
    "mapped mem a len \<Longrightarrow> snd (umoven_peekdata M k a len) = bytes mem a len" by simp_all
qed

section \<open>What is written\<close>

text \<open>The memory with some bytes put at an address.\<close>

definition store :: "(u64 \<Rightarrow> u8 option) \<Rightarrow> u64 \<Rightarrow> u8 list \<Rightarrow> u64 \<Rightarrow> u8 option" where
  "store mem a bs = (\<lambda>x. if unat (x - a) < length bs then Some (bs ! unat (x - a)) else mem x)"

text \<open>
  What the system calls and requests do to a memory \<open>mem_of k\<close>: the laws for reading hold at every
  state, and what is written to mapped addresses is stored.
\<close>

definition kernel_laws :: "nat \<Rightarrow> 'k mem_ops \<Rightarrow> ('k \<Rightarrow> u64 \<Rightarrow> u8 option) \<Rightarrow> bool" where
  "kernel_laws pb M mem_of \<longleftrightarrow>
     (\<forall>k. mem_laws pb M k (mem_of k) \<and> peek_laws M k (mem_of k)) \<and>
     (\<forall>k a bs. mapped (mem_of k) a (length bs) \<longrightarrow> (case mo_writev M a bs k of (r, k') \<Rightarrow>
        (r = Inr (length bs) \<and> mem_of k' = store (mem_of k) a bs) \<or> (r \<in> {Inl ENOSYS_m, Inl EPERM_m} \<and> mem_of k' = mem_of k))) \<and>
     (\<forall>k a w. page_of 3 a = a \<and> mem_of k a \<noteq> None \<and> length w = WORD_BYTES \<longrightarrow>
        (case mo_poke M a w k of (e, k') \<Rightarrow> e = None \<and> mem_of k' = store (mem_of k) a w))"

lemma offset_shift:
  assumes "n < 2 ^ 64"
  shows "unat (x - (a + of_nat n) :: u64) = (if n \<le> unat (x - a) then unat (x - a) - n else 2 ^ 64 + unat (x - a) - n)"
proof -
  have "unat (of_nat n :: u64) = n" using assms by (simp add: unat_of_nat)
  then have "unat (d - of_nat n :: u64) = (if n \<le> unat d then unat d - n else 2 ^ 64 + unat d - n)" for d
    by (simp only: unat_sub_if' add.commute [of _ "unat d"]) simp
  from this [of "x - a"] show ?thesis unfolding diff_diff_add .
qed

lemma store_append:
  assumes "length xs + length ys < 2 ^ 64"
  shows "store (store mem a xs) (a + of_nat (length xs)) ys = store mem a (xs @ ys)"
proof
  fix x :: u64
  have l: "length xs < 2 ^ 64" using assms by simp
  show "store (store mem a xs) (a + of_nat (length xs)) ys x = store mem a (xs @ ys) x"
  proof (cases "unat (x - a) < length xs")
    case True
    moreover have "\<not> 2 ^ 64 + unat (x - a) - length xs < length ys" using assms by simp
    ultimately show ?thesis unfolding store_def offset_shift [OF l] by (simp add: nth_append)
  next
    case False
    then show ?thesis unfolding store_def offset_shift [OF l] by (simp add: nth_append less_diff_conv2)
  qed
qed

lemma store_split:
  assumes "n \<le> length bs" "length bs < 2 ^ 64"
  shows "store (store mem a (take n bs)) (a + of_nat n) (drop n bs) = store mem a bs"
proof -
  have n: "length (take n bs) = n" using assms(1) by simp
  then have "length (take n bs) + length (drop n bs) < 2 ^ 64" using assms by simp
  from store_append [OF this, of mem a] show ?thesis unfolding n by simp
qed

lemma store_Nil [simp]: "store mem a [] = mem"
  by (simp add: store_def)

lemma bytes_store: "length bs < 2 ^ 64 \<Longrightarrow> bytes (store mem a bs) a (length bs) = bs"
  by (rule nth_equalityI) (auto simp: bytes_def store_def unat_of_nat)

lemma mapped_store: "mapped mem b n \<Longrightarrow> mapped (store mem a bs) b n"
  by (auto simp: mapped_def store_def)

text \<open>Some of the bytes of a word are replaced.\<close>

lemma store_word:
  assumes "mapped mem p WORD_BYTES" "off + length bs \<le> WORD_BYTES"
  defines "w \<equiv> bytes mem p WORD_BYTES"
  shows "store mem p (take off w @ bs @ drop (off + length bs) w) = store mem (p + of_nat off) bs"
proof
  fix x :: u64
  let ?i = "unat (x - p)"
  have i: "?i < 2 ^ 64" using unsigned_less [of "x - p"] by simp
  have w: "Some (w ! ?i) = mem x" if "?i < WORD_BYTES"
    using that assms(1) unfolding w_def mapped_def bytes_def by (drule_tac spec [of _ ?i]) auto
  have l: "length w = WORD_BYTES" by (simp add: w_def)
  have o: "off < 2 ^ 64" using assms(2) by simp
  consider "?i < off" | "off \<le> ?i" "?i < off + length bs" | "off + length bs \<le> ?i" by linarith
  then show "store mem p (take off w @ bs @ drop (off + length bs) w) x = store mem (p + of_nat off) bs x"
  proof cases
    case 1
    moreover have "\<not> 2 ^ 64 + ?i - off < length bs" using assms(2) by simp
    ultimately show ?thesis using assms(2) l w unfolding store_def offset_shift [OF o] by (simp add: nth_append)
  next
    case 2
    then show ?thesis using assms(2) l unfolding store_def offset_shift [OF o] by (simp add: nth_append less_diff_conv2)
  next
    case 3
    then show ?thesis using assms(2) l w unfolding store_def offset_shift [OF o] by (simp add: nth_append less_diff_conv2)
  qed
qed

text \<open>Writing one word after the other.\<close>

lemma aligned_offset: "page_of 3 a = a \<longleftrightarrow> page_offset 3 a = 0"
proof
  show "page_of 3 a = a \<Longrightarrow> page_offset 3 a = 0" by (metis page_offset_page)
  show "page_offset 3 a = 0 \<Longrightarrow> page_of 3 a = a" using page_split [of 3 a] by simp
qed

lemma residue_aligned: "a AND 7 = 0 \<longleftrightarrow> page_of 3 a = a"
  by (simp add: aligned_offset word_page(3) [symmetric] unat_eq_0)

lemma aligned_next: "page_of 3 a = a \<Longrightarrow> page_of 3 (a + 8) = a + 8"
  unfolding aligned_offset page_offset_mod unat_word_ariths by (simp add: mod_mod_cancel)

lemma laws_poke:
  assumes "kernel_laws pb M mem_of" "page_of 3 a = a" "mem_of k a \<noteq> None" "length w = WORD_BYTES"
  obtains k' where "mo_poke M a w k = (None, k')" "mem_of k' = store (mem_of k) a w"
proof -
  obtain e k' where p: "mo_poke M a w k = (e, k')" by fastforce
  have "case mo_poke M a w k of (e, k') \<Rightarrow> e = None \<and> mem_of k' = store (mem_of k) a w"
    using assms(1) [unfolded kernel_laws_def, THEN conjunct2, THEN conjunct2, rule_format, of a k w] assms(2-4) by simp
  then show ?thesis using that [of k'] p by simp
qed

lemma laws_read:
  assumes "kernel_laws pb M mem_of"
  shows "mem_laws pb M k (mem_of k)" "peek_laws M k (mem_of k)"
  using assms by (simp_all add: kernel_laws_def)

lemma upoken_peekpoke_spec:
  assumes "kernel_laws pb M mem_of" "3 \<le> pb" "page_of 3 a = a" "mem_of k a \<noteq> None" "off + length bs \<le> WORD_BYTES"
  obtains k' where "upoken_peekpoke M a bs off k = (True, k')" "mem_of k' = store (mem_of k) (a + of_nat off) bs"
proof -
  let ?w = "bytes (mem_of k) a WORD_BYTES"
  note laws = laws_read [OF assms(1), of k]
  have peek: "mo_peek M a k = Inr ?w" using laws(2) assms(3,4) by (simp add: peek_laws_def)
  have "page_offset 3 a = 0" using assms(3) unfolding aligned_offset .
  then have m: "mapped (mem_of k) a WORD_BYTES"
    using page_mapped [OF laws_word [OF laws(1) assms(2)], of a WORD_BYTES] assms(4) by simp
  have "length (take off ?w @ bs @ drop (off + length bs) ?w) = WORD_BYTES" using assms(5) by simp
  from laws_poke [OF assms(1,3,4) this]
  obtain k' where k': "mo_poke M a (take off ?w @ bs @ drop (off + length bs) ?w) k = (None, k')"
    "mem_of k' = store (mem_of k) a (take off ?w @ bs @ drop (off + length bs) ?w)" by blast
  show ?thesis
  proof (rule that)
    show "upoken_peekpoke M a bs off k = (True, k')" by (simp add: upoken_peekpoke_def peek k'(1))
    show "mem_of k' = store (mem_of k) (a + of_nat off) bs" unfolding k'(2) by (rule store_word [OF m assms(5)])
  qed
qed

lemma upoken_words_spec:
  assumes "kernel_laws pb M mem_of" "3 \<le> pb" "page_of 3 a = a" "mapped (mem_of k) a (length bs)" "length bs < 2 ^ 64"
  shows "\<exists>k'. upoken_words M a bs nwritten k = (nwritten + length bs, k') \<and> mem_of k' = store (mem_of k) a bs"
  using assms(3-5)
proof (induction "length bs" arbitrary: a bs nwritten k rule: less_induct)
  case less
  have m: "mem_of k a \<noteq> None" if "bs \<noteq> []"
    using less.prems(2) [unfolded mapped_def, rule_format, of 0] that by simp
  consider "WORD_BYTES \<le> length bs" | "length bs < WORD_BYTES" "bs \<noteq> []" | "bs = []" by force
  then show ?case
  proof cases
    case 1
    let ?w = "take WORD_BYTES bs" and ?bs = "drop WORD_BYTES bs"
    have "bs \<noteq> []" "length ?w = WORD_BYTES" using 1 by auto
    with laws_poke [OF assms(1) less.prems(1) m] obtain k1
      where k1: "mo_poke M a ?w k = (None, k1)" "mem_of k1 = store (mem_of k) a ?w" by blast
    have "mapped (mem_of k) (a + of_nat WORD_BYTES) (length ?bs)"
      using mapped_part [OF less.prems(2), of WORD_BYTES "length ?bs"] 1 by simp
    then have "mapped (mem_of k1) (a + 8) (length ?bs)" unfolding k1(2) by (simp add: mapped_store)
    moreover have "length ?bs < length bs" "length ?bs < 2 ^ 64" using 1 less.prems(3) by simp_all
    ultimately obtain k2 where
      "upoken_words M (a + 8) ?bs (nwritten + WORD_BYTES) k1 = (nwritten + WORD_BYTES + length ?bs, k2)"
      and k2: "mem_of k2 = store (mem_of k1) (a + 8) ?bs"
      using less.hyps [OF _ aligned_next [OF less.prems(1)], of ?bs k1 "nwritten + WORD_BYTES"] by blast
    then have "upoken_words M a bs nwritten k = (nwritten + length bs, k2)"
      using 1 k1(1) by (simp add: upoken_words.simps [of M a bs])
    moreover have "mem_of k2 = store (mem_of k) a bs"
      using store_split [OF 1 less.prems(3), of "mem_of k" a] by (simp add: k1(2) k2)
    ultimately show ?thesis by blast
  next
    case 2
    then have "0 + length bs \<le> WORD_BYTES" by simp
    from upoken_peekpoke_spec [OF assms(1,2) less.prems(1) m [OF 2(2)] this] obtain k1
      where "upoken_peekpoke M a bs 0 k = (True, k1)" "mem_of k1 = store (mem_of k) (a + of_nat 0) bs" .
    then show ?thesis using 2 by (simp add: upoken_words.simps [of M a bs])
  next
    case 3
    then show ?thesis by (subst upoken_words.simps) simp
  qed
qed

lemma upoken_pokedata_spec:
  assumes "kernel_laws pb M mem_of" "3 \<le> pb" "mapped (mem_of k) a (length bs)" "length bs < 2 ^ 64"
  shows "\<exists>k'. upoken_pokedata M a bs k = (length bs, k') \<and> mem_of k' = store (mem_of k) a bs"
proof (cases "bs = [] \<or> page_of 3 a = a")
  case True
  then have "upoken_pokedata M a bs k = upoken_words M a bs 0 k"
    by (auto simp: upoken_pokedata_def residue_aligned)
  moreover have "upoken_words M a [] 0 k = (0, k)" by (subst upoken_words.simps) simp
  ultimately show ?thesis using True upoken_words_spec [OF assms(1,2) _ assms(3,4), of 0] by (cases "bs = []") auto
next
  case False
  let ?o = "page_offset 3 a" and ?p = "page_of 3 a"
  let ?n = "min (WORD_BYTES - ?o) (length bs)"
  let ?xs = "take ?n bs" and ?ys = "drop ?n bs"
  have o: "?o < WORD_BYTES" using page_offset_less [of 3 a] by simp
  have "mem_of k a \<noteq> None" using assms(3) [unfolded mapped_def, rule_format, of 0] False by simp
  then have "mem_of k ?p \<noteq> None"
    using laws_word [OF laws_read(1) [OF assms(1)] assms(2), of k] by (simp add: mem_laws_def)
  moreover have "?o + length ?xs \<le> WORD_BYTES" using o by simp
  ultimately obtain k1 where k1: "upoken_peekpoke M ?p ?xs ?o k = (True, k1)"
    "mem_of k1 = store (mem_of k) (?p + of_nat ?o) ?xs"
    by (rule upoken_peekpoke_spec [OF assms(1,2) page_of_page])
  have m1: "mem_of k1 = store (mem_of k) a ?xs" using k1(2) unfolding page_split .
  have step: "upoken_pokedata M a bs k = upoken_words M (?p + 8) ?ys ?n k1"
    using False k1(1) by (simp add: upoken_pokedata_def Let_def word_page residue_aligned)
  show ?thesis
  proof (cases "length bs \<le> WORD_BYTES - ?o")
    case True
    moreover have "upoken_words M (?p + 8) [] (length bs) k1 = (length bs, k1)" by (subst upoken_words.simps) simp
    ultimately show ?thesis using step m1 by simp
  next
    case more: False
    have "of_nat ?o + of_nat (WORD_BYTES - ?o) = (8 :: u64)" using o by (simp only: of_nat_add [symmetric]) simp
    then have "?p + 8 = ?p + of_nat ?o + of_nat (WORD_BYTES - ?o)" by (simp only: add.assoc)
    moreover have "?n = WORD_BYTES - ?o" using more by simp
    ultimately have next': "?p + 8 = a + of_nat ?n" unfolding page_split by simp
    have "mapped (mem_of k) (a + of_nat ?n) (length ?ys)"
      by (rule mapped_part [OF assms(3)]) simp
    then have "mapped (mem_of k1) (?p + 8) (length ?ys)" unfolding m1 next' by (rule mapped_store)
    moreover have "length ?ys < 2 ^ 64" using assms(4) by simp
    ultimately obtain k2 where
      "upoken_words M (?p + 8) ?ys ?n k1 = (?n + length ?ys, k2)" and k2: "mem_of k2 = store (mem_of k1) (?p + 8) ?ys"
      using upoken_words_spec [OF assms(1,2) aligned_next [OF page_of_page]] by blast
    moreover have "store (store (mem_of k) a ?xs) (a + of_nat ?n) ?ys = store (mem_of k) a bs"
      by (rule store_split [OF _ assms(4)]) simp
    ultimately show ?thesis using step unfolding next' m1 by (intro exI [of _ k2]) simp
  qed
qed

section \<open>Reading, writing, and the cache\<close>

lemma coherent_invalidate: "coherent pb mem st \<Longrightarrow> coherent pb mem' (invalidate_umove_cache st)"
  by (simp add: coherent_def invalidate_umove_cache_def)

lemma coherent_writev: "coherent pb mem (st\<lparr>writev_not_supported := b\<rparr>) \<longleftrightarrow> coherent pb mem st"
  by (simp add: coherent_def)

lemma umoven_spec:
  assumes "coherent pb mem st" "mem_laws pb M k mem" "peek_laws M k mem" "3 \<le> pb" "pb < 32" "len < 2 ^ 32 - 1"
    and "umoven M pb wordsize k a len st = ((r, bs), st')"
  shows "coherent pb mem st'"
    "r = (if \<not> tracee_addr_is_invalid wordsize a \<and> mapped mem a len then 0 else - 1)"
    "r = 0 \<Longrightarrow> bs = bytes mem a len"
proof -
  consider "tracee_addr_is_invalid wordsize a" | "\<not> tracee_addr_is_invalid wordsize a" "readv_not_supported st"
    | "\<not> tracee_addr_is_invalid wordsize a" "\<not> readv_not_supported st" by blast
  then have "coherent pb mem st' \<and> r = (if \<not> tracee_addr_is_invalid wordsize a \<and> mapped mem a len then 0 else - 1) \<and>
    (r = 0 \<longrightarrow> bs = bytes mem a len)"
  proof cases
    case 1
    then show ?thesis using assms(1,7) by (simp add: umoven_def)
  next
    case 2
    then show ?thesis
      using assms(1,7) umoven_peekdata_spec [OF assms(3) laws_word [OF assms(2,4)], of a len] by (auto simp: umoven_def)
  next
    case 3
    obtain rc st1 where rc: "vm_read_mem M pb k a len st = (rc, st1)" by fastforce
    have "len < 2 ^ 32" using assms(6) by simp
    note v = vm_read_mem_spec [OF assms(1,2,5) this rc]
    obtain pr pbs where pd: "umoven_peekdata M k a len = (pr, pbs)" by fastforce
    note p = umoven_peekdata_spec [OF assms(3) laws_word [OF assms(2,4)], of a len, unfolded pd fst_conv snd_conv]
    show ?thesis
    proof (cases "mapped mem a len")
      case True
      then show ?thesis using 3 v rc assms(6,7) by (simp add: umoven_def)
    next
      case False
      then consider m where "m < len" "rc = Inr (bytes mem a m)" | "rc = Inl EFAULT_m" using v by auto
      then show ?thesis
      proof cases
        case 1
        then show ?thesis using 3 False v [THEN conjunct1] p rc assms(6,7)
          by (simp add: umoven_def pd Let_def split: if_splits)
      next
        case 2
        then show ?thesis using 3 False v [THEN conjunct1] p rc assms(6,7)
          by (simp add: umoven_def pd Let_def split: if_splits)
      qed
    qed
  qed
  then show "coherent pb mem st'" "r = (if \<not> tracee_addr_is_invalid wordsize a \<and> mapped mem a len then 0 else - 1)"
    "r = 0 \<Longrightarrow> bs = bytes mem a len" by simp_all
qed

lemma upoken_spec:
  assumes "kernel_laws pb M mem_of" "3 \<le> pb" "mapped (mem_of k) a (length bs)" "length bs < 2 ^ 32 - 1"
    and "\<not> tracee_addr_is_invalid wordsize a" "upoken M wordsize a bs st k = (n, st', k')"
  shows "n = length bs \<and> mem_of k' = store (mem_of k) a bs"
proof -
  have len: "length bs < 2 ^ 64" using assms(4) by simp
  obtain r k1 where w: "mo_writev M a bs k = (r, k1)" by fastforce
  have "case mo_writev M a bs k of (r, k') \<Rightarrow> (r = Inr (length bs) \<and> mem_of k' = store (mem_of k) a bs) \<or>
      (r \<in> {Inl ENOSYS_m, Inl EPERM_m} \<and> mem_of k' = mem_of k)"
    using assms(1) [unfolded kernel_laws_def, THEN conjunct2, THEN conjunct1, rule_format, OF assms(3)] .
  then consider "r = Inr (length bs)" "mem_of k1 = store (mem_of k) a bs"
    | e where "r = Inl e" "e \<in> {ENOSYS_m, EPERM_m}" "mem_of k1 = mem_of k" unfolding w by auto
  note vm = this
  show ?thesis
  proof (cases "writev_not_supported st")
    case True
    then show ?thesis
      using upoken_pokedata_spec [OF assms(1,2,3) len] assms(5,6) by (auto simp: upoken_def)
  next
    case False
    from vm show ?thesis
    proof cases
      case 1
      then show ?thesis using False assms(4-6) w by (simp add: upoken_def vm_write_mem_def)
    next
      case 2
      then obtain k2 where "upoken_pokedata M a bs k1 = (length bs, k2)" "mem_of k2 = store (mem_of k) a bs"
        using upoken_pokedata_spec [OF assms(1,2) _ len, of k1 a] assms(3) by auto
      moreover have "e \<in> {ENOSYS_m, EPERM_m, EFAULT_m, EIO_m}" using 2(2) by auto
      ultimately show ?thesis
        using False 2(1) assms(4-6) w by (auto simp: upoken_def vm_write_mem_def)
    qed
  qed
qed

text \<open>A page that has been read is found in the cache, and a range inside it is read from there.\<close>

lemma read_page_cached:
  assumes "coherent pb mem st" "read_page M pb k p st = (Inr idx, st')"
  shows "lookup_cached_raddr_idx p st' = Some idx"
proof (cases "lookup_cached_raddr_idx p st")
  case (Some i)
  then show ?thesis using assms(2) by (simp add: read_page_def)
next
  case None
  have "idx < length (cached_raddr st)" if "idx = get_next_unused_idx st"
    using that get_next_unused [OF assms(1)] assms(1) by (simp add: coherent_def)
  with None show ?thesis
    using assms
    by (auto simp: read_page_def process_read_mem_def set_cached_raddr_idx_def lookup_cached_raddr_idx_def Let_def
        coherent_def split: sum.splits if_splits)
qed

definition inside_page :: "nat \<Rightarrow> u64 \<Rightarrow> nat \<Rightarrow> bool" where
  "inside_page pb a len \<longleftrightarrow>
     0 < len \<and> page_offset pb a + len \<le> 2 ^ pb \<and> page_of pb a \<noteq> 0 \<and> unat (page_of pb a) + 2 * 2 ^ pb \<le> 2 ^ 64"

lemma inside_page_read:
  assumes "inside_page pb a len" "pb < 32"
  shows "vm_read_mem M pb k a len st = vm_read_pages M pb k a len [] st"
proof -
  let ?b = "a + of_nat len + mask pb" and ?p = "page_of pb a"
  have pa: "unat ?p + page_offset pb a = unat a" and pb: "unat (page_of pb ?b) + page_offset pb ?b = unat ?b"
    by (rule page_of_unat)+
  have i: "0 < len" "page_offset pb a + len \<le> 2 ^ pb" "unat ?p + 2 * 2 ^ pb \<le> 2 ^ 64"
    using assms(1) by (simp_all add: inside_page_def)
  have "unat ?b = (unat a + len + (2 ^ pb - 1)) mod 2 ^ 64" by (rule page_end [OF assms(2)])
  also have "\<dots> = unat a + len + (2 ^ pb - 1)" by (rule mod_less) (use i pa in linarith)
  finally have b: "unat ?b = unat a + len + (2 ^ pb - 1)" .
  have le: "unat ?p \<le> unat (page_of pb ?b)" and up: "unat (page_of pb ?b) \<le> unat ?p + 2 * 2 ^ pb"
    using pa pb b i page_offset_less [of pb ?b] by linarith+
  then have "unat (page_of pb ?b - ?p) \<le> CACHED_PAGES * 2 ^ pb"
    by (simp add: unat_sub word_le_nat_alt)
  moreover have "\<not> page_of pb ?b < ?p" using le by (simp add: word_less_nat_alt not_less)
  ultimately show ?thesis using assms(1) by (simp add: vm_read_mem_def Let_def inside_page_def)
qed

lemma cached_read:
  assumes "coherent pb mem st" "lookup_cached_raddr_idx (page_of pb a) st = Some idx" "inside_page pb a len" "pb < 32"
  shows "vm_read_mem M pb k a len st = (Inr (bytes mem a len), st)"
proof -
  have i: "page_of pb a \<noteq> 0" "page_offset pb a + len \<le> 2 ^ pb" using assms(3) by (simp_all add: inside_page_def)
  have "read_page M pb k (page_of pb a) st = (Inr idx, st)" using assms(2) by (simp add: read_page_def)
  moreover have "page_buf st ! idx = bytes mem (page_of pb a) (2 ^ pb)"
    using lookup_cached [OF assms(1,2)] assms(1) i(1) by (auto simp: coherent_def)
  moreover have "len \<le> 2 ^ pb - page_offset pb a" using i(2) by simp
  ultimately have "vm_read_pages M pb k a len [] st = (Inr (bytes mem a len), st)"
    using i(2) by (subst vm_read_pages.simps) (simp add: bytes_part page_split)
  then show ?thesis unfolding inside_page_read [OF assms(3,4)] .
qed

lemma read_is_cached:
  assumes "coherent pb mem st" "inside_page pb a len" "pb < 32" "vm_read_mem M pb k a len st = (Inr bs, st')"
  obtains idx where "lookup_cached_raddr_idx (page_of pb a) st' = Some idx"
proof -
  obtain r st1 where r: "read_page M pb k (page_of pb a) st = (r, st1)" by fastforce
  have l: "len \<le> 2 ^ pb - page_offset pb a" using assms(2) by (auto simp: inside_page_def)
  have eq: "vm_read_pages M pb k a len [] st = (Inr bs, st')" using assms(4) unfolding inside_page_read [OF assms(2,3)] .
  show ?thesis
  proof (cases r)
    case (Inl e)
    then show ?thesis using eq r by (subst (asm) vm_read_pages.simps) simp
  next
    case (Inr idx)
    then have "st' = st1" using eq r l by (subst (asm) vm_read_pages.simps) simp
    then show ?thesis using that read_page_cached [OF assms(1) r [unfolded Inr]] by blast
  qed
qed

lemma lookup_writev [simp]:
  "lookup_cached_raddr_idx p (st\<lparr>writev_not_supported := b\<rparr>) = lookup_cached_raddr_idx p st"
  by (simp add: lookup_cached_raddr_idx_def)

lemma upoken_state: "upoken M wordsize a bs st k = (n, st', k') \<Longrightarrow> \<exists>b. st' = st\<lparr>writev_not_supported := b\<rparr>"
proof -
  have keep: "\<exists>b. st = st\<lparr>writev_not_supported := b\<rparr>" by (rule exI [of _ "writev_not_supported st"]) simp
  then show "upoken M wordsize a bs st k = (n, st', k') \<Longrightarrow> \<exists>b. st' = st\<lparr>writev_not_supported := b\<rparr>"
    by (auto simp: upoken_def vm_write_mem_def split: prod.splits sum.splits if_splits)
qed

section \<open>A tracee with one page\<close>

text \<open>A kernel whose state is the contents of the page at \<open>0x1000\<close>; no other page is mapped.\<close>

definition one_page :: "(u64 \<Rightarrow> u8) \<Rightarrow> u64 \<Rightarrow> u8 option" where
  "one_page k a = (if page_of 12 a = 0x1000 then Some (k a) else None)"

definition put :: "(u64 \<Rightarrow> u8) \<Rightarrow> u64 \<Rightarrow> u8 list \<Rightarrow> u64 \<Rightarrow> u8" where
  "put k a bs = (\<lambda>x. if unat (x - a) < length bs then bs ! unat (x - a) else k x)"

definition page_ops :: "(u64 \<Rightarrow> u8) mem_ops" where
  "page_ops =
     \<lparr>mo_readv = (\<lambda>a n k. if mapped (one_page k) a n then Inr (bytes (one_page k) a n) else Inl EFAULT_m),
      mo_writev = (\<lambda>a bs k. if mapped (one_page k) a (length bs) then (Inr (length bs), put k a bs) else (Inl EFAULT_m, k)),
      mo_peek = (\<lambda>a k. if one_page k a = None then Inl EIO_m else Inr (bytes (one_page k) a WORD_BYTES)),
      mo_poke = (\<lambda>a w k. if mapped (one_page k) a (length w) then (None, put k a w) else (Some EIO_m, k))\<rparr>"

definition no_pages :: ucopy where
  "no_pages = \<lparr>readv_not_supported = False, writev_not_supported = False, cached_idx = - 1, cached_raddr = replicate CACHED_PAGES 0,
     page_buf = replicate CACHED_PAGES (replicate (2 ^ 12) 0), uc_errno = Other_m\<rparr>"

lemma one_page_put: "mapped (one_page k) a (length bs) \<Longrightarrow> one_page (put k a bs) = store (one_page k) a bs"
proof
  fix x :: u64
  assume m: "mapped (one_page k) a (length bs)"
  have "page_of 12 x = 0x1000" if "unat (x - a) < length bs"
    using m [unfolded mapped_def, rule_format, OF that] by (simp add: one_page_def split: if_splits)
  then show "one_page (put k a bs) x = store (one_page k) a bs x" by (auto simp: one_page_def store_def put_def)
qed

lemma page_ops_read: "mem_laws 12 page_ops k (one_page k)" "peek_laws page_ops k (one_page k)"
  by (auto simp: mem_laws_def peek_laws_def page_ops_def) (simp_all add: one_page_def split: if_splits)

lemma page_ops_laws: "kernel_laws 12 page_ops one_page"
proof -
  have "mapped (one_page k) a WORD_BYTES" if "page_of 3 a = a" "one_page k a \<noteq> None" for k a
    using page_mapped [OF laws_word [OF page_ops_read(1)], of a WORD_BYTES k] that by (simp add: aligned_offset)
  then show ?thesis
    by (auto simp: kernel_laws_def page_ops_read) (simp_all add: page_ops_def one_page_put)
qed

lemma no_pages_coherent: "coherent 12 mem no_pages"
  by (simp add: coherent_def no_pages_def nth_append)

lemma in_page:
  assumes "page_offset 12 a + n \<le> 2 ^ 12" "page_of 12 a = 0x1000"
  shows "mapped (one_page k) a n"
proof (cases "n = 0")
  case False
  moreover have "one_page k a \<noteq> None" using assms(2) by (simp add: one_page_def)
  ultimately show ?thesis using page_mapped [OF page_ops_read(1) assms(1)] by simp
qed (simp add: mapped_def)

section \<open>What copying achieves\<close>

text \<open>C11: reading from a tracee, through the cache or one word after the other, succeeds exactly when the address
  fits the tracee's word size and the whole range is mapped; the bytes are then those of the memory. The
  cache keeps agreeing with the memory, whatever it held of it before.\<close>

theorem umoven_correct:
  assumes "coherent pb mem st" "mem_laws pb M k mem" "peek_laws M k mem" "3 \<le> pb" "pb < 32" "len < 2 ^ 32 - 1"
    and "umoven M pb wordsize k a len st = ((r, bs), st')"
  shows "coherent pb mem st' \<and>
    r = (if \<not> tracee_addr_is_invalid wordsize a \<and> mapped mem a len then 0 else - 1) \<and> (r = 0 \<longrightarrow> bs = bytes mem a len)"
  using umoven_spec [OF assms] by blast

theorem umoven_correct_witness:
  "fst (umoven page_ops 12 8 (\<lambda>a. ucast a) 0x1ff8 8 no_pages) = (0, [0xf8, 0xf9, 0xfa, 0xfb, 0xfc, 0xfd, 0xfe, 0xff]) \<and>
   fst (fst (umoven page_ops 12 8 (\<lambda>a. ucast a) 0x1ff8 9 no_pages)) = - 1"
proof -
  obtain r bs st r' bs' st' where
    u: "umoven page_ops 12 8 (\<lambda>a. ucast a) 0x1ff8 8 no_pages = ((r, bs), st)"
    and u': "umoven page_ops 12 8 (\<lambda>a. ucast a) 0x1ff8 9 no_pages = ((r', bs'), st')" by (metis prod.exhaust)
  have "mapped (one_page (\<lambda>a. ucast a)) 0x1ff8 8"
    by (rule in_page) (simp_all add: page_offset_def page_of_def mask_eq_exp_minus_1)
  moreover have "\<not> mapped (one_page (\<lambda>a. ucast a)) 0x1ff8 9"
    unfolding mapped_def one_page_def page_of_def by (intro notI) (drule spec [of _ 8], simp add: mask_eq_exp_minus_1)
  moreover have "bytes (one_page (\<lambda>a. ucast a)) 0x1ff8 8 = [0xf8, 0xf9, 0xfa, 0xfb, 0xfc, 0xfd, 0xfe, 0xff]"
    by (simp add: bytes_def one_page_def page_of_def upt_rec mask_eq_exp_minus_1)
  moreover have "\<not> tracee_addr_is_invalid 8 0x1ff8" by (simp add: tracee_addr_is_invalid_def)
  ultimately show ?thesis
    using umoven_correct [OF no_pages_coherent page_ops_read _ _ _ u] umoven_correct [OF no_pages_coherent page_ops_read _ _ _ u'] u u'
    by simp
qed



text \<open>C13: what is written to a mapped range, by the system call or one word after the other when the system call
  is not there or not permitted, is stored as a whole and nowhere else, and is what is read back after
  the cache has been dropped.\<close>

theorem upoken_umoven:
  assumes "kernel_laws pb M mem_of" "3 \<le> pb" "pb < 32" "coherent pb (mem_of k) st" "length bs < 2 ^ 32 - 1"
    and "mapped (mem_of k) a (length bs)" "\<not> tracee_addr_is_invalid wordsize a"
    and "upoken M wordsize a bs st k = (n, st', k')"
  shows "n = length bs \<and> mem_of k' = store (mem_of k) a bs \<and>
    fst (umoven M pb wordsize k' a (length bs) (invalidate_umove_cache st')) = (0, bs)"
proof -
  have w: "n = length bs" "mem_of k' = store (mem_of k) a bs"
    using upoken_spec [OF assms(1,2,6,5,7,8)] by simp_all
  obtain b where "st' = st\<lparr>writev_not_supported := b\<rparr>" using upoken_state [OF assms(8)] by blast
  then have c: "coherent pb (mem_of k') (invalidate_umove_cache st')"
    using assms(4) by (simp add: coherent_invalidate coherent_writev)
  obtain r rs st2 where u: "umoven M pb wordsize k' a (length bs) (invalidate_umove_cache st') = ((r, rs), st2)"
    by (metis prod.exhaust)
  note m = umoven_spec [OF c laws_read [OF assms(1)] assms(2,3,5) u]
  have "r = 0" using m(2) assms(6,7) by (simp add: w(2) mapped_store)
  moreover have "bytes (mem_of k') a (length bs) = bs" unfolding w(2) by (rule bytes_store) (use assms(5) in simp)
  ultimately show ?thesis using m(3) w u by simp
qed

theorem upoken_umoven_witness:
  "case upoken page_ops 8 0x1003 [1, 2, 3] no_pages (\<lambda>a. 0) of (n, st, k) \<Rightarrow>
     n = 3 \<and> k 0x1004 = 2 \<and> k 0x1006 = 0 \<and> fst (umoven page_ops 12 8 k 0x1003 3 (invalidate_umove_cache st)) = (0, [1, 2, 3])"
proof -
  obtain n st k where u: "upoken page_ops 8 0x1003 [1, 2, 3] no_pages (\<lambda>a. 0) = (n, st, k)" by (metis prod.exhaust)
  have m: "mapped (one_page (\<lambda>a. 0)) 0x1003 (length [1, 2, 3 :: u8])"
    by (rule in_page) (simp_all add: page_offset_def page_of_def mask_eq_exp_minus_1)
  have "\<not> tracee_addr_is_invalid 8 0x1003" by (simp add: tracee_addr_is_invalid_def)
  from upoken_umoven [OF page_ops_laws _ _ no_pages_coherent _ m this u]
  have r: "n = 3" "one_page k = store (one_page (\<lambda>a. 0)) 0x1003 [1, 2, 3]"
    "fst (umoven page_ops 12 8 k 0x1003 3 (invalidate_umove_cache st)) = (0, [1, 2, 3])"
    by (simp_all add: numeral_3_eq_3)
  have at: "one_page k x = store (one_page (\<lambda>a. 0)) 0x1003 [1, 2, 3] x" for x using r(2) by simp
  from at [of "0x1004"] at [of "0x1006"] have "k 0x1004 = 2" "k 0x1006 = 0" by (simp_all add: one_page_def store_def page_of_def mask_eq_exp_minus_1)
  then show ?thesis using u r by simp
qed

text \<open>C38: writing to a tracee does not drop the cache. A range inside a page that has been read since the last
  event is read again as it was before, whatever has been written to it in between: an injection that
  changes an argument after the paths of the call have been matched is not seen by the decoder that
  prints the argument.\<close>

theorem poke_not_seen:
  assumes "coherent pb mem st" "mem_laws pb M k mem" "peek_laws M k mem" "3 \<le> pb" "pb < 32" "\<not> readv_not_supported st"
    and "inside_page pb a len" "len < 2 ^ 32 - 1"
    and "umoven M pb wordsize k a len st = ((0, bs), st1)" "upoken M wordsize b data st1 k = (n, st2, k')"
  shows "umoven M pb wordsize k' a len st2 = ((0, bs), st2)"
proof -
  note m = umoven_spec [OF assms(1-5,8,9)]
  have valid: "\<not> tracee_addr_is_invalid wordsize a" using m(2) by (simp split: if_splits)
  obtain rc st1' where rc: "vm_read_mem M pb k a len st = (rc, st1')" by fastforce
  have "len < 2 ^ 32" using assms(8) by simp
  note v = vm_read_mem_spec [OF assms(1,2,5) this rc]
  have "rc = Inr (bytes mem a len)" using v m(2) valid by (simp split: if_splits)
  moreover from this have "st1' = st1" using assms(6,8,9) valid rc by (simp add: umoven_def)
  ultimately obtain idx where "lookup_cached_raddr_idx (page_of pb a) st1 = Some idx"
    using read_is_cached [OF assms(1,7,5)] rc by metis
  moreover obtain w where st2: "st2 = st1\<lparr>writev_not_supported := w\<rparr>" using upoken_state [OF assms(10)] by blast
  ultimately have "vm_read_mem M pb k' a len st2 = (Inr (bytes mem a len), st2)"
    using m(1) by (intro cached_read [OF _ _ assms(7,5)]) (simp_all add: coherent_writev)
  moreover have "\<not> readv_not_supported st2" using v assms(6) \<open>st1' = st1\<close> st2 by simp
  ultimately show ?thesis using valid assms(8) m(3) by (simp add: umoven_def)
qed

theorem poke_not_seen_witness:
  "let st1 = snd (umoven page_ops 12 8 (\<lambda>a. 7) 0x1003 1 no_pages);
       (n, st2, k) = upoken page_ops 8 0x1003 [1] st1 (\<lambda>a. 7)
   in n = 1 \<and> k 0x1003 = 1 \<and> fst (umoven page_ops 12 8 k 0x1003 1 st2) = (0, [7])"
proof -
  let ?k = "\<lambda>a :: u64. 7 :: u8"
  obtain r bs st1 where u: "umoven page_ops 12 8 ?k 0x1003 1 no_pages = ((r, bs), st1)" by (metis prod.exhaust)
  obtain n st2 k where p: "upoken page_ops 8 0x1003 [1] st1 ?k = (n, st2, k)" by (metis prod.exhaust)
  have m: "mapped (one_page ?k) 0x1003 (length [1 :: u8])"
    by (rule in_page) (simp_all add: page_offset_def page_of_def mask_eq_exp_minus_1)
  have valid: "\<not> tracee_addr_is_invalid 8 0x1003" by (simp add: tracee_addr_is_invalid_def)
  have "r = 0" "bs = [7]"
    using umoven_spec [OF no_pages_coherent page_ops_read _ _ _ u] m valid
    by (simp_all add: bytes_def one_page_def page_of_def mask_eq_exp_minus_1)
  moreover have "inside_page 12 0x1003 1"
    by (simp add: inside_page_def page_offset_def page_of_def mask_eq_exp_minus_1)
  moreover have "\<not> readv_not_supported no_pages" by (simp add: no_pages_def)
  ultimately have old: "umoven page_ops 12 8 k 0x1003 1 st2 = ((0, [7]), st2)"
    using poke_not_seen [OF no_pages_coherent page_ops_read _ _ _ _ _ _ p] u by simp
  have "n = 1" "one_page k = store (one_page ?k) 0x1003 [1]"
    using upoken_spec [OF page_ops_laws _ m _ valid p] by simp_all
  moreover from this(2) have "one_page k x = store (one_page ?k) 0x1003 [1] x" for x by simp
  from this [of "0x1003"] have "k 0x1003 = 1" by (simp add: one_page_def store_def page_of_def mask_eq_exp_minus_1)
  ultimately show ?thesis using u p old by simp
qed

text \<open>the older way of reading a string counts from the beginning of the word that holds the first byte, so at an
  address that is not aligned its result is too large by the residue; and a zero after the limit, in
  the word of the last byte, counts as the end of a string that the buffer does not hold.\<close>

lemma umovestr_peekdata_residue:
  assumes "peek_laws M k mem" "mem_laws 3 M k mem" "0 < len" "page_offset 3 a + n < WORD_BYTES"
    and "\<forall>i < n. \<exists>x. mem (a + of_nat i) = Some x \<and> x \<noteq> 0" "mem (a + of_nat n) = Some 0"
  shows "fst (umovestr_peekdata M k a len 0) = int (page_offset 3 a + n + 1) \<and>
    string_spec mem a len = (if n < len then int n + 1 else 0)"
proof
  let ?o = "page_offset 3 a" and ?w = "bytes mem (page_of 3 a) WORD_BYTES"
  note p = peek_word [OF assms(1,2)]
  have "mem a \<noteq> None" using assms(5,6) by (cases n) auto
  then have peek: "mo_peek M (page_of 3 a) k = Inr ?w" using p(1) by simp
  have w: "?w ! (?o + i) = the (mem (a + of_nat i))" if "?o + i < WORD_BYTES" for i
    using that by (simp add: bytes_def add.assoc [symmetric] page_split)
  have "find (\<lambda>j. ?w ! j = 0) [?o..<WORD_BYTES] = Some (?o + n)"
    unfolding find_upt_Some
  proof (intro conjI allI impI)
    show "?w ! (?o + n) = 0" using w [of n] assms(4,6) by simp
    show "?w ! i \<noteq> 0" if "?o \<le> i \<and> i < ?o + n" for i
    proof -
      have "i - ?o < n" using that by arith
      then obtain x where "mem (a + of_nat (i - ?o)) = Some x" "x \<noteq> 0" using assms(5) by blast
      then show ?thesis using w [of "i - ?o"] assms(4) that by simp
    qed
  qed (use assms(4) in simp_all)
  then show "fst (umovestr_peekdata M k a len 0) = int (?o + n + 1)"
    using assms(3) peek by (subst umovestr_peekdata.simps) (simp add: word_page Let_def)
  show "string_spec mem a len = (if n < len then int n + 1 else 0)"
  proof (cases "n < len")
    case True
    then show ?thesis using string_spec_zero [of n mem a len] assms(5,6) by simp
  next
    case False
    then show ?thesis using string_spec_skip [of len mem a len] assms(5) by simp
  qed
qed

end
