(* ===== verification/Trie.thy ===== *)
theory Trie
  imports Prelude
begin

text \<open>
  The tries of \<^verbatim>\<open>src/src/trie.c\<close>, which map keys of up to 64 bits to items of \<open>2 ^ item_size_lg\<close> bits.
  A pointer to a block of items is the list of the positions that lead to it. The sizes are unsigned
  bytes in the code; for the tries that can be created no sum of them reaches 256. Memory is not
  exhausted.
\<close>

datatype node =
    Null
  | Block "u64 list"    \<comment> \<open>a data block\<close>
  | Inner "node list"   \<comment> \<open>pointers to the nodes of the next level\<close>

record trie =
  empty_value :: u64
  fill_value :: u64
  t_data :: node
  key_size :: nat
  item_size_lg :: nat
  node_key_bits :: nat
  data_block_key_bits :: nat
  max_depth :: nat

abbreviation ptr_sz_lg :: nat where "ptr_sz_lg \<equiv> 6"

section \<open>The operations\<close>

definition trie_get_node_size :: "trie \<Rightarrow> nat \<Rightarrow> nat" where
  "trie_get_node_size t depth =
     (if depth = max_depth t then data_block_key_bits t + item_size_lg t
      else if Suc depth = max_depth t
      then (key_size t - data_block_key_bits t - 1) mod node_key_bits t + 1 + ptr_sz_lg
      else node_key_bits t + ptr_sz_lg)"

definition trie_get_node_bit_offs :: "trie \<Rightarrow> nat \<Rightarrow> nat" where
  "trie_get_node_bit_offs t depth =
     (if depth = max_depth t then 0
      else let offs = data_block_key_bits t
        in if Suc depth = max_depth t then offs
           else offs + (trie_get_node_size t (max_depth t - 1) - ptr_sz_lg) + (max_depth t - depth - 2) * node_key_bits t)"

definition fill_step :: "nat \<Rightarrow> nat \<Rightarrow> u64 \<Rightarrow> u64" where
  "fill_step item_lg i v = v OR push_bit (2 ^ (item_lg + i)) v"

definition trie_create :: "nat \<Rightarrow> nat \<Rightarrow> nat \<Rightarrow> nat \<Rightarrow> u64 \<Rightarrow> trie option" where
  "trie_create ks item_lg node_bits block_bits ev =
     (if item_lg > 6 then None
      else if ks > 64 then None
      else if node_bits < 1 then None
      else if block_bits < 1 \<or> block_bits > ks then None
      else let ev = ev AND mask (2 ^ item_lg)
        in Some \<lparr>empty_value = ev, fill_value = fold (fill_step item_lg) [0..<6 - item_lg] ev, t_data = Null,
             key_size = ks, item_size_lg = item_lg, node_key_bits = node_bits, data_block_key_bits = block_bits,
             max_depth = (ks - block_bits + node_bits - 1) div node_bits\<rparr>)"

definition trie_create_data_block :: "trie \<Rightarrow> u64 list" where
  "trie_create_data_block t = replicate (2 ^ (max 6 (data_block_key_bits t + item_size_lg t) - 6)) (fill_value t)"

definition trie_pos :: "trie \<Rightarrow> u64 \<Rightarrow> nat \<Rightarrow> nat" where
  "trie_pos t key depth =
     unat (drop_bit (trie_get_node_bit_offs t depth) key AND mask (trie_get_node_size t depth - ptr_sz_lg))"

text \<open>The loop of \<^verbatim>\<open>trie_get_node\<close>, with \<open>r\<close> levels left: the pointer and the node afterwards.\<close>

primrec trie_get_node_loop :: "trie \<Rightarrow> u64 \<Rightarrow> bool \<Rightarrow> nat \<Rightarrow> node \<Rightarrow> nat list option \<times> node" where
  "trie_get_node_loop t key auto_create 0 n =
     (if n = Null then (if auto_create then (Some [], Block (trie_create_data_block t)) else (None, n)) else (Some [], n))"
| "trie_get_node_loop t key auto_create (Suc r) n =
     (let depth = max_depth t - Suc r;
          n = (if n = Null \<and> auto_create then Inner (replicate (2 ^ trie_get_node_size t depth div 8) Null) else n)
      in case n of
           Inner cs \<Rightarrow>
             let pos = trie_pos t key depth; (p, c) = trie_get_node_loop t key auto_create r (cs ! pos)
             in (map_option ((#) pos) p, Inner (cs[pos := c]))
         | _ \<Rightarrow> (None, n))"

definition trie_get_node :: "trie \<Rightarrow> u64 \<Rightarrow> bool \<Rightarrow> nat list option \<times> trie" where
  "trie_get_node t key auto_create =
     (if key_size t < 64 \<and> key > mask (key_size t) then (None, t)
      else case trie_get_node_loop t key auto_create (max_depth t) (t_data t) of (p, n) \<Rightarrow> (p, t\<lparr>t_data := n\<rparr>))"

text \<open>The block behind a pointer, and a change of it.\<close>

fun deref :: "nat list \<Rightarrow> node \<Rightarrow> u64 list" where
  "deref [] (Block b) = b"
| "deref (i # p) (Inner cs) = deref p (cs ! i)"
| "deref _ _ = []"

fun assign :: "nat list \<Rightarrow> (u64 list \<Rightarrow> u64 list) \<Rightarrow> node \<Rightarrow> node" where
  "assign [] f (Block b) = Block (f b)"
| "assign (i # p) f (Inner cs) = Inner (cs[i := assign p f (cs ! i)])"
| "assign _ f n = n"

text \<open>The index of the word of an item, its mask and its offset in the word.\<close>

definition trie_data_block_calc_pos :: "trie \<Rightarrow> u64 \<Rightarrow> nat \<times> u64 \<times> nat" where
  "trie_data_block_calc_pos t key =
     (let pos = unat (drop_bit (6 - item_size_lg t) (key AND mask (data_block_key_bits t)))
      in if item_size_lg t = 6 then (pos, - 1, 0)
         else let offs = unat (push_bit (item_size_lg t) (key AND mask (6 - item_size_lg t)))
           in (pos, push_bit offs (mask (2 ^ item_size_lg t)), offs))"

definition block_set :: "trie \<Rightarrow> u64 \<Rightarrow> u64 \<Rightarrow> u64 list \<Rightarrow> u64 list" where
  "block_set t key val b =
     (case trie_data_block_calc_pos t key of (pos, m, offs) \<Rightarrow>
        b[pos := (b ! pos AND NOT m) OR (push_bit offs val AND m)])"

definition trie_set :: "trie \<Rightarrow> u64 \<Rightarrow> u64 \<Rightarrow> bool \<times> trie" where
  "trie_set t key val =
     (case trie_get_node t key True of
        (None, t) \<Rightarrow> (False, t)
      | (Some p, t) \<Rightarrow> (True, t\<lparr>t_data := assign p (block_set t key val) (t_data t)\<rparr>))"

definition trie_data_block_get :: "trie \<Rightarrow> u64 list option \<Rightarrow> u64 \<Rightarrow> u64" where
  "trie_data_block_get t b key =
     (case b of
        None \<Rightarrow> empty_value t
      | Some b \<Rightarrow> case trie_data_block_calc_pos t key of (pos, m, offs) \<Rightarrow> drop_bit offs (b ! pos AND m))"

definition trie_get :: "trie \<Rightarrow> u64 \<Rightarrow> u64" where
  "trie_get t key =
     (case trie_get_node t key False of (p, t) \<Rightarrow> trie_data_block_get t (map_option (\<lambda>p. deref p (t_data t)) p) key)"

text \<open>
  The calls of the function an iteration makes, and the number it returns; None when the loop over a
  block never ends, because every key is at most \<open>2 ^ 64 - 1\<close>.
\<close>

fun iterate_all :: "((u64 \<times> u64) list \<times> u64) option list \<Rightarrow> ((u64 \<times> u64) list \<times> u64) option" where
  "iterate_all [] = Some ([], 0)"
| "iterate_all (r # rs) =
     (case r of
        None \<Rightarrow> None
      | Some (calls, n) \<Rightarrow> map_option (\<lambda>(calls', n'). (calls @ calls', n + n')) (iterate_all rs))"

definition iterate_block :: "trie \<Rightarrow> u64 list \<Rightarrow> u64 \<Rightarrow> u64 \<Rightarrow> ((u64 \<times> u64) list \<times> u64) option" where
  "iterate_block t b start stop =
     (if stop = - 1 then None
      else Some (map (\<lambda>i. (of_nat i, trie_data_block_get t (Some b) (of_nat i))) [unat start..<unat stop + 1],
                 stop - start + 1))"

primrec trie_iterate_keys_node ::
    "trie \<Rightarrow> nat \<Rightarrow> node \<Rightarrow> u64 \<Rightarrow> u64 \<Rightarrow> ((u64 \<times> u64) list \<times> u64) option" where
  "trie_iterate_keys_node t 0 n start stop =
     (if start > stop \<or> n = Null then Some ([], 0)
      else let stop = (if key_size t < 64 then min stop (mask (key_size t)) else stop)
        in case n of Block b \<Rightarrow> iterate_block t b start stop | _ \<Rightarrow> Some ([], 0))"
| "trie_iterate_keys_node t (Suc r) n start stop =
     (if start > stop \<or> n = Null then Some ([], 0)
      else let stop = (if key_size t < 64 then min stop (mask (key_size t)) else stop);
               depth = max_depth t - Suc r;
               parent_node_bit_off = (if depth = 0 then key_size t else trie_get_node_bit_offs t (depth - 1));
               first_key_in_node = start AND NOT (mask parent_node_bit_off);
               node_bit_off = trie_get_node_bit_offs t depth;
               m = mask (parent_node_bit_off - node_bit_off);
               start_index = unat (drop_bit node_bit_off start AND m);
               end_index = unat (drop_bit node_bit_off stop AND m);
               child_key_count = push_bit node_bit_off 1
        in iterate_all (map (\<lambda>i.
             let child_start = first_key_in_node + of_nat i * child_key_count;
                 child_end = first_key_in_node + (of_nat i + 1) * child_key_count - 1
             in trie_iterate_keys_node t r (case n of Inner cs \<Rightarrow> cs ! i | _ \<Rightarrow> Null)
                  (max child_start start) (min child_end stop))
             [start_index..<end_index + 1]))"

definition trie_iterate_keys :: "trie \<Rightarrow> u64 \<Rightarrow> u64 \<Rightarrow> ((u64 \<times> u64) list \<times> u64) option" where
  "trie_iterate_keys t start stop = trie_iterate_keys_node t (max_depth t) (t_data t) start stop"

section \<open>The levels of a trie\<close>

text \<open>
  A trie that \<^verbatim>\<open>trie_create\<close> has made, with sizes for which the shifts of the code are defined: a node
  has fewer than \<open>2 ^ 64\<close> bits, a block of items fewer than \<open>2 ^ 38\<close>.
\<close>

definition trie_ok :: "trie \<Rightarrow> bool" where
  "trie_ok t \<longleftrightarrow> item_size_lg t \<le> 6 \<and> key_size t \<le> 64 \<and> 1 \<le> node_key_bits t \<and> node_key_bits t + ptr_sz_lg < 64 \<and>
     1 \<le> data_block_key_bits t \<and> data_block_key_bits t \<le> key_size t \<and> data_block_key_bits t + item_size_lg t < 38 \<and>
     max_depth t = (key_size t - data_block_key_bits t + node_key_bits t - 1) div node_key_bits t \<and>
     empty_value t = take_bit (2 ^ item_size_lg t) (empty_value t) \<and>
     (\<forall>n < 64. bit (fill_value t) n \<longleftrightarrow> bit (empty_value t) (n mod 2 ^ item_size_lg t))"

primrec node_ok :: "trie \<Rightarrow> nat \<Rightarrow> node \<Rightarrow> bool" where
  "node_ok t 0 n = (case n of Null \<Rightarrow> True | Block b \<Rightarrow> length b = 2 ^ (max 6 (data_block_key_bits t + item_size_lg t) - 6) | Inner cs \<Rightarrow> False)"
| "node_ok t (Suc r) n =
     (case n of Null \<Rightarrow> True | Block b \<Rightarrow> False
      | Inner cs \<Rightarrow> length cs = 2 ^ trie_get_node_size t (max_depth t - Suc r) div 8 \<and> (\<forall>c \<in> set cs. node_ok t r c))"

definition trie_inv :: "trie \<Rightarrow> bool" where
  "trie_inv t \<longleftrightarrow> trie_ok t \<and> node_ok t (max_depth t) (t_data t)"

lemma node_ok_Null [simp]: "node_ok t r Null"
  by (cases r) simp_all

text \<open>The bits of a key below which the nodes at a depth distinguish keys.\<close>

definition parent_off :: "trie \<Rightarrow> nat \<Rightarrow> nat" where
  "parent_off t depth = (if depth = 0 then key_size t else trie_get_node_bit_offs t (depth - 1))"

definition node_width :: "trie \<Rightarrow> nat \<Rightarrow> nat" where
  "node_width t depth = trie_get_node_size t depth - ptr_sz_lg"

definition last_width :: "trie \<Rightarrow> nat" where
  "last_width t = (key_size t - data_block_key_bits t - 1) mod node_key_bits t + 1"

lemma offs_last:
  "max_depth t = Suc d \<Longrightarrow> trie_get_node_bit_offs t d = data_block_key_bits t"
  "max_depth t = Suc d \<Longrightarrow> node_width t d = last_width t"
  by (simp_all add: trie_get_node_bit_offs_def trie_get_node_size_def node_width_def last_width_def Let_def)

lemma offs_inner:
  "max_depth t = d + 2 + j \<Longrightarrow> trie_get_node_bit_offs t d = data_block_key_bits t + last_width t + j * node_key_bits t"
  "max_depth t = d + 2 + j \<Longrightarrow> node_width t d = node_key_bits t"
  by (simp_all add: trie_get_node_bit_offs_def trie_get_node_size_def node_width_def last_width_def Let_def)

lemma depth_sum:
  assumes "trie_ok t" "max_depth t = Suc d"
  shows "key_size t = data_block_key_bits t + last_width t + d * node_key_bits t"
proof -
  let ?N = "key_size t - data_block_key_bits t" and ?b = "node_key_bits t"
  have b: "1 \<le> ?b" "data_block_key_bits t \<le> key_size t" and d: "max_depth t = (?N + ?b - 1) div ?b"
    using assms(1) by (simp_all add: trie_ok_def)
  have n: "?N > 0"
  proof (rule ccontr)
    assume "\<not> ?N > 0"
    then have "max_depth t = 0" using d b(1) by simp
    then show False using assms(2) by simp
  qed
  then have "?N + ?b - 1 = (?N - 1) + ?b" by simp
  then have "Suc d = (?N - 1 + ?b) div ?b" using d assms(2) by simp
  also have "\<dots> = Suc ((?N - 1) div ?b)" using b(1) by (subst div_add_self2) simp_all
  finally have "(?N - 1) mod ?b + d * ?b = ?N - 1" by simp
  then show ?thesis using n b(2) unfolding last_width_def by linarith
qed

lemma parent_off_step:
  assumes "trie_ok t" "depth < max_depth t"
  shows "parent_off t depth = trie_get_node_bit_offs t depth + node_width t depth"
proof (cases depth)
  case 0
  show ?thesis
  proof (cases "max_depth t = 1")
    case True
    then show ?thesis using 0 depth_sum [OF assms(1), of 0] offs_last [of t 0] by (simp add: parent_off_def)
  next
    case False
    then obtain j where "max_depth t = 0 + 2 + j" using assms(2) le_Suc_ex [of 2 "max_depth t"] by auto
    then show ?thesis using 0 depth_sum [OF assms(1), of "Suc j"] offs_inner [of t 0 j] by (simp add: parent_off_def)
  qed
next
  case (Suc d)
  then obtain j where j: "max_depth t = d + 2 + j" using assms(2) le_Suc_ex [of "d + 2" "max_depth t"] by auto
  show ?thesis
  proof (cases j)
    case 0
    then show ?thesis using Suc j offs_inner [of t d 0] offs_last [of t depth] by (simp add: parent_off_def)
  next
    case j': (Suc i)
    then show ?thesis using Suc j offs_inner(1) [of t d j] offs_inner [of t depth i] by (simp add: parent_off_def)
  qed
qed

lemma parent_off_max: "trie_ok t \<Longrightarrow> parent_off t (max_depth t) = data_block_key_bits t"
proof (cases "max_depth t")
  case 0
  moreover assume "trie_ok t"
  ultimately have "key_size t - data_block_key_bits t + node_key_bits t - 1 < node_key_bits t" "1 \<le> node_key_bits t"
    "data_block_key_bits t \<le> key_size t" by (auto simp: trie_ok_def div_eq_0_iff)
  then show ?thesis using 0 by (simp add: parent_off_def)
qed (simp add: parent_off_def offs_last)

lemma bit_offs_ge:
  "trie_ok t \<Longrightarrow> depth < max_depth t \<Longrightarrow> data_block_key_bits t \<le> trie_get_node_bit_offs t depth"
  by (simp add: trie_get_node_bit_offs_def Let_def)

section \<open>Blocks\<close>

text \<open>Looking for a block changes nothing.\<close>

lemma get_node_loop_False: "snd (trie_get_node_loop t key False r n) = n"
proof (induction r arbitrary: n)
  case (Suc r)
  show ?case
  proof (cases n)
    case (Inner cs)
    then show ?thesis
      using Suc.IH [of "cs ! trie_pos t key (max_depth t - Suc r)"] by (simp add: Let_def case_prod_beta)
  qed simp_all
qed simp

definition block_of :: "trie \<Rightarrow> u64 \<Rightarrow> nat \<Rightarrow> node \<Rightarrow> u64 list option" where
  "block_of t key r n = map_option (\<lambda>p. deref p n) (fst (trie_get_node_loop t key False r n))"

definition change_block :: "trie \<Rightarrow> u64 \<Rightarrow> (u64 list \<Rightarrow> u64 list) \<Rightarrow> nat \<Rightarrow> node \<Rightarrow> node" where
  "change_block t key f r n =
     (case trie_get_node_loop t key True r n of (None, n) \<Rightarrow> n | (Some p, n) \<Rightarrow> assign p f n)"

lemma block_of_simps [simp]:
  "block_of t key r Null = None"
  "block_of t key 0 (Block b) = Some b"
  "block_of t key (Suc r) (Inner cs) = block_of t key r (cs ! trie_pos t key (max_depth t - Suc r))"
  by (cases r; simp add: block_of_def)
    (simp_all add: block_of_def Let_def case_prod_beta option.map_comp comp_def)

definition children :: "trie \<Rightarrow> nat \<Rightarrow> node \<Rightarrow> node list" where
  "children t r n = (case n of Inner cs \<Rightarrow> cs | _ \<Rightarrow> replicate (2 ^ trie_get_node_size t (max_depth t - Suc r) div 8) Null)"

lemma trie_pos_less: "trie_pos t key depth < 2 ^ node_width t depth"
proof -
  have "trie_pos t key depth = take_bit (node_width t depth) (unat (drop_bit (trie_get_node_bit_offs t depth) key))"
    by (simp add: trie_pos_def node_width_def take_bit_eq_mask [symmetric] unsigned_take_bit_eq)
  then show ?thesis by simp
qed

lemma node_size: "trie_ok t \<Longrightarrow> depth < max_depth t \<Longrightarrow> 2 ^ node_width t depth \<le> (2 ^ trie_get_node_size t depth div 8 :: nat)"
proof -
  assume "trie_ok t" "depth < max_depth t"
  then have "trie_get_node_size t depth = node_width t depth + 3 + 3"
    by (auto simp: node_width_def trie_get_node_size_def)
  then have "(2 :: nat) ^ trie_get_node_size t depth div 8 = 2 ^ node_width t depth * 8"
    by (simp only: power_add) simp
  then show ?thesis by simp
qed

lemma children_ok:
  assumes "trie_ok t" "node_ok t (Suc r) n" "Suc r \<le> max_depth t"
  shows "trie_pos t key (max_depth t - Suc r) < length (children t r n)" "\<forall>c \<in> set (children t r n). node_ok t r c"
    "length (children t r n) = 2 ^ trie_get_node_size t (max_depth t - Suc r) div 8"
proof -
  show l: "length (children t r n) = 2 ^ trie_get_node_size t (max_depth t - Suc r) div 8"
    using assms(2) by (simp add: children_def split: node.splits)
  have "max_depth t - Suc r < max_depth t" using assms(3) by simp
  then show "trie_pos t key (max_depth t - Suc r) < length (children t r n)"
    unfolding l by (rule less_le_trans [OF trie_pos_less node_size [OF assms(1)]])
  show "\<forall>c \<in> set (children t r n). node_ok t r c" using assms(2) by (auto simp: children_def split: node.splits)
qed

lemma block_of_children:
  assumes "trie_ok t" "node_ok t (Suc r) n" "Suc r \<le> max_depth t"
  shows "block_of t key (Suc r) n = block_of t key r (children t r n ! trie_pos t key (max_depth t - Suc r))"
  using children_ok(1) [OF assms, of key] assms(2) by (cases n) (simp_all add: children_def)

text \<open>The block is there after it has been asked for, and a change of it is found in the trie.\<close>

lemma get_node_loop_True:
  assumes "trie_ok t" "node_ok t r n" "r \<le> max_depth t"
  shows "\<exists>p n'. trie_get_node_loop t key True r n = (Some p, n') \<and> node_ok t r n'"
  using assms(2,3)
proof (induction r arbitrary: n)
  case 0
  then show ?case by (auto simp: trie_create_data_block_def)
next
  case (Suc r)
  let ?pos = "trie_pos t key (max_depth t - Suc r)"
  note c = children_ok(1) [OF assms(1) Suc.prems(1,2), of key] children_ok(2,3) [OF assms(1) Suc.prems(1,2)]
  obtain p n' where p: "trie_get_node_loop t key True r (children t r n ! ?pos) = (Some p, n')" "node_ok t r n'"
    using Suc.IH [of "children t r n ! ?pos"] c(1,2) Suc.prems(2) by auto
  have "trie_get_node_loop t key True (Suc r) n = (Some (?pos # p), Inner ((children t r n)[?pos := n']))"
    using p(1) Suc.prems(1) by (cases n) (simp_all add: children_def Let_def)
  moreover have "node_ok t (Suc r) (Inner ((children t r n)[?pos := n']))"
    using c(2,3) p(2) set_update_subset_insert [of "children t r n" ?pos n'] by auto
  ultimately show ?case by blast
qed

lemma change_block_Suc:
  assumes "trie_ok t" "node_ok t (Suc r) n" "Suc r \<le> max_depth t"
    and pos: "pos = trie_pos t key (max_depth t - Suc r)"
  shows "change_block t key f (Suc r) n = Inner ((children t r n)[pos := change_block t key f r (children t r n ! pos)])"
proof -
  note c = children_ok(1) [OF assms(1-3), of key, folded pos] children_ok(2,3) [OF assms(1-3)]
  obtain p n' where p: "trie_get_node_loop t key True r (children t r n ! pos) = (Some p, n')"
    using get_node_loop_True [OF assms(1), of r "children t r n ! pos" key] c(1,2) assms(3) by auto
  have "trie_get_node_loop t key True (Suc r) n = (Some (pos # p), Inner ((children t r n)[pos := n']))"
    using p assms(2) unfolding pos by (cases n) (simp_all add: children_def Let_def)
  then show ?thesis using p c(1) by (simp add: change_block_def)
qed

lemma pos_iff:
  assumes "trie_ok t" "depth < max_depth t" "drop_bit (parent_off t depth) k = drop_bit (parent_off t depth) k'"
  shows "trie_pos t k depth = trie_pos t k' depth \<longleftrightarrow>
    drop_bit (trie_get_node_bit_offs t depth) k = drop_bit (trie_get_node_bit_offs t depth) k'"
proof -
  let ?o = "trie_get_node_bit_offs t depth" and ?w = "node_width t depth"
  have high: "bit k n = bit k' n" if "n \<ge> ?o + ?w" for n
  proof -
    have "bit (drop_bit (?o + ?w) x) (n - (?o + ?w)) = bit x n" for x :: u64 using that by (simp add: bit_simps)
    then show ?thesis using assms(3) unfolding parent_off_step [OF assms(1,2)] by metis
  qed
  have "trie_pos t k depth = trie_pos t k' depth \<longleftrightarrow> take_bit ?w (drop_bit ?o k) = take_bit ?w (drop_bit ?o k')"
    by (simp add: trie_pos_def node_width_def take_bit_eq_mask word_unat_eq_iff)
  also have "\<dots> \<longleftrightarrow> drop_bit ?o k = drop_bit ?o k'"
  proof
    assume eq: "take_bit ?w (drop_bit ?o k) = take_bit ?w (drop_bit ?o k')"
    show "drop_bit ?o k = drop_bit ?o k'"
    proof (rule bit_word_eqI)
      fix n
      have "bit (take_bit ?w (drop_bit ?o k)) n = bit (take_bit ?w (drop_bit ?o k')) n" using eq by simp
      then show "bit (drop_bit ?o k) n = bit (drop_bit ?o k') n" using high [of "?o + n"] by (auto simp: bit_simps)
    qed
  qed simp
  finally show ?thesis .
qed

lemma drop_bit_mono:
  assumes "drop_bit a k = drop_bit a k'" "a \<le> b"
  shows "drop_bit b k = drop_bit b (k' :: u64)"
proof -
  have "drop_bit b x = drop_bit (b - a) (drop_bit a x)" for x :: u64 using assms(2) by (simp add: drop_bit_drop_bit)
  then show ?thesis using assms(1) by (simp only:)
qed

lemma change_block_ok:
  assumes "trie_ok t" "node_ok t r n" "r \<le> max_depth t" "\<And>b. length (f b) = length b"
  shows "node_ok t r (change_block t key f r n)"
  using assms(2,3)
proof (induction r arbitrary: n)
  case 0
  then show ?case by (cases n) (auto simp: change_block_def trie_create_data_block_def assms(4))
next
  case (Suc r)
  let ?pos = "trie_pos t key (max_depth t - Suc r)"
  note c = children_ok(1) [OF assms(1) Suc.prems(1,2), of key] children_ok(2,3) [OF assms(1) Suc.prems(1,2)]
  have "node_ok t r (change_block t key f r (children t r n ! ?pos))" using Suc.IH c(1,2) Suc.prems(2) by simp
  then show ?case
    using c(2,3) set_update_subset_insert [of "children t r n" ?pos "change_block t key f r (children t r n ! ?pos)"]
    unfolding change_block_Suc [OF assms(1) Suc.prems refl] by auto
qed

lemma block_of_change:
  assumes "trie_ok t" "node_ok t r n" "r \<le> max_depth t"
    and "drop_bit (parent_off t (max_depth t - r)) k = drop_bit (parent_off t (max_depth t - r)) k'"
  shows "block_of t k' r (change_block t k f r n) =
    (if drop_bit (data_block_key_bits t) k = drop_bit (data_block_key_bits t) k'
     then Some (f (case block_of t k' r n of None \<Rightarrow> trie_create_data_block t | Some b \<Rightarrow> b)) else block_of t k' r n)"
  using assms(2-4)
proof (induction r arbitrary: n)
  case 0
  then have "drop_bit (data_block_key_bits t) k = drop_bit (data_block_key_bits t) k'"
    using parent_off_max [OF assms(1)] by simp
  then show ?case using 0 by (cases n) (simp_all add: change_block_def)
next
  case (Suc r)
  let ?d = "max_depth t - Suc r"
  let ?pos = "trie_pos t k ?d" and ?pos' = "trie_pos t k' ?d" and ?cs = "children t r n"
  have d: "?d < max_depth t" and d': "parent_off t (max_depth t - r) = trie_get_node_bit_offs t ?d"
    using Suc.prems(2) by (simp_all add: parent_off_def)
  note c = children_ok(1) [OF assms(1) Suc.prems(1,2), of k] children_ok(2) [OF assms(1) Suc.prems(1,2)]
  note b = block_of_children [OF assms(1) Suc.prems(1,2)]
  have lhs: "block_of t k' (Suc r) (change_block t k f (Suc r) n) =
      block_of t k' r (if ?pos = ?pos' then change_block t k f r (?cs ! ?pos) else ?cs ! ?pos')"
    unfolding change_block_Suc [OF assms(1) Suc.prems(1,2) refl] using c(1) by simp
  show ?case
  proof (cases "?pos = ?pos'")
    case True
    then have "drop_bit (parent_off t (max_depth t - r)) k = drop_bit (parent_off t (max_depth t - r)) k'"
      unfolding d' using pos_iff [OF assms(1) d Suc.prems(3)] by simp
    from Suc.IH [OF _ _ this, of "?cs ! ?pos"] show ?thesis
      unfolding lhs b using True c Suc.prems(2) by simp
  next
    case False
    then have "drop_bit (trie_get_node_bit_offs t ?d) k \<noteq> drop_bit (trie_get_node_bit_offs t ?d) k'"
      using pos_iff [OF assms(1) d Suc.prems(3)] by simp
    then have "drop_bit (data_block_key_bits t) k \<noteq> drop_bit (data_block_key_bits t) k'"
      using drop_bit_mono bit_offs_ge [OF assms(1) d] by blast
    then show ?thesis unfolding lhs b using False by simp
  qed
qed

section \<open>Items\<close>

definition item_idx :: "trie \<Rightarrow> u64 \<Rightarrow> nat" where
  "item_idx t key = unat (take_bit (6 - item_size_lg t) key)"

lemma item_idx_less: "item_idx t key < 2 ^ (6 - item_size_lg t)"
  by (simp add: item_idx_def unsigned_take_bit_eq)

lemma item_end:
  assumes "item_size_lg t \<le> 6"
  shows "item_idx t key * 2 ^ item_size_lg t + 2 ^ item_size_lg t \<le> 64"
proof -
  have "item_idx t key + 1 \<le> 2 ^ (6 - item_size_lg t)" using item_idx_less [of t key] by simp
  then have "(item_idx t key + 1) * 2 ^ item_size_lg t \<le> 2 ^ (6 - item_size_lg t) * 2 ^ item_size_lg t"
    by (rule mult_le_mono1)
  also have "\<dots> = 2 ^ 6" using assms by (simp add: power_add [symmetric])
  finally show ?thesis by simp
qed

lemma calc_pos:
  assumes "item_size_lg t \<le> 6" and offs: "offs = item_idx t key * 2 ^ item_size_lg t"
  shows "trie_data_block_calc_pos t key =
    (unat (drop_bit (6 - item_size_lg t) (take_bit (data_block_key_bits t) key)), push_bit offs (mask (2 ^ item_size_lg t)), offs)"
proof -
  have "unat (push_bit (item_size_lg t) (take_bit (6 - item_size_lg t) key)) = take_bit 64 offs"
    by (simp only: unsigned_push_bit_eq) (simp add: offs item_idx_def push_bit_eq_mult)
  moreover have "(0 :: nat) < 2 ^ item_size_lg t" by simp
  then have "offs < 64" using item_end [OF assms(1), of key] unfolding offs by linarith
  then have "take_bit 64 offs = offs" by (intro take_bit_nat_eq_self) simp
  moreover have "offs = 0" "push_bit 0 (mask (2 ^ 6)) = (- 1 :: u64)" if "item_size_lg t = 6"
    using that by (simp_all add: offs item_idx_def mask_eq_exp_minus_1)
  ultimately show ?thesis
    by (auto simp: trie_data_block_calc_pos_def Let_def take_bit_eq_mask [symmetric])
qed

lemma masked_item:
  fixes x v :: u64
  assumes "offs + w \<le> 64"
  shows "drop_bit offs (((x AND NOT (push_bit offs (mask w))) OR (push_bit offs v AND push_bit offs (mask w))) AND push_bit offs (mask w)) =
    take_bit w v"
  using assms by (intro bit_word_eqI) (auto simp: bit_simps)

lemma other_item:
  fixes x v :: u64
  assumes "i \<noteq> j"
  shows "((x AND NOT (push_bit (i * w) (mask w))) OR (v AND push_bit (i * w) (mask w))) AND push_bit (j * w) (mask w) =
    x AND push_bit (j * w) (mask w)"
proof (rule bit_word_eqI)
  fix n assume "n < LENGTH(64)"
  have "\<not> (i * w \<le> n \<and> n - i * w < w \<and> j * w \<le> n \<and> n - j * w < w)"
  proof
    assume a: "i * w \<le> n \<and> n - i * w < w \<and> j * w \<le> n \<and> n - j * w < w"
    then have "n div w = i" "n div w = j" by (auto simp: div_nat_eqI mult.commute)
    then show False using assms by simp
  qed
  then show "bit (((x AND NOT (push_bit (i * w) (mask w))) OR (v AND push_bit (i * w) (mask w))) AND push_bit (j * w) (mask w)) n =
      bit (x AND push_bit (j * w) (mask w)) n"
    by (auto simp: bit_simps)
qed

lemma same_item:
  assumes "drop_bit a k = drop_bit a (k' :: u64)" "drop_bit c (take_bit a k) = drop_bit c (take_bit a k')"
    and "take_bit c k = take_bit c k'"
  shows "k = k'"
proof (rule bit_word_eqI)
  fix n assume "n < LENGTH(64)"
  consider "n < c" | "c \<le> n" "n < a" | "a \<le> n" by linarith
  then show "bit k n = bit k' n"
  proof cases
    case 1
    then have "bit (take_bit c x) n = bit x n" for x :: u64 by (simp add: bit_simps)
    then show ?thesis using assms(3) by metis
  next
    case 2
    then have "bit (drop_bit c (take_bit a x)) (n - c) = bit x n" for x :: u64 by (simp add: bit_simps)
    then show ?thesis using assms(2) by metis
  next
    case 3
    then have "bit (drop_bit a x) (n - a) = bit x n" for x :: u64 by (simp add: bit_simps)
    then show ?thesis using assms(1) by metis
  qed
qed

lemma block_pos_less:
  assumes "trie_ok t"
  shows "unat (drop_bit (6 - item_size_lg t) (take_bit (data_block_key_bits t) (key :: u64))) <
    2 ^ (max 6 (data_block_key_bits t + item_size_lg t) - 6)"
proof -
  let ?c = "6 - item_size_lg t" and ?a = "data_block_key_bits t"
  have lg: "item_size_lg t \<le> 6" "min 64 ?a = ?a" using assms by (auto simp: trie_ok_def)
  have "unat (drop_bit ?c (take_bit ?a key)) = drop_bit ?c (take_bit ?a (unat key))"
    using lg(2) by (simp add: unsigned_drop_bit_eq unsigned_take_bit_eq)
  also have "\<dots> = take_bit (?a - ?c) (drop_bit ?c (unat key))" by (simp add: drop_bit_take_bit)
  also have "\<dots> < 2 ^ (?a - ?c)" by simp
  also have "?a - ?c \<le> max 6 (?a + item_size_lg t) - 6" using lg by simp
  then have "(2 :: nat) ^ (?a - ?c) \<le> 2 ^ (max 6 (?a + item_size_lg t) - 6)" by (rule power_increasing) simp
  finally show ?thesis .
qed

text \<open>One item of a block is changed, and the others are kept.\<close>

definition item_of :: "trie \<Rightarrow> u64 list \<Rightarrow> u64 \<Rightarrow> u64" where
  "item_of t b key = trie_data_block_get t (Some b) key"

lemma item_of_block_set:
  assumes "trie_ok t" "length b = 2 ^ (max 6 (data_block_key_bits t + item_size_lg t) - 6)"
    and "drop_bit (data_block_key_bits t) k = drop_bit (data_block_key_bits t) k'"
  shows "item_of t (block_set t k v b) k' = (if k = k' then take_bit (2 ^ item_size_lg t) v else item_of t b k')"
proof -
  let ?w = "2 ^ item_size_lg t :: nat" and ?c = "6 - item_size_lg t"
  let ?pos = "\<lambda>k. unat (drop_bit ?c (take_bit (data_block_key_bits t) k))"
  have lg: "item_size_lg t \<le> 6" using assms(1) by (simp add: trie_ok_def)
  note pos = calc_pos [OF lg refl]
  have len: "?pos k < length b" for k :: u64 using block_pos_less [OF assms(1), of k] assms(2) by simp
  show ?thesis
  proof (cases "k = k'")
    case True
    then show ?thesis
      using len [of k] masked_item [OF item_end [OF lg, of k], of "b ! ?pos k" v]
      by (simp add: item_of_def block_set_def trie_data_block_get_def pos)
  next
    case False
    show ?thesis
    proof (cases "?pos k = ?pos k'")
      case True
      then have "drop_bit ?c (take_bit (data_block_key_bits t) k) = drop_bit ?c (take_bit (data_block_key_bits t) k')"
        by (simp add: word_unat_eq_iff)
      then have "item_idx t k \<noteq> item_idx t k'"
        using same_item [OF assms(3)] False by (auto simp: item_idx_def word_unat_eq_iff)
      from other_item [OF this, of "b ! ?pos k" ?w] show ?thesis
        using False True len [of k]
        by (simp add: item_of_def block_set_def trie_data_block_get_def pos del: drop_bit_and drop_bit_or)
    next
      case other: False
      then show ?thesis using False by (simp add: item_of_def block_set_def trie_data_block_get_def pos)
    qed
  qed
qed

lemma item_of_fresh:
  assumes "trie_ok t"
  shows "item_of t (trie_create_data_block t) key = empty_value t"
proof -
  let ?w = "2 ^ item_size_lg t :: nat" and ?i = "item_idx t key"
  have lg: "item_size_lg t \<le> 6" and fill: "\<And>n. n < 64 \<Longrightarrow> bit (fill_value t) n \<longleftrightarrow> bit (empty_value t) (n mod ?w)"
    and ev: "empty_value t = take_bit ?w (empty_value t)" using assms by (simp_all add: trie_ok_def)
  have e: "?i * ?w + ?w \<le> 64" by (rule item_end [OF lg])
  have "drop_bit (?i * ?w) (fill_value t AND push_bit (?i * ?w) (mask ?w)) = empty_value t"
  proof (rule bit_word_eqI)
    fix n assume n: "n < LENGTH(64)"
    have "bit (empty_value t) n \<longleftrightarrow> n < ?w \<and> bit (empty_value t) n" by (subst ev) (simp add: bit_simps)
    moreover have "bit (fill_value t) (?i * ?w + n) \<longleftrightarrow> bit (empty_value t) n" if "n < ?w"
      using fill [of "?i * ?w + n"] e that by simp
    ultimately show "bit (drop_bit (?i * ?w) (fill_value t AND push_bit (?i * ?w) (mask ?w))) n = bit (empty_value t) n"
      using e by (auto simp: bit_simps)
  qed
  then show ?thesis
    using block_pos_less [OF assms, of key]
    by (simp add: item_of_def trie_data_block_get_def calc_pos [OF lg refl] trie_create_data_block_def)
qed

lemma block_of_length:
  assumes "trie_ok t" "node_ok t r n" "r \<le> max_depth t" "block_of t key r n = Some b"
  shows "length b = 2 ^ (max 6 (data_block_key_bits t + item_size_lg t) - 6)"
  using assms(2-4)
proof (induction r arbitrary: n)
  case 0
  then show ?case by (cases n) simp_all
next
  case (Suc r)
  note c = children_ok(1) [OF assms(1) Suc.prems(1,2), of key] children_ok(2) [OF assms(1) Suc.prems(1,2)]
  show ?case
    using Suc.IH [of "children t r n ! trie_pos t key (max_depth t - Suc r)"] Suc.prems(2,3) c
    unfolding block_of_children [OF assms(1) Suc.prems(1,2)] by simp
qed

section \<open>A trie is a table of items\<close>

definition fits :: "trie \<Rightarrow> u64 \<Rightarrow> bool" where
  "fits t key \<longleftrightarrow> \<not> (key_size t < 64 \<and> key > mask (key_size t))"

lemma fits_drop_bit: "trie_ok t \<Longrightarrow> fits t key \<Longrightarrow> drop_bit (key_size t) key = 0"
proof (cases "key_size t < 64")
  case True
  assume "fits t key"
  then have "unat key \<le> unat (mask (key_size t) :: u64)" using True by (simp add: fits_def not_less word_le_nat_alt)
  then have "unat key < 2 ^ key_size t" using unat_mask [OF True] by (simp add: Suc_le_eq [symmetric] le_diff_conv2)
  then have "take_bit (key_size t) key = key"
    by (intro word_unat_eq_iff [THEN iffD2]) (simp add: unsigned_take_bit_eq take_bit_nat_eq_self)
  then show ?thesis by (metis drop_bit_take_bit diff_self_eq_0 take_bit_0)
next
  case False
  assume "trie_ok t"
  then have "key_size t = 64" using False by (simp add: trie_ok_def)
  then show ?thesis by (intro bit_word_eqI) (simp add: bit_simps)
qed

text \<open>The operations depend on the sizes of a trie, not on its data.\<close>

lemma sizes_data [simp]:
  "trie_get_node_size (t\<lparr>t_data := n\<rparr>) d = trie_get_node_size t d"
  "trie_get_node_bit_offs (t\<lparr>t_data := n\<rparr>) d = trie_get_node_bit_offs t d"
  "trie_pos (t\<lparr>t_data := n\<rparr>) key d = trie_pos t key d"
  "trie_create_data_block (t\<lparr>t_data := n\<rparr>) = trie_create_data_block t"
  "trie_data_block_calc_pos (t\<lparr>t_data := n\<rparr>) key = trie_data_block_calc_pos t key"
  "block_set (t\<lparr>t_data := n\<rparr>) key v = block_set t key v"
  "trie_ok (t\<lparr>t_data := n\<rparr>) = trie_ok t"
  "fits (t\<lparr>t_data := n\<rparr>) key = fits t key"
  by (simp_all add: trie_get_node_size_def trie_get_node_bit_offs_def trie_pos_def trie_create_data_block_def
      trie_data_block_calc_pos_def block_set_def trie_ok_def fits_def fun_eq_iff Let_def)

lemma block_get_data [simp]: "trie_data_block_get (t\<lparr>t_data := n\<rparr>) ob key = trie_data_block_get t ob key"
  by (cases ob) (simp_all add: trie_data_block_get_def)

lemma item_of_data [simp]: "item_of (t\<lparr>t_data := n\<rparr>) b key = item_of t b key"
  by (simp add: item_of_def)

lemma loop_data [simp]:
  "trie_get_node_loop (t\<lparr>t_data := n\<rparr>) key auto_create r m = trie_get_node_loop t key auto_create r m"
  by (cases auto_create; induction r arbitrary: m) (simp_all add: Let_def split: node.split)

lemma node_ok_data [simp]: "node_ok (t\<lparr>t_data := n\<rparr>) r m = node_ok t r m"
  by (induction r arbitrary: m) (simp_all split: node.split)

lemma block_of_data [simp]: "block_of (t\<lparr>t_data := n\<rparr>) key r m = block_of t key r m"
  by (simp add: block_of_def)

lemma trie_get_block:
  "trie_get t key =
     (if fits t key then case block_of t key (max_depth t) (t_data t) of None \<Rightarrow> empty_value t | Some b \<Rightarrow> item_of t b key
      else empty_value t)"
proof -
  obtain p n where p: "trie_get_node_loop t key False (max_depth t) (t_data t) = (p, n)" by fastforce
  then have "n = t_data t" using get_node_loop_False [of t key "max_depth t" "t_data t"] by simp
  then show ?thesis
    using p by (cases p) (auto simp: trie_get_def trie_get_node_def fits_def block_of_def item_of_def trie_data_block_get_def)
qed

lemma trie_set_block:
  assumes "trie_inv t"
  shows "trie_set t key v =
    (if fits t key then (True, t\<lparr>t_data := change_block t key (block_set t key v) (max_depth t) (t_data t)\<rparr>) else (False, t))"
proof -
  obtain p n where p: "trie_get_node_loop t key True (max_depth t) (t_data t) = (Some p, n)"
    using get_node_loop_True [of t "max_depth t" "t_data t" key] assms by (auto simp: trie_inv_def)
  then show ?thesis by (auto simp: trie_set_def trie_get_node_def fits_def change_block_def)
qed

lemma trie_set_inv: "trie_inv t \<Longrightarrow> trie_inv (snd (trie_set t key v))"
  using change_block_ok [of t "max_depth t" "t_data t" "block_set t key v" key]
  by (simp add: trie_set_block trie_inv_def block_set_def case_prod_beta)

lemma trie_get_set:
  assumes "trie_inv t" "fits t key"
  shows "trie_get (snd (trie_set t key v)) k = (if k = key then take_bit (2 ^ item_size_lg t) v else trie_get t k)"
proof (cases "fits t k")
  case False
  then show ?thesis using assms by (auto simp: trie_get_block trie_set_block)
next
  case True
  let ?r = "max_depth t" and ?n = "t_data t"
  let ?b = "case block_of t k ?r ?n of None \<Rightarrow> trie_create_data_block t | Some b \<Rightarrow> b"
  have ok: "trie_ok t" "node_ok t ?r ?n" using assms(1) by (simp_all add: trie_inv_def)
  have "drop_bit (parent_off t (?r - ?r)) key = drop_bit (parent_off t (?r - ?r)) k"
    using fits_drop_bit [OF ok(1)] assms(2) True by (simp add: parent_off_def)
  note b = block_of_change [OF ok order_refl this, of "block_set t key v"]
  have i: "item_of t ?b k = trie_get t k"
    using True item_of_fresh [OF ok(1), of k] by (auto simp: trie_get_block split: option.split)
  show ?thesis
  proof (cases "drop_bit (data_block_key_bits t) key = drop_bit (data_block_key_bits t) k")
    case same: True
    have "length ?b = 2 ^ (max 6 (data_block_key_bits t + item_size_lg t) - 6)"
      using block_of_length [OF ok(1,2) order_refl, of k]
      by (auto simp: trie_create_data_block_def split: option.split)
    note item = item_of_block_set [OF ok(1) this same, of v, unfolded i]
    have "trie_get (snd (trie_set t key v)) k = item_of t (block_set t key v ?b) k"
      using assms True b same by (simp add: trie_set_block trie_get_block)
    then show ?thesis unfolding item by auto
  next
    case False
    then have "k \<noteq> key" by auto
    then show ?thesis using assms True b False by (simp add: trie_set_block trie_get_block split: option.split)
  qed
qed

lemma fill_steps:
  assumes "ev = take_bit (2 ^ lg) (ev :: u64)" "lg + m \<le> 6"
  shows "bit (fold (fill_step lg) [0..<m] ev) n \<longleftrightarrow> n < 2 ^ (lg + m) \<and> bit ev (n mod 2 ^ lg)"
  using assms(2)
proof (induction m arbitrary: n)
  case 0
  have "bit ev n \<longleftrightarrow> n < 2 ^ lg \<and> bit ev n" by (subst assms(1)) (simp add: bit_simps)
  then show ?case by (cases "n < 2 ^ lg") simp_all
next
  case (Suc m)
  let ?v = "fold (fill_step lg) [0..<m] ev" and ?s = "2 ^ (lg + m) :: nat"
  have "(2 :: nat) ^ (lg + Suc m) \<le> 2 ^ 6" using Suc.prems by (intro power_increasing) simp_all
  then have s: "?s + ?s \<le> 64" by simp
  have ih: "bit ?v n \<longleftrightarrow> n < ?s \<and> bit ev (n mod 2 ^ lg)" for n using Suc by simp
  have "(n - ?s) mod 2 ^ lg = n mod 2 ^ lg" if "?s \<le> n"
  proof -
    have "n mod 2 ^ lg = (n - ?s + 2 ^ m * 2 ^ lg) mod 2 ^ lg" using that by (simp add: power_add mult.commute)
    then show ?thesis by simp
  qed
  then have "bit (fill_step lg m ?v) n \<longleftrightarrow> n < ?s + ?s \<and> bit ev (n mod 2 ^ lg)"
    using s unfolding fill_step_def [of lg m ?v] by (auto simp: bit_simps ih)
  then show ?case by (simp add: mult_2)
qed

lemma trie_create_inv:
  assumes "trie_create ks lg nb bb ev = Some t" "nb + ptr_sz_lg < 64" "bb + lg < 38"
  shows "trie_inv t" "trie_get t k = take_bit (2 ^ lg) ev"
proof -
  have t: "lg \<le> 6" "ks \<le> 64" "1 \<le> nb" "1 \<le> bb" "bb \<le> ks"
    "t = \<lparr>empty_value = ev AND mask (2 ^ lg), fill_value = fold (fill_step lg) [0..<6 - lg] (ev AND mask (2 ^ lg)),
       t_data = Null, key_size = ks, item_size_lg = lg, node_key_bits = nb, data_block_key_bits = bb,
       max_depth = (ks - bb + nb - 1) div nb\<rparr>"
    using assms(1) by (auto simp: trie_create_def Let_def not_less split: if_splits)
  have "take_bit (2 ^ lg) ev = take_bit (2 ^ lg) (take_bit (2 ^ lg) ev)" by simp
  from fill_steps [OF this, of "6 - lg"] t(1)
  have "\<forall>n < 64. bit (fold (fill_step lg) [0..<6 - lg] (take_bit (2 ^ lg) ev)) n \<longleftrightarrow> bit (take_bit (2 ^ lg) ev) (n mod 2 ^ lg)"
    by simp
  then show "trie_inv t" using t assms(2,3) by (simp add: trie_inv_def trie_ok_def take_bit_eq_mask [symmetric])
  show "trie_get t k = take_bit (2 ^ lg) ev" using t by (simp add: trie_get_block take_bit_eq_mask)
qed

section \<open>Iteration\<close>

text \<open>The keys from \<open>lo\<close> up to \<open>hi\<close>, without \<open>hi\<close>, whose block is there, in order, with their items.\<close>

definition visit :: "trie \<Rightarrow> nat \<Rightarrow> node \<Rightarrow> nat \<Rightarrow> nat \<Rightarrow> (u64 \<times> u64) list" where
  "visit t r n lo hi =
     map (\<lambda>i. (of_nat i, item_of t (the (block_of t (of_nat i) r n)) (of_nat i)))
       (filter (\<lambda>i. block_of t (of_nat i) r n \<noteq> None) [lo..<hi])"

lemma visit_append: "lo \<le> mid \<Longrightarrow> mid \<le> hi \<Longrightarrow> visit t r n lo mid @ visit t r n mid hi = visit t r n lo hi"
proof -
  assume "lo \<le> mid" "mid \<le> hi"
  then have "[lo..<hi] = [lo..<mid] @ [mid..<hi]" using upt_add_eq_append [of lo mid "hi - mid"] by simp
  then show ?thesis by (simp add: visit_def)
qed

lemma visit_Null [simp]: "visit t r Null lo hi = []"
  by (simp add: visit_def)

lemma visit_cong:
  "(\<And>i. lo \<le> i \<Longrightarrow> i < hi \<Longrightarrow> block_of t (of_nat i) r n = block_of t (of_nat i) r' n') \<Longrightarrow>
   visit t r n lo hi = visit t r' n' lo hi"
  by (auto simp: visit_def intro!: filter_cong map_cong)

definition visited :: "(u64 \<times> u64) list \<Rightarrow> ((u64 \<times> u64) list \<times> u64) option" where
  "visited l = Some (l, of_nat (length l))"

lemma iterate_all_intervals:
  assumes "\<And>i. j \<le> i \<Longrightarrow> i \<le> e \<Longrightarrow> f i = visited (visit t r n (lo i) (hi i))"
    and "\<And>i. j \<le> i \<Longrightarrow> i \<le> e \<Longrightarrow> lo i \<le> hi i" "\<And>i. j \<le> i \<Longrightarrow> i < e \<Longrightarrow> hi i = lo (Suc i)" "j \<le> e"
  shows "iterate_all (map f [j..<e + 1]) = visited (visit t r n (lo j) (hi e)) \<and> lo j \<le> hi e"
  using assms(4,1-3)
proof (induction j rule: inc_induct)
  case base
  then show ?case by (simp add: visited_def)
next
  case (step j)
  have ih: "iterate_all (map f [Suc j..<e + 1]) = visited (visit t r n (lo (Suc j)) (hi e))" "lo (Suc j) \<le> hi e"
    using step.IH step.prems by auto
  have "[j..<e + 1] = j # [Suc j..<e + 1]" using step.hyps by (simp add: upt_conv_Cons)
  moreover have "lo j \<le> lo (Suc j)" "f j = visited (visit t r n (lo j) (lo (Suc j)))" using step by force+
  ultimately show ?case
    using ih by (simp add: visited_def visit_append [of "lo j" "lo (Suc j)" "hi e", symmetric] del: upt_Suc)
qed

lemma unat_drop_bit_div: "unat (drop_bit p x :: u64) = unat x div 2 ^ p"
proof -
  have "unat x < 2 ^ 64" using unsigned_less [of x] by simp
  then have "take_bit 64 (unat x) = unat x" by (rule take_bit_nat_eq_self)
  then show ?thesis by (simp only: unsigned_drop_bit_eq) (simp add: drop_bit_eq_div)
qed

lemma unat_and_not_mask: "unat (x AND NOT (mask p) :: u64) = unat x div 2 ^ p * 2 ^ p"
proof -
  have "x AND NOT (mask p) = push_bit p (drop_bit p x)" by (rule bit_word_eqI) (auto simp: bit_simps)
  then have eq: "unat (x AND NOT (mask p)) = take_bit 64 (unat x div 2 ^ p * 2 ^ p)"
    by (simp only: unsigned_push_bit_eq unat_drop_bit_div) (simp add: push_bit_eq_mult)
  have "unat x div 2 ^ p * 2 ^ p \<le> unat x" by (simp add: div_times_less_eq_dividend)
  moreover have "unat x < 2 ^ 64" using unsigned_less [of x] by simp
  ultimately have "take_bit 64 (unat x div 2 ^ p * 2 ^ p) = unat x div 2 ^ p * 2 ^ p"
    by (intro take_bit_nat_eq_self) (rule le_less_trans)
  then show ?thesis using eq by simp
qed

lemma trie_pos_div:
  "trie_pos t key d = unat key div 2 ^ trie_get_node_bit_offs t d mod 2 ^ node_width t d"
proof -
  have "trie_pos t key d = take_bit (node_width t d) (unat (drop_bit (trie_get_node_bit_offs t d) key))"
    by (simp add: trie_pos_def node_width_def take_bit_eq_mask [symmetric] unsigned_take_bit_eq)
  then show ?thesis by (simp only: unat_drop_bit_div take_bit_eq_mod)
qed

lemma iterate_block_visit:
  assumes "start \<le> stop" "stop \<noteq> - 1"
  shows "iterate_block t b start stop = visited (visit t 0 (Block b) (unat start) (unat stop + 1))"
proof -
  have "unat start \<le> unat stop" using assms(1) by (simp add: word_le_nat_alt)
  then have "stop - start + 1 = of_nat (unat stop + 1 - unat start)" by (simp add: of_nat_diff)
  then show ?thesis using assms(2) by (simp add: iterate_block_def visited_def visit_def item_of_def del: upt_Suc)
qed

text \<open>The keys of a node that belong to its \<open>i\<close>-th child, as numbers: \<open>c = q * 2 ^ w + i\<close> is their quotient by \<open>2 ^ offs\<close>.\<close>

lemma child_bounds:
  fixes start :: u64
  assumes "p = offs + w" "p \<le> 64" "q = unat start div 2 ^ p" "i < 2 ^ w"
  defines "first_key \<equiv> start AND NOT (mask p)"
  shows "unat (first_key + of_nat i * push_bit offs 1) = (q * 2 ^ w + i) * 2 ^ offs"
    "unat (first_key + (of_nat i + 1) * push_bit offs 1 - 1) = (q * 2 ^ w + i + 1) * 2 ^ offs - 1"
proof -
  let ?C = "2 ^ offs :: nat"
  have P: "(2 :: nat) ^ p = 2 ^ w * ?C" unfolding assms(1) by (simp add: power_add)
  have "unat start < 2 ^ 64" using unsigned_less [of start] by simp
  then have "q < 2 ^ (64 - p)"
    unfolding assms(3) by (intro less_mult_imp_div_less) (simp add: power_add [symmetric] assms(2))
  then have "(q + 1) * 2 ^ p \<le> 2 ^ (64 - p) * 2 ^ p" by (intro mult_le_mono1) simp
  also have "\<dots> = 2 ^ 64" using assms(2) by (simp add: power_add [symmetric])
  finally have q: "(q + 1) * (2 ^ w * ?C) \<le> 2 ^ 64" unfolding P .
  have "(q * 2 ^ w + i + 1) * ?C \<le> (q * 2 ^ w + 2 ^ w) * ?C" using assms(4) by (intro mult_le_mono1) simp
  also have "\<dots> \<le> 2 ^ 64" using q by (simp add: algebra_simps)
  finally have top: "(q * 2 ^ w + i + 1) * ?C \<le> 2 ^ 64" .
  have conv: "unat (of_nat m :: u64) = m" if "m < 2 ^ 64" for m using that by (simp add: unat_of_nat)
  have first: "first_key = of_nat (q * (2 ^ w * ?C))"
    using arg_cong [OF unat_and_not_mask [of start p], of "of_nat :: nat \<Rightarrow> u64"] unfolding first_key_def assms(3) P by simp
  have C: "push_bit offs 1 = (of_nat ?C :: u64)" by (simp add: push_bit_eq_mult)
  have "first_key + of_nat i * push_bit offs 1 = of_nat ((q * 2 ^ w + i) * ?C)"
    unfolding first C by (simp add: algebra_simps)
  moreover have "(q * 2 ^ w + i) * ?C < (q * 2 ^ w + i + 1) * ?C" by (simp only: mult_less_cancel2) simp
  then have "(q * 2 ^ w + i) * ?C < 2 ^ 64" using top by (rule less_le_trans)
  ultimately show "unat (first_key + of_nat i * push_bit offs 1) = (q * 2 ^ w + i) * 2 ^ offs" using conv by metis
  have "1 \<le> (q * 2 ^ w + i + 1) * ?C" using \<open>_ < (q * 2 ^ w + i + 1) * ?C\<close> by linarith
  then have "of_nat ((q * 2 ^ w + i + 1) * ?C - 1) = (of_nat ((q * 2 ^ w + i + 1) * ?C) - 1 :: u64)" by (simp only: of_nat_diff of_nat_1)
  then have "first_key + (of_nat i + 1) * push_bit offs 1 - 1 = of_nat ((q * 2 ^ w + i + 1) * ?C - 1)"
    unfolding first C by (simp add: algebra_simps)
  moreover have "(q * 2 ^ w + i + 1) * ?C - 1 < 2 ^ 64" using top \<open>1 \<le> _\<close> by linarith
  ultimately show "unat (first_key + (of_nat i + 1) * push_bit offs 1 - 1) = (q * 2 ^ w + i + 1) * 2 ^ offs - 1" using conv by metis
qed

text \<open>The keys of a node from \<open>a\<close> to \<open>z\<close>, divided among its children.\<close>

lemma child_intervals:
  fixes a z :: nat
  assumes "a \<le> z" "a div (C * W) = z div (C * W)" "0 < C" "0 < W"
  defines "q \<equiv> a div (C * W)" and "s \<equiv> a div C mod W" and "e \<equiv> z div C mod W"
  defines "lo \<equiv> \<lambda>i. max ((q * W + i) * C) a" and "hi \<equiv> \<lambda>i. min ((q * W + i + 1) * C) (z + 1)"
  shows "s \<le> e" "lo s = a" "hi e = z + 1" "\<And>i. s \<le> i \<Longrightarrow> i < e \<Longrightarrow> hi i = lo (Suc i)"
    "\<And>i. s \<le> i \<Longrightarrow> i \<le> e \<Longrightarrow> lo i < hi i"
    "\<And>i k. s \<le> i \<Longrightarrow> i \<le> e \<Longrightarrow> lo i \<le> k \<Longrightarrow> k < hi i \<Longrightarrow> k div C = q * W + i"
proof -
  have a: "a div C = q * W + s" unfolding q_def s_def by (simp add: div_mult2_eq)
  have z: "z div C = q * W + e" unfolding q_def e_def using assms(2) by (simp add: div_mult2_eq)
  have da: "(q * W + s) * C \<le> a" "a < (q * W + s + 1) * C"
    using assms(3) div_times_less_eq_dividend [of a C] dividend_less_div_times [of C a] a by (simp_all add: algebra_simps)
  have dz: "(q * W + e) * C \<le> z" "z < (q * W + e + 1) * C"
    using assms(3) div_times_less_eq_dividend [of z C] dividend_less_div_times [of C z] z by (simp_all add: algebra_simps)
  show "s \<le> e" using div_le_mono [OF assms(1), of C] a z by simp
  show "lo s = a" "hi e = z + 1" using da dz by (simp_all add: lo_def hi_def)
  have up: "a < (q * W + i + 1) * C" if "s \<le> i" for i
    using da(2) that by (elim less_le_trans) (intro mult_le_mono1, simp)
  have down: "(q * W + i) * C \<le> z" if "i \<le> e" for i
    using that by (intro order_trans [OF _ dz(1)] mult_le_mono1) simp
  have step: "(q * W + i) * C < (q * W + i + 1) * C" for i using assms(3) by (simp only: mult_less_cancel2) simp
  show "hi i = lo (Suc i)" if "s \<le> i" "i < e" for i
    using up [OF that(1)] down [of "Suc i"] that(2) by (simp add: lo_def hi_def max_def min_def)
  show "lo i < hi i" if "s \<le> i" "i \<le> e" for i
    using up [OF that(1)] down [OF that(2)] step [of i] assms(1) by (simp add: lo_def hi_def)
  show "k div C = q * W + i" if "lo i \<le> k" "k < hi i" for i k
    using that assms(3) by (intro div_nat_eqI) (simp_all add: lo_def hi_def mult.commute)
qed

lemma parent_off_le: "trie_ok t \<Longrightarrow> d \<le> max_depth t \<Longrightarrow> parent_off t d \<le> key_size t"
proof (induction d)
  case (Suc d)
  then show ?case using parent_off_step [of t d] by (simp add: parent_off_def)
qed (simp add: parent_off_def)

lemma fits_mono: "fits t stop \<Longrightarrow> k \<le> stop \<Longrightarrow> fits t k"
  by (auto simp: fits_def)

lemma fits_min: "fits t stop \<Longrightarrow> (if key_size t < 64 then min stop (mask (key_size t)) else stop) = stop"
  by (auto simp: fits_def min_def)

text \<open>The call for one child, with the part of the range that belongs to it.\<close>

definition iterate_child :: "trie \<Rightarrow> nat \<Rightarrow> node list \<Rightarrow> u64 \<Rightarrow> u64 \<Rightarrow> nat \<Rightarrow> ((u64 \<times> u64) list \<times> u64) option" where
  "iterate_child t r cs start stop i =
     (let d = max_depth t - Suc r; first_key = start AND NOT (mask (parent_off t d));
          c = push_bit (trie_get_node_bit_offs t d) 1
      in trie_iterate_keys_node t r (cs ! i) (max (first_key + of_nat i * c) start)
           (min (first_key + (of_nat i + 1) * c - 1) stop))"

lemma iterate_Inner:
  assumes "trie_ok t" "Suc r \<le> max_depth t" "start \<le> stop" "fits t stop"
  shows "trie_iterate_keys_node t (Suc r) (Inner cs) start stop =
    iterate_all (map (iterate_child t r cs start stop)
      [trie_pos t start (max_depth t - Suc r)..<trie_pos t stop (max_depth t - Suc r) + 1])"
proof -
  let ?d = "max_depth t - Suc r"
  have "?d < max_depth t" using assms(2) by simp
  then have w: "parent_off t ?d - trie_get_node_bit_offs t ?d = trie_get_node_size t ?d - ptr_sz_lg"
    using parent_off_step [OF assms(1)] by (simp add: node_width_def)
  have p: "(if ?d = 0 then key_size t else trie_get_node_bit_offs t (?d - 1)) = parent_off t ?d" by (simp add: parent_off_def)
  have "\<not> (start > stop \<or> Inner cs = Null)" using assms(3) by auto
  then show ?thesis
    unfolding trie_iterate_keys_node.simps(2) if_not_P Let_def fits_min [OF assms(4)] p w trie_pos_def
    by (simp only: if_False node.case iterate_child_def [abs_def] Let_def)
qed

lemma iterate_node:
  assumes "trie_ok t" "node_ok t r n" "r \<le> max_depth t" "start \<le> stop" "stop \<noteq> - 1" "fits t stop"
    and "drop_bit (parent_off t (max_depth t - r)) start = drop_bit (parent_off t (max_depth t - r)) stop"
  shows "trie_iterate_keys_node t r n start stop = visited (visit t r n (unat start) (unat stop + 1))"
  using assms(2-)
proof (induction r arbitrary: n start stop)
  case 0
  show ?case
  proof (cases n)
    case (Block b)
    then show ?thesis
      using 0 by (simp add: fits_min iterate_block_visit Let_def not_less [symmetric])
  qed (use 0 in \<open>simp_all add: visited_def\<close>)
next
  case (Suc r)
  show ?case
  proof (cases n)
    case Null
    then show ?thesis by (simp add: visited_def)
  next
    case (Block b)
    then show ?thesis using Suc.prems(1) by simp
  next
    case (Inner cs)
    let ?d = "max_depth t - Suc r" and ?a = "unat start" and ?z = "unat stop"
    let ?o = "trie_get_node_bit_offs t ?d" and ?w = "node_width t ?d" and ?p = "parent_off t ?d"
    let ?C = "2 ^ ?o :: nat" and ?W = "2 ^ ?w :: nat"
    let ?q = "?a div (?C * ?W)" and ?s = "trie_pos t start ?d" and ?e = "trie_pos t stop ?d"
    have d: "?d < max_depth t" and p: "?p = ?o + ?w" using Suc.prems(2) parent_off_step [OF assms(1)] by simp_all
    have P: "?C * ?W = 2 ^ ?p" unfolding p by (simp add: power_add)
    have C0: "0 < ?C" "0 < ?W" by simp_all
    have "?a div 2 ^ ?p = ?z div 2 ^ ?p" using arg_cong [OF Suc.prems(6), of unat] by (simp only: unat_drop_bit_div)
    then have q: "?a div (?C * ?W) = ?z div (?C * ?W)" unfolding P .
    have le: "?a \<le> ?z" using Suc.prems(3) by (simp add: word_le_nat_alt)
    define lo hi where "lo i = max ((?q * ?W + i) * ?C) ?a" and "hi i = min ((?q * ?W + i + 1) * ?C) (?z + 1)" for i
    note iv = child_intervals [OF le q C0, folded trie_pos_div lo_def hi_def]
    have child: "iterate_child t r cs start stop i = visited (visit t (Suc r) n (lo i) (hi i))" if i: "?s \<le> i" "i \<le> ?e" for i
    proof -
      let ?first = "start AND NOT (mask ?p)"
      let ?from = "max (?first + of_nat i * push_bit ?o 1) start" and ?to = "min (?first + (of_nat i + 1) * push_bit ?o 1 - 1) stop"
      have iW: "i < ?W" using i(2) trie_pos_less [of t stop ?d] by simp
      have "?p \<le> 64" using parent_off_le [OF assms(1), of ?d] assms(1) by (simp add: trie_ok_def)
      note cb = child_bounds [OF p this _ iW, of ?q start, unfolded P, OF refl]
      have mm: "unat (max x y) = max (unat x) (unat y)" "unat (min x y) = min (unat x) (unat y)" for x y :: u64
        by (simp_all add: max_def min_def word_le_nat_alt)
      have "min (X - 1) z + 1 = min X (z + 1)" if "1 \<le> X" for X z :: nat using that by (cases "X \<le> z + 1") auto
      moreover have "1 \<le> (?q * ?W + i + 1) * ?C" using iv(5) [OF i] unfolding hi_def by linarith
      ultimately have fr: "unat ?from = lo i" and to: "unat ?to + 1 = hi i"
        unfolding mm cb lo_def hi_def P by simp_all
      note dv = iv(6) [OF i]
      have lt: "lo i < hi i" by (rule iv(5) [OF i])
      have "trie_iterate_keys_node t r (cs ! i) ?from ?to = visited (visit t r (cs ! i) (unat ?from) (unat ?to + 1))"
      proof (rule Suc.IH)
        show "node_ok t r (cs ! i)" using Suc.prems(1) Inner iW node_size [OF assms(1) d] by simp
        show "r \<le> max_depth t" using Suc.prems(2) by simp
        show "?from \<le> ?to" using lt fr to by (simp add: word_le_nat_alt)
        show "?to \<noteq> - 1" using Suc.prems(4) by (metis min.cobounded2 word_order.extremum_unique)
        show "fits t ?to" by (rule fits_mono [OF Suc.prems(5)]) simp
        have "unat ?from div ?C = unat ?to div ?C" using dv [of "unat ?from"] dv [of "unat ?to"] lt fr to by simp
        then show "drop_bit (parent_off t (max_depth t - r)) ?from = drop_bit (parent_off t (max_depth t - r)) ?to"
          using Suc.prems(2) by (intro word_unat_eq_iff [THEN iffD2]) (simp add: unat_drop_bit_div parent_off_def)
      qed
      moreover have "visit t r (cs ! i) (lo i) (hi i) = visit t (Suc r) n (lo i) (hi i)"
      proof (rule visit_cong)
        fix k assume k: "lo i \<le> k" "k < hi i"
        have "?z < 2 ^ 64" using unsigned_less [of stop] by simp
        then have "k < 2 ^ 64" using k(2) unfolding hi_def by linarith
        then have "unat (of_nat k :: u64) = k" by (simp add: unat_of_nat)
        then have "trie_pos t (of_nat k) ?d = i" unfolding trie_pos_div using dv [OF k] iW by simp
        then show "block_of t (of_nat k) r (cs ! i) = block_of t (of_nat k) (Suc r) n" unfolding Inner by simp
      qed
      ultimately show ?thesis unfolding fr to by (simp add: iterate_child_def Let_def)
    qed
    have "iterate_all (map (iterate_child t r cs start stop) [?s..<?e + 1]) = visited (visit t (Suc r) n (lo ?s) (hi ?e))"
      using iterate_all_intervals [where lo = lo and hi = hi, OF child less_imp_le [OF iv(5)] iv(4) iv(1)] by blast
    then show ?thesis unfolding Inner iterate_Inner [OF assms(1) Suc.prems(2,3,5)] iv(2,3) .
  qed
qed

lemma trie_iterate_visit:
  assumes "trie_inv t" "start \<le> stop" "fits t stop" "stop \<noteq> - 1"
  shows "trie_iterate_keys t start stop = visited (visit t (max_depth t) (t_data t) (unat start) (unat stop + 1))"
proof -
  have ok: "trie_ok t" "node_ok t (max_depth t) (t_data t)" using assms(1) by (simp_all add: trie_inv_def)
  have "drop_bit (parent_off t (max_depth t - max_depth t)) start = drop_bit (parent_off t (max_depth t - max_depth t)) stop"
    using fits_drop_bit [OF ok(1)] assms(3) fits_mono [OF assms(3,2)] by (simp add: parent_off_def)
  from iterate_node [OF ok order_refl assms(2,4,3) this] show ?thesis by (simp add: trie_iterate_keys_def)
qed

section \<open>What a trie promises\<close>

text \<open>
  A table of items with keys in a range: what is put is found, reduced to the width of an item, and
  nothing else changes.
\<close>

locale item_table =
  fixes inv :: "'t \<Rightarrow> bool" and get :: "'t \<Rightarrow> u64 \<Rightarrow> u64" and put :: "'t \<Rightarrow> u64 \<Rightarrow> u64 \<Rightarrow> 't"
    and in_range :: "'t \<Rightarrow> u64 \<Rightarrow> bool" and width :: "'t \<Rightarrow> nat"
  assumes put_inv: "inv t \<Longrightarrow> inv (put t k v)"
    and put_range: "inv t \<Longrightarrow> in_range (put t k v) = in_range t"
    and put_width: "inv t \<Longrightarrow> width (put t k v) = width t"
    and get_put: "inv t \<Longrightarrow> in_range t k \<Longrightarrow> get (put t k v) = (get t)(k := take_bit (width t) v)"
    and put_out: "inv t \<Longrightarrow> \<not> in_range t k \<Longrightarrow> put t k v = t"
begin

lemma get_puts:
  "inv t \<Longrightarrow> inv (fold (\<lambda>(k, v) t. put t k v) kvs t) \<and>
     get (fold (\<lambda>(k, v) t. put t k v) kvs t) =
       fold (\<lambda>(k, v) m. if in_range t k then m(k := take_bit (width t) v) else m) kvs (get t)"
proof (induction kvs arbitrary: t)
  case (Cons kv kvs)
  obtain k v where kv: "kv = (k, v)" by fastforce
  have "get (put t k v) = (if in_range t k then (get t)(k := take_bit (width t) v) else get t)"
    using Cons.prems by (simp add: get_put put_out)
  then show ?case
    using Cons.IH [OF put_inv [OF Cons.prems, of k v], unfolded put_range [OF Cons.prems] put_width [OF Cons.prems]]
    by (simp add: kv)
qed simp

lemma put_found: "inv t \<Longrightarrow> in_range t k \<Longrightarrow> take_bit (width t) v = v \<Longrightarrow> get (put t k v) k = v"
  by (simp add: get_put)

end

lemma trie_set_sizes [simp]:
  "key_size (snd (trie_set t k v)) = key_size t" "item_size_lg (snd (trie_set t k v)) = item_size_lg t"
  by (auto simp: trie_set_def trie_get_node_def split: prod.splits option.splits if_splits)

lemma trie_set_fits: "fits (snd (trie_set t k v)) = fits t"
  by (simp add: fits_def fun_eq_iff)

interpretation tr: item_table trie_inv trie_get "\<lambda>t k v. snd (trie_set t k v)" fits "\<lambda>t. 2 ^ item_size_lg t"
proof unfold_locales
  show "trie_inv t \<Longrightarrow> fits t k \<Longrightarrow> trie_get (snd (trie_set t k v)) = (trie_get t)(k := take_bit (2 ^ item_size_lg t) v)"
    for t k v by (rule ext) (simp add: trie_get_set)
  show "trie_inv t \<Longrightarrow> \<not> fits t k \<Longrightarrow> snd (trie_set t k v) = t" for t k v by (simp add: trie_set_block)
qed (simp_all add: trie_set_inv trie_set_fits)

text \<open>C16: a trie behaves as the table of its items, from its creation through any sequence of assignments: a key
  that does not fit is refused and changes nothing, and an item is reduced to its width.\<close>

theorem trie_refines_table:
  assumes "trie_create ks lg nb bb ev = Some t" "nb + ptr_sz_lg < 64" "bb + lg < 38"
  shows "trie_get (fold (\<lambda>(k, v) t. snd (trie_set t k v)) kvs t) =
    fold (\<lambda>(k, v) m. if fits t k then m(k := take_bit (2 ^ lg) v) else m) kvs (\<lambda>k. take_bit (2 ^ lg) ev)"
proof -
  have "trie_inv t" "trie_get t = (\<lambda>k. take_bit (2 ^ lg) ev)" using trie_create_inv [OF assms] by (auto simp: fun_eq_iff)
  moreover have "item_size_lg t = lg" using assms(1) by (auto simp: trie_create_def Let_def split: if_splits)
  ultimately show ?thesis using tr.get_puts [of t kvs, unfolded \<open>item_size_lg t = lg\<close>] by simp
qed

theorem trie_refines_table_witness:
  "\<exists>t. trie_create 15 4 4 4 0xfffff = Some t \<and>
     (let t' = fold (\<lambda>(k, v) t. snd (trie_set t k v)) [(7, 0x12345), (0x8000, 1), (0x7fff, 3)] t
      in trie_get t' 7 = 0x2345 \<and> trie_get t' 0x8000 = 0xffff \<and> trie_get t' 0x7fff = 3 \<and> trie_get t' 8 = 0xffff)"
proof -
  obtain t where t: "trie_create 15 4 4 4 0xfffff = Some t" by (simp add: trie_create_def Let_def)
  then have "fits t k \<longleftrightarrow> k \<le> 0x7fff" for k
    by (auto simp: trie_create_def Let_def fits_def mask_eq_exp_minus_1 not_less)
  then show ?thesis using t trie_refines_table [OF t, of "[(7, 0x12345), (0x8000, 1), (0x7fff, 3)]"] by (simp add: Let_def)
qed

text \<open>C19: an iteration calls its function once for each key of the range whose block has been allocated, in
  ascending order and with the item of the key, and returns the number of the calls.\<close>

theorem trie_iterate_exact:
  assumes "trie_inv t" "start \<le> stop" "fits t stop" "stop \<noteq> - 1"
  defines "calls \<equiv> map (\<lambda>i. (of_nat i, trie_get t (of_nat i)))
    (filter (\<lambda>i. fst (trie_get_node t (of_nat i) False) \<noteq> None) [unat start..<unat stop + 1])"
  shows "trie_iterate_keys t start stop = Some (calls, of_nat (length calls))"
proof -
  have f: "fits t (of_nat i)" if "i < unat stop + 1" for i
    using that by (intro fits_mono [OF assms(3)]) (simp add: word_le_nat_alt unat_of_nat)
  have there: "block_of t (of_nat i) (max_depth t) (t_data t) \<noteq> None \<longleftrightarrow> fst (trie_get_node t (of_nat i) False) \<noteq> None"
    if "i < unat stop + 1" for i
    using f [OF that] by (auto simp: trie_get_node_def fits_def block_of_def split: prod.splits)
  have "trie_iterate_keys t start stop = visited (visit t (max_depth t) (t_data t) (unat start) (unat stop + 1))"
    by (rule trie_iterate_visit [OF assms(1-4)])
  moreover have "visit t (max_depth t) (t_data t) (unat start) (unat stop + 1) = calls"
    unfolding visit_def calls_def
  proof (intro map_cong filter_cong refl)
    fix i assume "i \<in> set [unat start..<unat stop + 1]"
    then show "block_of t (of_nat i) (max_depth t) (t_data t) \<noteq> None \<longleftrightarrow> fst (trie_get_node t (of_nat i) False) \<noteq> None"
      using there [of i] by (simp del: upt_Suc)
  next
    fix i assume "i \<in> set (filter (\<lambda>i. fst (trie_get_node t (of_nat i) False) \<noteq> None) [unat start..<unat stop + 1])"
    then have i: "i < unat stop + 1" "fst (trie_get_node t (of_nat i) False) \<noteq> None" by auto
    then obtain b where "block_of t (of_nat i) (max_depth t) (t_data t) = Some b" using there [of i] by blast
    then show "(of_nat i, item_of t (the (block_of t (of_nat i) (max_depth t) (t_data t))) (of_nat i)) =
        (of_nat i, trie_get t (of_nat i))" using f [OF i(1)] by (simp add: trie_get_block)
  qed
  ultimately show ?thesis by (simp add: visited_def)
qed

definition small_trie :: trie where
  "small_trie = snd (trie_set (the (trie_create 8 6 3 3 0)) 9 5)"

theorem trie_iterate_exact_witness:
  "trie_iterate_keys small_trie 9 20 = Some ([(9, 5), (10, 0), (11, 0), (12, 0), (13, 0), (14, 0), (15, 0)], 7)"
proof -
  obtain t where t: "trie_create 8 6 3 3 0 = Some t" by (simp add: trie_create_def Let_def)
  have "trie_inv small_trie" using trie_create_inv(1) [OF t] trie_set_inv t by (simp add: small_trie_def)
  moreover have "fits small_trie 20" "(9 :: u64) \<le> 20" "20 \<noteq> (- 1 :: u64)"
    using t by (auto simp: small_trie_def trie_set_fits trie_create_def Let_def fits_def mask_eq_exp_minus_1)
  moreover have calls: "map (\<lambda>i. (of_nat i :: u64, trie_get small_trie (of_nat i)))
      (filter (\<lambda>i. fst (trie_get_node small_trie (of_nat i) False) \<noteq> None) [unat (9 :: u64)..<unat (20 :: u64) + 1]) =
      [(9, 5), (10, 0), (11, 0), (12, 0), (13, 0), (14, 0), (15, 0)]"
    by code_simp
  ultimately show ?thesis using trie_iterate_exact [of small_trie 9 20, unfolded calls] by simp
qed

end
