(* ===== verification/Pidns.thy ===== *)
theory Pidns
  imports C_String Trie
begin

text \<open>
  The translation of process ids between pid namespaces, \<^verbatim>\<open>src/src/pidns.c\<close>, with the reader of the id
  lists of \<^verbatim>\<open>src/src/util.c\<close>. The contents of \<^verbatim>\<open>/proc\<close> are a parameter: the lines of a status file, the
  namespace file of a process with its inode and its parent, and the entries of a directory. Tries and
  process records are allocated in two lists, and a pointer is an index plus one; an allocation fails
  when there are as many objects as the address space of a process has bytes.
\<close>

datatype pid_type = PT_TID | PT_TGID | PT_PGID | PT_SID | PT_COUNT | PT_NONE

datatype ns_errno = EPERM_n | ENOTTY_n | Other_n

record ('k, 'f) proc_env =
  pv_status :: "string \<Rightarrow> 'k \<Rightarrow> string list option"
  pv_open :: "string \<Rightarrow> 'k \<Rightarrow> 'f option"
  pv_ino :: "'f \<Rightarrow> 'k \<Rightarrow> u64 option"
  pv_parent :: "'f \<Rightarrow> 'k \<Rightarrow> ns_errno + 'f"
  pv_dir :: "string \<Rightarrow> 'k \<Rightarrow> (bool \<times> string) list option"
  pv_pid_max :: "'k \<Rightarrow> int option"

text \<open>An index outside an array, a pointer to freed memory, a loop without end, and the death of the tracer.\<close>

datatype fault = Out_of_bounds | Use_after_free | Diverges | Creating_trie_failed

abbreviation HEAP :: nat where "HEAP \<equiv> 2 ^ 47"

abbreviation MAX_NS_DEPTH :: nat where "MAX_NS_DEPTH \<equiv> 32"

record proc_data =
  proc_pid :: int
  ns_count :: nat
  ns_hierarchy :: "u32 list"
  id_count :: "pid_type \<Rightarrow> nat"
  id_hierarchy :: "pid_type \<Rightarrow> int list"

record pidns =
  ns_pid_to_proc_pid :: "pid_type \<Rightarrow> trie"
  pid_tries :: "trie list"
  proc_data_cache :: trie
  proc_datas :: "proc_data option list"
  ns_get_parent_enotty :: bool
  pid_max :: int
  pid_max_size :: nat
  pid_max_size_lg :: nat
  proc_is_ours :: "bool option"
  our_ns :: "u32 option"

section \<open>Reading /proc\<close>

definition pid_to_str :: "int \<Rightarrow> string" where
  "pid_to_str pid = (if pid = 0 then ''self'' else if pid < 0 then CHR ''-'' # dec_string (nat (- pid)) else dec_string (nat pid))"

abbreviation TAB :: char where "TAB \<equiv> CHR 0x09"

function parse_ids :: "string \<Rightarrow> int list" where
  "parse_ids p =
     (case strtoll10 p of (n, erange, rest) \<Rightarrow>
        if n < 0 \<or> n > INT_MAX \<or> erange then []
        else n # (case strchr_split TAB p of None \<Rightarrow> [] | Some (field, next_p) \<Rightarrow> parse_ids next_p))"
  by pat_completeness auto
termination
  by (relation "measure length") (auto simp: strchr_split_Some)

declare parse_ids.simps [simp del]

text \<open>The number of ids on the line, and those that are stored in a buffer of some size.\<close>

definition proc_status_get_id_list :: "('k, 'f) proc_env \<Rightarrow> 'k \<Rightarrow> int \<Rightarrow> nat \<Rightarrow> string \<Rightarrow> nat \<times> int list" where
  "proc_status_get_id_list E k pid id_buf_size str =
     (case pv_status E (''/proc/'' @ pid_to_str pid @ ''/status'') k of
        None \<Rightarrow> (0, [])
      | Some ls \<Rightarrow>
          case find (\<lambda>l. has_prefix str l) ls of
            None \<Rightarrow> (0, [])
          | Some l \<Rightarrow> let ids = parse_ids (drop (length str) l) in (length ids, take id_buf_size ids))"

fun id_strs :: "pid_type \<Rightarrow> string" where
  "id_strs PT_TID = ''NSpid:'' @ [TAB]"
| "id_strs PT_TGID = ''NStgid:'' @ [TAB]"
| "id_strs PT_PGID = ''NSpgid:'' @ [TAB]"
| "id_strs PT_SID = ''NSsid:'' @ [TAB]"
| "id_strs _ = []"

definition get_id_list :: "('k, 'f) proc_env \<Rightarrow> 'k \<Rightarrow> int \<Rightarrow> pid_type \<Rightarrow> nat \<times> int list" where
  "get_id_list E k pid type = proc_status_get_id_list E k pid MAX_NS_DEPTH (id_strs type)"

primrec ns_hierarchy_loop :: "('k, 'f) proc_env \<Rightarrow> 'k \<Rightarrow> nat \<Rightarrow> 'f \<Rightarrow> bool \<Rightarrow> u32 list \<times> bool" where
  "ns_hierarchy_loop E k 0 fd enotty = ([], enotty)"
| "ns_hierarchy_loop E k (Suc m) fd enotty =
     (case pv_ino E fd k of
        None \<Rightarrow> ([], enotty)
      | Some ino \<Rightarrow>
          if m = 0 \<or> enotty then ([ucast ino], enotty)
          else case pv_parent E fd k of
                 Inl e \<Rightarrow> ([ucast ino], e = ENOTTY_n)
               | Inr parent_fd \<Rightarrow>
                   case ns_hierarchy_loop E k m parent_fd enotty of (ns, enotty) \<Rightarrow> (ucast ino # ns, enotty))"

definition get_ns_hierarchy :: "('k, 'f) proc_env \<Rightarrow> 'k \<Rightarrow> int \<Rightarrow> nat \<Rightarrow> pidns \<Rightarrow> u32 list \<times> pidns" where
  "get_ns_hierarchy E k pid ns_buf_size st =
     (case pv_open E (''/proc/'' @ pid_to_str pid @ ''/ns/pid'') k of
        None \<Rightarrow> ([], st)
      | Some fd \<Rightarrow>
          case ns_hierarchy_loop E k ns_buf_size fd (ns_get_parent_enotty st) of (ns, enotty) \<Rightarrow>
            (ns, st\<lparr>ns_get_parent_enotty := enotty\<rparr>))"

definition is_proc_ours :: "('k, 'f) proc_env \<Rightarrow> 'k \<Rightarrow> pidns \<Rightarrow> bool \<times> pidns" where
  "is_proc_ours E k st =
     (case proc_is_ours st of
        Some b \<Rightarrow> (b, st)
      | None \<Rightarrow> let b = fst (get_id_list E k 0 PT_TID) \<le> 1 in (b, st\<lparr>proc_is_ours := Some b\<rparr>))"

definition get_our_ns :: "('k, 'f) proc_env \<Rightarrow> 'k \<Rightarrow> pidns \<Rightarrow> u32 \<times> pidns" where
  "get_our_ns E k st =
     (case our_ns st of
        Some ns \<Rightarrow> (ns, st)
      | None \<Rightarrow>
          case get_ns_hierarchy E k 0 1 st of (l, st) \<Rightarrow>
            let ns = (if l = [] then 0 else hd l) in (ns, st\<lparr>our_ns := Some ns\<rparr>))"

section \<open>The tables\<close>

definition ilog2_iter :: "nat \<Rightarrow> nat \<times> nat \<Rightarrow> nat \<times> nat" where
  "ilog2_iter b = (\<lambda>(val, ret). if val > 2 ^ 2 ^ b - 1 then (drop_bit (2 ^ b) val, ret OR 2 ^ b) else (val, ret))"

definition ilog2_32 :: "nat \<Rightarrow> nat" where
  "ilog2_32 val = snd (fold ilog2_iter [4, 3, 2, 1, 0] (val, 0))"

definition create_trie_4 :: "nat \<Rightarrow> nat \<Rightarrow> u64 \<Rightarrow> fault + trie" where
  "create_trie_4 ks item_lg ev =
     (case trie_create ks item_lg 4 4 ev of None \<Rightarrow> Inl Creating_trie_failed | Some t \<Rightarrow> Inr t)"

definition pidns_init :: "('k, 'f) proc_env \<Rightarrow> 'k \<Rightarrow> fault + pidns" where
  "pidns_init E k =
     (let m = (case pv_pid_max E k of None \<Rightarrow> INT_MAX | Some m \<Rightarrow> m);
          size = ilog2_32 (nat ((m - 1) mod 2 ^ 32)) + 1;
          size_lg = ilog2_32 (size - 1) + 1
      in rbind (create_trie_4 32 ptr_sz_lg 0) (\<lambda>t.
         rbind (create_trie_4 size ptr_sz_lg 0) (\<lambda>c.
         Inr \<lparr>ns_pid_to_proc_pid = (\<lambda>_. t), pid_tries = [], proc_data_cache = c, proc_datas = [], ns_get_parent_enotty = False,
              pid_max = m, pid_max_size = size, pid_max_size_lg = size_lg, proc_is_ours = None, our_ns = None\<rparr>)))"

definition put_proc_pid :: "u32 \<Rightarrow> int \<Rightarrow> pid_type \<Rightarrow> int \<Rightarrow> pidns \<Rightarrow> fault + pidns" where
  "put_proc_pid ns ns_pid type pid st =
     (let b = unat (trie_get (ns_pid_to_proc_pid st type) (ucast ns))
      in rbind
        (if b = 0 then
           rbind (if length (pid_tries st) \<ge> HEAP then Inl Creating_trie_failed
                  else create_trie_4 (pid_max_size st) (pid_max_size_lg st) 0) (\<lambda>t.
             let b = length (pid_tries st) + 1
             in Inr (b, st\<lparr>pid_tries := pid_tries st @ [t],
                  ns_pid_to_proc_pid := (ns_pid_to_proc_pid st)
                    (type := snd (trie_set (ns_pid_to_proc_pid st type) (ucast ns) (of_nat b)))\<rparr>))
         else Inr (b, st))
        (\<lambda>(b, st). Inr (st\<lparr>pid_tries := (pid_tries st)
           [b - 1 := snd (trie_set (pid_tries st ! (b - 1)) (of_int ns_pid) (of_int pid))]\<rparr>)))"

definition get_cached_proc_pid :: "u32 \<Rightarrow> int \<Rightarrow> pid_type \<Rightarrow> pidns \<Rightarrow> int" where
  "get_cached_proc_pid ns ns_pid type st =
     (let b = unat (trie_get (ns_pid_to_proc_pid st type) (ucast ns))
      in if b = 0 then 0 else sint (ucast (trie_get (pid_tries st ! (b - 1)) (of_int ns_pid)) :: u32))"

section \<open>Process records\<close>

definition get_proc_data :: "nat \<Rightarrow> pidns \<Rightarrow> fault + proc_data" where
  "get_proc_data p st = (case proc_datas st ! (p - 1) of None \<Rightarrow> Inl Use_after_free | Some pd \<Rightarrow> Inr pd)"

definition get_or_create_proc_data :: "int \<Rightarrow> pidns \<Rightarrow> nat \<times> pidns" where
  "get_or_create_proc_data pid st =
     (let p = unat (trie_get (proc_data_cache st) (of_int pid))
      in if p \<noteq> 0 then (p, st)
         else if length (proc_datas st) \<ge> HEAP then (0, st)
         else let p = length (proc_datas st) + 1;
                  pd = \<lparr>proc_pid = pid, ns_count = 0, ns_hierarchy = replicate MAX_NS_DEPTH 0, id_count = (\<lambda>_. 0),
                        id_hierarchy = (\<lambda>_. replicate MAX_NS_DEPTH 0)\<rparr>
           in (p, st\<lparr>proc_datas := proc_datas st @ [Some pd],
                proc_data_cache := snd (trie_set (proc_data_cache st) (of_int pid) (of_nat p))\<rparr>))"

definition overwrite :: "'a list \<Rightarrow> 'a list \<Rightarrow> 'a list" where
  "overwrite new old = new @ drop (length new) old"

definition update_proc_data :: "('k, 'f) proc_env \<Rightarrow> 'k \<Rightarrow> nat \<Rightarrow> pid_type \<Rightarrow> pidns \<Rightarrow> fault + bool \<times> pidns" where
  "update_proc_data E k p type st =
     rbind (get_proc_data p st) (\<lambda>pd.
       case get_ns_hierarchy E k (proc_pid pd) MAX_NS_DEPTH st of (ns, st) \<Rightarrow>
       case get_id_list E k (proc_pid pd) type of (n, ids) \<Rightarrow>
         if ns = [] \<or> n = 0
         then Inr (False, st\<lparr>proc_data_cache := snd (trie_set (proc_data_cache st) (of_int (proc_pid pd)) 0),
                             proc_datas := (proc_datas st)[p - 1 := None]\<rparr>)
         else Inr (True, st\<lparr>proc_datas := (proc_datas st)
                [p - 1 := Some (pd\<lparr>ns_count := length ns, ns_hierarchy := overwrite ns (ns_hierarchy pd),
                   id_count := (id_count pd)(type := n),
                   id_hierarchy := (id_hierarchy pd)(type := overwrite ids (id_hierarchy pd type))\<rparr>)]\<rparr>))"

section \<open>Translation\<close>

record translate_id_params =
  from_ns :: u32
  from_id :: int
  tip_type :: pid_type
  result_id :: int
  tip_pd :: nat   \<comment> \<open>0 is the null pointer\<close>

text \<open>An element of an array, whose size is the length of the list.\<close>

definition element :: "'a list \<Rightarrow> nat \<Rightarrow> fault + 'a" where
  "element a i = (if i < length a then Inr (a ! i) else Inl Out_of_bounds)"

fun translate_id_loop :: "proc_data \<Rightarrow> nat \<Rightarrow> nat list \<Rightarrow> translate_id_params \<Rightarrow> fault + translate_id_params" where
  "translate_id_loop pd p [] tip = Inr tip"
| "translate_id_loop pd p (i # is) tip =
     (let ids = id_hierarchy pd (tip_type tip); n = id_count pd (tip_type tip)
      in rbind (element (ns_hierarchy pd) i) (\<lambda>ns.
         rbind (element ids (n - i - 1)) (\<lambda>ns_id.
         rbind (element ids (n - ns_count pd)) (\<lambda>our_id.
           if ns \<noteq> from_ns tip then translate_id_loop pd p is tip
           else if ns_id \<noteq> from_id tip then Inr tip
           else Inr (tip\<lparr>result_id := our_id, tip_pd := p\<rparr>)))))"

definition translate_id_proc_pid ::
    "('k, 'f) proc_env \<Rightarrow> 'k \<Rightarrow> int \<Rightarrow> pidns \<times> translate_id_params \<Rightarrow> fault + pidns \<times> translate_id_params" where
  "translate_id_proc_pid E k pid = (\<lambda>(st, tip).
     case (if pid \<noteq> 0 then get_or_create_proc_data pid st else (tip_pd tip, st)) of (p, st) \<Rightarrow>
       let tip = tip\<lparr>result_id := 0, tip_pd := 0\<rparr>
       in if p = 0 then Inr (st, tip)
          else rbind (if pid \<noteq> 0 then update_proc_data E k p (tip_type tip) st else Inr (True, st)) (\<lambda>(ok, st).
            if \<not> ok then Inr (st, tip)
            else rbind (get_proc_data p st) (\<lambda>pd.
              if ns_count pd = 0 \<or> id_count pd (tip_type tip) < ns_count pd then Inr (st, tip)
              else rbind (translate_id_loop pd p [0..<ns_count pd] tip) (\<lambda>tip. Inr (st, tip)))))"

text \<open>The entries of a directory; \<open>sub\<close> reads the task directory of an entry.\<close>

fun translate_id_entries ::
    "('k, 'f) proc_env \<Rightarrow> 'k \<Rightarrow> (int \<Rightarrow> pidns \<times> translate_id_params \<Rightarrow> fault + pidns \<times> translate_id_params) \<Rightarrow>
     (bool \<times> string) list \<Rightarrow> pidns \<times> translate_id_params \<Rightarrow> fault + pidns \<times> translate_id_params" where
  "translate_id_entries E k sub [] s = Inr s"
| "translate_id_entries E k sub ((is_dir, d_name) # es) s =
     (if result_id (snd s) \<noteq> 0 then Inr s
      else if \<not> is_dir then translate_id_entries E k sub es s
      else case strtoll10 d_name of (pid, erange, _) \<Rightarrow>
        if pid < 1 \<or> pid > INT_MAX \<or> erange then translate_id_entries E k sub es s
        else rbind (sub pid s) (\<lambda>s.
          if result_id (snd s) \<noteq> 0 then Inr s
          else rbind (translate_id_proc_pid E k pid s) (translate_id_entries E k sub es)))"

definition translate_id_dir ::
    "('k, 'f) proc_env \<Rightarrow> 'k \<Rightarrow> (int \<Rightarrow> pidns \<times> translate_id_params \<Rightarrow> fault + pidns \<times> translate_id_params) \<Rightarrow>
     string \<Rightarrow> pidns \<times> translate_id_params \<Rightarrow> fault + pidns \<times> translate_id_params" where
  "translate_id_dir E k sub path s =
     (case pv_dir E path k of None \<Rightarrow> Inr s | Some es \<Rightarrow> translate_id_entries E k sub es s)"

definition translate_id_task_dir ::
    "('k, 'f) proc_env \<Rightarrow> 'k \<Rightarrow> int \<Rightarrow> pidns \<times> translate_id_params \<Rightarrow> fault + pidns \<times> translate_id_params" where
  "translate_id_task_dir E k pid = translate_id_dir E k (\<lambda>pid. Inr) (''/proc/'' @ dec_string (nat pid) @ ''/task'')"

definition translate_id_proc_dir ::
    "('k, 'f) proc_env \<Rightarrow> 'k \<Rightarrow> pidns \<times> translate_id_params \<Rightarrow> fault + pidns \<times> translate_id_params" where
  "translate_id_proc_dir E k = translate_id_dir E k (translate_id_task_dir E k) ''/proc''"

definition proc_data_cache_iterator_fn ::
    "('k, 'f) proc_env \<Rightarrow> 'k \<Rightarrow> nat \<Rightarrow> pidns \<times> translate_id_params \<Rightarrow> fault + pidns \<times> translate_id_params" where
  "proc_data_cache_iterator_fn E k p = (\<lambda>(st, tip).
     if p = 0 then Inr (st, tip)
     else if result_id tip \<noteq> 0 then Inr (st, tip)
     else rbind (translate_id_proc_pid E k 0 (st, tip\<lparr>tip_pd := p\<rparr>)) (\<lambda>(st, tip).
       if result_id tip = 0 then Inr (st, tip)
       else rbind (get_proc_data p st) (\<lambda>pd. translate_id_proc_pid E k (proc_pid pd) (st, tip))))"

text \<open>The calls of the iteration; the item of a key is read when its call is made.\<close>

fun iterate_cache ::
    "('k, 'f) proc_env \<Rightarrow> 'k \<Rightarrow> (u64 \<times> u64) list \<Rightarrow> pidns \<times> translate_id_params \<Rightarrow> fault + pidns \<times> translate_id_params" where
  "iterate_cache E k [] s = Inr s"
| "iterate_cache E k ((key, _) # calls) s =
     rbind (proc_data_cache_iterator_fn E k (unat (trie_get (proc_data_cache (fst s)) key)) s) (iterate_cache E k calls)"

definition search_cache ::
    "('k, 'f) proc_env \<Rightarrow> 'k \<Rightarrow> pidns \<times> translate_id_params \<Rightarrow> fault + pidns \<times> translate_id_params" where
  "search_cache E k s =
     (case trie_iterate_keys (proc_data_cache (fst s)) 0 (of_int (pid_max (fst s) - 1)) of
        None \<Rightarrow> Inl Diverges
      | Some (calls, n) \<Rightarrow> iterate_cache E k calls s)"

text \<open>The search for an id in a namespace: the translated id, and the process.\<close>

definition translate_search :: "('k, 'f) proc_env \<Rightarrow> 'k \<Rightarrow> u32 \<Rightarrow> int \<Rightarrow> pid_type \<Rightarrow> pidns \<Rightarrow> fault + (int \<times> int) \<times> pidns" where
  "translate_search E k ns nid type st =
     (if ns = 0 then Inr ((0, 0), st)
      else if ns_get_parent_enotty st then Inr ((0, 0), st)
      else
        let tip = \<lparr>from_ns = ns, from_id = nid, tip_type = type, result_id = 0, tip_pd = 0\<rparr>;
            cached = get_cached_proc_pid ns nid type st
        in rbind (if cached \<noteq> 0 then translate_id_proc_pid E k cached (st, tip) else Inr (st, tip)) (\<lambda>s.
           rbind (if result_id (snd s) \<noteq> 0 then Inr s else search_cache E k s) (\<lambda>s.
           rbind (if result_id (snd s) \<noteq> 0 then Inr s else translate_id_proc_dir E k s) (\<lambda>(st, tip).
             if tip_pd tip = 0 then Inr ((result_id tip, 0), st)
             else rbind (get_proc_data (tip_pd tip) st) (\<lambda>pd.
               rbind (if proc_pid pd \<noteq> 0 then put_proc_pid ns nid type (proc_pid pd) st else Inr st) (\<lambda>st.
                 Inr ((result_id tip, proc_pid pd), st)))))))"

text \<open>
  \<^verbatim>\<open>translate_pid\<close> for an id of the tracer's own namespace, where it does not call itself: the result,
  and what is stored through \<^verbatim>\<open>proc_pid_ptr\<close>, which is 0 when nothing is stored.
\<close>

definition translate_own_pid ::
    "('k, 'f) proc_env \<Rightarrow> 'k \<Rightarrow> int \<Rightarrow> pid_type \<Rightarrow> bool \<Rightarrow> pidns \<Rightarrow> fault + (int \<times> int) \<times> pidns" where
  "translate_own_pid E k nid type want_proc_pid st =
     (if nid \<le> 0 \<or> type \<in> {PT_COUNT, PT_NONE} then Inr ((0, 0), st)
      else case (if want_proc_pid then is_proc_ours E k st else (True, st)) of (trivial, st) \<Rightarrow>
        if trivial then Inr ((nid, if want_proc_pid then nid else 0), st)
        else case get_our_ns E k st of (ns, st) \<Rightarrow> translate_search E k ns nid type st)"

record ns_tcb =
  nt_pid :: int
  nt_pid_ns :: u32

definition get_ns :: "('k, 'f) proc_env \<Rightarrow> 'k \<Rightarrow> ns_tcb \<Rightarrow> pidns \<Rightarrow> fault + ns_tcb \<times> pidns" where
  "get_ns E k tcp st =
     (if nt_pid_ns tcp = 0 then
        rbind (translate_own_pid E k (nt_pid tcp) PT_TID True st) (\<lambda>((_, pid), st).
          if pid = 0 then Inr (tcp, st)
          else case get_ns_hierarchy E k pid 1 st of (l, st) \<Rightarrow>
            Inr (if l = [] then tcp else tcp\<lparr>nt_pid_ns := hd l\<rparr>, st))
      else Inr (tcp, st))"

definition translate_pid ::
    "('k, 'f) proc_env \<Rightarrow> 'k \<Rightarrow> ns_tcb option \<Rightarrow> int \<Rightarrow> pid_type \<Rightarrow> bool \<Rightarrow> pidns \<Rightarrow>
     fault + (int \<times> int) \<times> ns_tcb option \<times> pidns" where
  "translate_pid E k tcp nid type want_proc_pid st =
     (case tcp of
        None \<Rightarrow> rbind (translate_own_pid E k nid type want_proc_pid st) (\<lambda>(r, st). Inr (r, None, st))
      | Some tcp \<Rightarrow>
          if nid \<le> 0 \<or> type \<in> {PT_COUNT, PT_NONE} then Inr ((0, 0), Some tcp, st)
          else rbind (get_ns E k tcp st) (\<lambda>(tcp, st).
            case get_our_ns E k st of (own, st) \<Rightarrow>
            case (if nt_pid_ns tcp = own then (if want_proc_pid then is_proc_ours E k st else (True, st)) else (False, st)) of
              (trivial, st) \<Rightarrow>
                if trivial then Inr ((nid, if want_proc_pid then nid else 0), Some tcp, st)
                else rbind (get_ns E k tcp st) (\<lambda>(tcp, st).
                  rbind (translate_search E k (nt_pid_ns tcp) nid type st) (\<lambda>(r, st). Inr (r, Some tcp, st)))))"

definition get_proc_pid :: "('k, 'f) proc_env \<Rightarrow> 'k \<Rightarrow> int \<Rightarrow> pidns \<Rightarrow> fault + int \<times> pidns" where
  "get_proc_pid E k pid st = rbind (translate_own_pid E k pid PT_TID True st) (\<lambda>((_, r), st). Inr (r, st))"

definition get_strace_pid :: "('k, 'f) proc_env \<Rightarrow> 'k \<Rightarrow> int \<Rightarrow> pidns \<Rightarrow> fault + int \<times> pidns" where
  "get_strace_pid E k pid st =
     (if pid \<le> 0 then Inr (0, st)
      else case is_proc_ours E k st of (ours, st) \<Rightarrow>
        if ours then Inr (pid, st)
        else let our_count = fst (get_id_list E k 0 PT_TID)
          in if our_count = 0 \<or> our_count > MAX_NS_DEPTH then Inr (0, st)
             else case get_id_list E k pid PT_TID of (count, ids) \<Rightarrow>
               if count < our_count \<or> count > MAX_NS_DEPTH then Inr (0, st)
               else let strace_pid = ids ! (our_count - 1)
                 in rbind (get_proc_pid E k strace_pid st) (\<lambda>(r, st). Inr (if r = pid then strace_pid else 0, st)))"

section \<open>What /proc says of a process\<close>

text \<open>
  The answer for an id in a namespace, from the namespaces of a process, the innermost first, and its
  ids, the outermost first: its id in the outermost of the namespaces.
\<close>

definition id_match :: "u32 list \<Rightarrow> int list \<Rightarrow> u32 \<Rightarrow> int \<Rightarrow> int option" where
  "id_match hs ids ns nid =
     (if hs = [] \<or> length ids < length hs then None
      else case find (\<lambda>i. hs ! i = ns) [0..<length hs] of
             None \<Rightarrow> None
           | Some i \<Rightarrow> if ids ! (length ids - i - 1) = nid then Some (ids ! (length ids - length hs)) else None)"

definition namespaces :: "('k, 'f) proc_env \<Rightarrow> 'k \<Rightarrow> int \<Rightarrow> u32 list" where
  "namespaces E k pid =
     (case pv_open E (''/proc/'' @ pid_to_str pid @ ''/ns/pid'') k of
        None \<Rightarrow> [] | Some fd \<Rightarrow> fst (ns_hierarchy_loop E k MAX_NS_DEPTH fd False))"

definition proc_answer :: "('k, 'f) proc_env \<Rightarrow> 'k \<Rightarrow> pid_type \<Rightarrow> u32 \<Rightarrow> int \<Rightarrow> int \<Rightarrow> int option" where
  "proc_answer E k type ns nid pid = id_match (namespaces E k pid) (snd (get_id_list E k pid type)) ns nid"

text \<open>The kernel knows the request for the parent of a namespace, and no process is nested more deeply than the tables allow.\<close>

definition proc_laws :: "('k, 'f) proc_env \<Rightarrow> 'k \<Rightarrow> bool" where
  "proc_laws E k \<longleftrightarrow> (\<forall>fd. pv_parent E fd k \<noteq> Inl ENOTTY_n) \<and> (\<forall>pid type. fst (get_id_list E k pid type) \<le> MAX_NS_DEPTH)"

section \<open>The state of the tables\<close>

definition pd_ok :: "proc_data \<Rightarrow> bool" where
  "pd_ok pd \<longleftrightarrow> length (ns_hierarchy pd) = MAX_NS_DEPTH \<and> ns_count pd \<le> MAX_NS_DEPTH \<and>
     (\<forall>type. length (id_hierarchy pd type) = MAX_NS_DEPTH \<and> id_count pd type \<le> MAX_NS_DEPTH)"

definition cache_ok :: "trie \<Rightarrow> proc_data option list \<Rightarrow> bool" where
  "cache_ok t pds \<longleftrightarrow> trie_inv t \<and> item_size_lg t = ptr_sz_lg \<and> empty_value t = 0 \<and>
     (\<forall>key. trie_get t key \<noteq> 0 \<longrightarrow>
        (\<exists>pd. unat (trie_get t key) \<le> length pds \<and> pds ! (unat (trie_get t key) - 1) = Some pd \<and> of_int (proc_pid pd) = key))"

definition int_range :: "int \<Rightarrow> bool" where
  "int_range i \<longleftrightarrow> - (2 ^ 31) \<le> i \<and> i < 2 ^ 31"

definition pidns_inv :: "pidns \<Rightarrow> bool" where
  "pidns_inv st \<longleftrightarrow>
     cache_ok (proc_data_cache st) (proc_datas st) \<and> length (proc_datas st) \<le> HEAP \<and>
     (\<forall>pd. Some pd \<in> set (proc_datas st) \<longrightarrow> pd_ok pd \<and> int_range (proc_pid pd) \<and> proc_pid pd \<noteq> 0) \<and>
     0 < pid_max st \<and> pid_max st \<le> INT_MAX \<and> fits (proc_data_cache st) (of_int (pid_max st - 1)) \<and>
     4 \<le> pid_max_size st \<and> pid_max_size st \<le> 32 \<and> pid_max_size_lg st \<le> 6 \<and>
     length (pid_tries st) \<le> HEAP \<and> (\<forall>t \<in> set (pid_tries st). trie_inv t) \<and>
     (\<forall>type. trie_inv (ns_pid_to_proc_pid st type) \<and> item_size_lg (ns_pid_to_proc_pid st type) = ptr_sz_lg \<and>
        (\<forall>key. unat (trie_get (ns_pid_to_proc_pid st type) key) \<le> length (pid_tries st)))"

lemma take_bit_64 [simp]: "take_bit 64 (v :: u64) = v"
  by (rule bit_word_eqI) (simp add: bit_simps)

lemma unat_pointer: "p \<le> HEAP \<Longrightarrow> unat (of_nat p :: u64) = p"
  by (simp add: unat_of_nat)

lemma trie_set_empty [simp]: "empty_value (snd (trie_set t k v)) = empty_value t"
  by (auto simp: trie_set_def trie_get_node_def split: prod.splits option.splits if_splits)

lemma cache_set:
  assumes "cache_ok t pds" "unat v \<le> length pds" "v \<noteq> 0 \<Longrightarrow> \<exists>pd. pds ! (unat v - 1) = Some pd \<and> of_int (proc_pid pd) = key"
  shows "cache_ok (snd (trie_set t key v)) pds"
proof -
  have t: "trie_inv t" "item_size_lg t = ptr_sz_lg" using assms(1) by (simp_all add: cache_ok_def)
  have "trie_get (snd (trie_set t key v)) = (if fits t key then (trie_get t)(key := v) else trie_get t)"
    using tr.get_put [OF t(1), of key v] tr.put_out [OF t(1), of key v] t(2) by simp
  then show ?thesis using assms t trie_set_inv [OF t(1), of key v] unfolding cache_ok_def by simp
qed

lemma cache_extend: "cache_ok t pds \<Longrightarrow> cache_ok t (pds @ pds')"
proof -
  assume c: "cache_ok t pds"
  have "(pds @ pds') ! (i - 1) = pds ! (i - 1)" if "i \<le> length pds" "i \<noteq> 0" for i using that by (auto simp: nth_append)
  then show ?thesis using c unfolding cache_ok_def by (metis length_append trans_le_add1 unat_eq_0)
qed

lemma cache_free:
  assumes "cache_ok t pds" "pds ! i = Some pd" "i < length pds"
  shows "cache_ok (snd (trie_set t (of_int (proc_pid pd)) 0)) (pds[i := None])"
proof -
  let ?key = "of_int (proc_pid pd) :: u64"
  have t: "trie_inv t" "item_size_lg t = ptr_sz_lg" "empty_value t = 0" using assms(1) by (simp_all add: cache_ok_def)
  have get: "trie_get (snd (trie_set t ?key 0)) = (trie_get t)(?key := 0)"
    using tr.get_put [OF t(1), of ?key 0] tr.put_out [OF t(1), of ?key 0] t(3) by (cases "fits t ?key") (auto simp: trie_get_block)
  have "\<exists>q. unat (trie_get t key) \<le> length pds \<and> pds[i := None] ! (unat (trie_get t key) - 1) = Some q \<and> of_int (proc_pid q) = key"
    if key: "trie_get t key \<noteq> 0" "key \<noteq> ?key" for key
  proof -
    obtain q where q: "unat (trie_get t key) \<le> length pds" "pds ! (unat (trie_get t key) - 1) = Some q" "of_int (proc_pid q) = key"
      using assms(1) key(1) unfolding cache_ok_def by blast
    then have "unat (trie_get t key) - 1 \<noteq> i" using assms(2) key(2) by auto
    then show ?thesis using q by simp
  qed
  then show ?thesis using t trie_set_inv [OF t(1), of ?key 0] unfolding cache_ok_def get by simp
qed

lemma cache_update:
  assumes "cache_ok t pds" "pds ! i = Some pd" "proc_pid pd' = proc_pid pd"
  shows "cache_ok t (pds[i := Some pd'])"
proof (cases "i < length pds")
  case True
  have "\<exists>pd. pds[i := Some pd'] ! j = Some pd \<and> of_int (proc_pid pd) = key" if "pds ! j = Some q" "of_int (proc_pid q) = key" for j q key
    using that assms(2,3) True by (cases "i = j") auto
  then show ?thesis using assms(1) unfolding cache_ok_def by (metis length_list_update)
qed (use assms(1) in \<open>simp add: list_update_beyond not_less\<close>)

lemma of_int_inj: "int_range i \<Longrightarrow> int_range j \<Longrightarrow> of_int i = (of_int j :: u64) \<Longrightarrow> i = j"
proof -
  assume r: "int_range i" "int_range j" and eq: "of_int i = (of_int j :: u64)"
  have "sint (of_int x :: u64) = x" if "int_range x" for x
    using that by (simp add: int_range_def int_word_sint)
  then show "i = j" using r eq by metis
qed

text \<open>Only process records and their cache change.\<close>

definition tables_grown :: "pidns \<Rightarrow> pidns \<Rightarrow> bool" where
  "tables_grown st st' \<longleftrightarrow> (\<exists>pds c. st' = st\<lparr>proc_datas := pds, proc_data_cache := c\<rparr> \<and> length (proc_datas st) \<le> length pds)"

lemma tables_grown_refl [simp]: "tables_grown st st"
  unfolding tables_grown_def by (rule exI [of _ "proc_datas st"], rule exI [of _ "proc_data_cache st"]) simp

lemma tables_grown_trans: "tables_grown st st' \<Longrightarrow> tables_grown st' st'' \<Longrightarrow> tables_grown st st''"
  unfolding tables_grown_def by fastforce

lemma tables_grown_fields:
  "tables_grown st st' \<Longrightarrow> pid_tries st' = pid_tries st \<and> ns_get_parent_enotty st' = ns_get_parent_enotty st \<and>
     pid_max st' = pid_max st \<and> length (proc_datas st) \<le> length (proc_datas st')"
  by (auto simp: tables_grown_def)

text \<open>A process record that a pointer refers to.\<close>

definition points :: "pidns \<Rightarrow> nat \<Rightarrow> proc_data \<Rightarrow> bool" where
  "points st p pd \<longleftrightarrow> p \<noteq> 0 \<and> p \<le> length (proc_datas st) \<and> proc_datas st ! (p - 1) = Some pd"

lemma points_get: "points st p pd \<Longrightarrow> get_proc_data p st = Inr pd"
  by (simp add: points_def get_proc_data_def)

lemma points_ok: "pidns_inv st \<Longrightarrow> points st p pd \<Longrightarrow> pd_ok pd \<and> int_range (proc_pid pd) \<and> proc_pid pd \<noteq> 0"
proof -
  assume i: "pidns_inv st" and p: "points st p pd"
  have "p - 1 < length (proc_datas st)" using p by (auto simp: points_def)
  then have "Some pd \<in> set (proc_datas st)" using p nth_mem [of "p - 1" "proc_datas st"] by (simp add: points_def)
  then show ?thesis using i by (simp add: pidns_inv_def)
qed

lemma cached_points:
  assumes "pidns_inv st" "trie_get (proc_data_cache st) key \<noteq> 0"
  obtains pd where "points st (unat (trie_get (proc_data_cache st) key)) pd" "of_int (proc_pid pd) = key"
  using assms that unfolding pidns_inv_def cache_ok_def points_def by (metis unat_eq_0)

text \<open>Changing the records and their cache keeps the other parts of the state.\<close>

lemma inv_records:
  assumes "pidns_inv st" "cache_ok c pds" "length pds \<le> HEAP" "fits c = fits (proc_data_cache st)"
    and "\<And>pd. Some pd \<in> set pds \<Longrightarrow> pd_ok pd \<and> int_range (proc_pid pd) \<and> proc_pid pd \<noteq> 0"
  shows "pidns_inv (st\<lparr>proc_datas := pds, proc_data_cache := c\<rparr>)"
  using assms unfolding pidns_inv_def by simp

lemma get_or_create_spec:
  assumes "pidns_inv st" "int_range pid" "pid \<noteq> 0" "get_or_create_proc_data pid st = (p, st1)"
  shows "pidns_inv st1 \<and> tables_grown st st1 \<and> (if p = 0 then length (proc_datas st1) \<ge> HEAP else \<exists>pd. points st1 p pd \<and> proc_pid pd = pid)"
proof (cases "trie_get (proc_data_cache st) (of_int pid) = 0")
  case False
  then obtain pd where pd: "points st (unat (trie_get (proc_data_cache st) (of_int pid))) pd"
    "of_int (proc_pid pd) = (of_int pid :: u64)" using cached_points [OF assms(1)] by blast
  then have "proc_pid pd = pid" using of_int_inj points_ok [OF assms(1)] assms(2) by blast
  moreover have "unat (trie_get (proc_data_cache st) (of_int pid)) \<noteq> 0" using False by (simp add: unat_eq_0)
  ultimately show ?thesis using assms(1,4) pd(1) by (auto simp: get_or_create_proc_data_def Let_def)
next
  case True
  show ?thesis
  proof (cases "length (proc_datas st) \<ge> HEAP")
    case full: True
    then show ?thesis using assms(1,4) True by (auto simp: get_or_create_proc_data_def Let_def)
  next
    case False
    let ?p = "length (proc_datas st) + 1"
    let ?pd = "\<lparr>proc_pid = pid, ns_count = 0, ns_hierarchy = replicate MAX_NS_DEPTH 0, id_count = (\<lambda>_. 0),
      id_hierarchy = (\<lambda>_. replicate MAX_NS_DEPTH 0)\<rparr>"
    let ?c = "snd (trie_set (proc_data_cache st) (of_int pid) (of_nat ?p))" and ?pds = "proc_datas st @ [Some ?pd]"
    have st1: "p = ?p" "st1 = st\<lparr>proc_datas := ?pds, proc_data_cache := ?c\<rparr>"
      using assms(4) True False by (auto simp: get_or_create_proc_data_def Let_def)
    have u: "unat (of_nat ?p :: u64) = ?p" by (rule unat_pointer) (use False in simp)
    have c: "cache_ok (proc_data_cache st) (proc_datas st)" using assms(1) by (simp add: pidns_inv_def)
    have "cache_ok ?c ?pds"
      by (rule cache_set [OF cache_extend [OF c]]) (unfold u, simp_all)
    moreover have "pd_ok ?pd" by (simp add: pd_ok_def)
    ultimately have "pidns_inv st1"
      unfolding st1 using assms(1-3) False by (intro inv_records) (auto simp: trie_set_fits pidns_inv_def)
    moreover have "tables_grown st st1" unfolding st1 tables_grown_def by auto
    moreover have "points st1 p ?pd" unfolding st1 points_def by simp
    ultimately show ?thesis by (auto simp: points_def)
  qed
qed

lemma ns_loop_laws:
  assumes "\<And>fd. pv_parent E fd k \<noteq> Inl ENOTTY_n"
  shows "snd (ns_hierarchy_loop E k m fd False) = False" "length (fst (ns_hierarchy_loop E k m fd False)) \<le> m"
proof (induction m arbitrary: fd)
  case (Suc m)
  { case 1 show ?case using Suc(1) assms [of fd] by (auto split: option.split sum.split simp: case_prod_beta) }
  { case 2 show ?case using Suc(2) by (auto split: option.split sum.split simp: case_prod_beta) }
qed simp_all

lemma get_ns_hierarchy_spec:
  assumes "\<forall>fd. pv_parent E fd k \<noteq> Inl ENOTTY_n" "\<not> ns_get_parent_enotty st"
  shows "get_ns_hierarchy E k pid MAX_NS_DEPTH st = (namespaces E k pid, st)" "length (namespaces E k pid) \<le> MAX_NS_DEPTH"
proof -
  note l = ns_loop_laws [of E k MAX_NS_DEPTH] assms(1)
  have "st\<lparr>ns_get_parent_enotty := False\<rparr> = st" using assms(2) by simp
  then show "get_ns_hierarchy E k pid MAX_NS_DEPTH st = (namespaces E k pid, st)" "length (namespaces E k pid) \<le> MAX_NS_DEPTH"
    using l assms(2) by (auto simp: get_ns_hierarchy_def namespaces_def proc_laws_def case_prod_beta split: option.split
        simp del: ns_hierarchy_loop.simps)
qed

lemma get_id_list_length:
  "proc_laws E k \<Longrightarrow> get_id_list E k pid type = (n, ids) \<Longrightarrow> n \<le> MAX_NS_DEPTH \<and> length ids = n"
proof -
  assume "proc_laws E k" and g: "get_id_list E k pid type = (n, ids)"
  then have "n \<le> MAX_NS_DEPTH" unfolding proc_laws_def by (metis fst_conv)
  then show ?thesis using g
    by (auto simp: get_id_list_def proc_status_get_id_list_def Let_def split: option.splits)
qed

text \<open>A record after it has been read again: the fields hold what /proc says, or the record is gone.\<close>

definition current :: "('k, 'f) proc_env \<Rightarrow> 'k \<Rightarrow> pid_type \<Rightarrow> int \<Rightarrow> proc_data \<Rightarrow> bool" where
  "current E k type pid pd \<longleftrightarrow> proc_pid pd = pid \<and> ns_count pd = length (namespaces E k pid) \<and>
     take (ns_count pd) (ns_hierarchy pd) = namespaces E k pid \<and>
     id_count pd type = length (snd (get_id_list E k pid type)) \<and>
     take (id_count pd type) (id_hierarchy pd type) = snd (get_id_list E k pid type)"

lemma update_spec:
  assumes "pidns_inv st" "points st p pd" "proc_laws E k" "\<not> ns_get_parent_enotty st"
    and "ok \<longleftrightarrow> namespaces E k (proc_pid pd) \<noteq> [] \<and> snd (get_id_list E k (proc_pid pd) type) \<noteq> []"
  obtains st1 where "update_proc_data E k p type st = Inr (ok, st1)" "pidns_inv st1" "tables_grown st st1"
    "ok \<Longrightarrow> \<exists>pd'. points st1 p pd' \<and> current E k type (proc_pid pd) pd'"
proof -
  let ?pid = "proc_pid pd"
  obtain n ids where g: "get_id_list E k ?pid type = (n, ids)" by fastforce
  have "\<forall>fd. pv_parent E fd k \<noteq> Inl ENOTTY_n" using assms(3) by (simp add: proc_laws_def)
  note ns = get_ns_hierarchy_spec [OF this assms(4), of ?pid]
  have n: "n \<le> MAX_NS_DEPTH" "length ids = n" using get_id_list_length [OF assms(3) g] by simp_all
  have p: "p - 1 < length (proc_datas st)" "proc_datas st ! (p - 1) = Some pd" using assms(2) by (auto simp: points_def)
  have c: "cache_ok (proc_data_cache st) (proc_datas st)" using assms(1) by (simp add: pidns_inv_def)
  have pdok: "pd_ok pd" "int_range ?pid" "?pid \<noteq> 0" using points_ok [OF assms(1,2)] by simp_all
  have old: "\<And>q. Some q \<in> set (proc_datas st) \<Longrightarrow> pd_ok q \<and> int_range (proc_pid q) \<and> proc_pid q \<noteq> 0"
    and len: "length (proc_datas st) \<le> HEAP" using assms(1) by (auto simp: pidns_inv_def)
  show ?thesis
  proof (cases ok)
    case False
    let ?st = "st\<lparr>proc_data_cache := snd (trie_set (proc_data_cache st) (of_int ?pid) 0), proc_datas := (proc_datas st)[p - 1 := None]\<rparr>"
    have eq: "?st = st\<lparr>proc_datas := (proc_datas st)[p - 1 := None], proc_data_cache := snd (trie_set (proc_data_cache st) (of_int ?pid) 0)\<rparr>"
      by simp
    have "n = 0 \<or> namespaces E k ?pid = []" using False assms(5) g n by auto
    then have "update_proc_data E k p type st = Inr (ok, ?st)"
      using False points_get [OF assms(2)] g ns(1) by (auto simp: update_proc_data_def)
    moreover have "pidns_inv ?st"
      unfolding eq
    proof (rule inv_records [OF assms(1) cache_free [OF c p(2,1)]])
      show "length ((proc_datas st)[p - 1 := None]) \<le> HEAP" using len by simp
      show "fits (snd (trie_set (proc_data_cache st) (of_int ?pid) 0)) = fits (proc_data_cache st)" by (rule trie_set_fits)
      fix q assume "Some q \<in> set ((proc_datas st)[p - 1 := None])"
      then have "Some q \<in> set (proc_datas st)" using set_update_subset_insert [of "proc_datas st" "p - 1" None] by blast
      then show "pd_ok q \<and> int_range (proc_pid q) \<and> proc_pid q \<noteq> 0" by (rule old)
    qed
    moreover have "tables_grown st ?st" unfolding eq tables_grown_def by auto
    ultimately show ?thesis using that False by blast
  next
    case True
    let ?pd = "pd\<lparr>ns_count := length (namespaces E k ?pid), ns_hierarchy := overwrite (namespaces E k ?pid) (ns_hierarchy pd),
      id_count := (id_count pd)(type := n), id_hierarchy := (id_hierarchy pd)(type := overwrite ids (id_hierarchy pd type))\<rparr>"
    let ?pds = "(proc_datas st)[p - 1 := Some ?pd]"
    let ?st = "st\<lparr>proc_datas := ?pds\<rparr>"
    have "update_proc_data E k p type st = Inr (ok, ?st)"
      using True assms(5) points_get [OF assms(2)] g ns(1) n by (auto simp: update_proc_data_def)
    moreover have "pd_ok ?pd" using pdok(1) ns(2) n by (auto simp: pd_ok_def overwrite_def)
    then have new: "pd_ok ?pd \<and> int_range (proc_pid ?pd) \<and> proc_pid ?pd \<noteq> 0" using pdok by simp
    have "pidns_inv (st\<lparr>proc_datas := ?pds, proc_data_cache := proc_data_cache st\<rparr>)"
    proof (rule inv_records [OF assms(1) cache_update [OF c p(2)]])
      show "length ?pds \<le> HEAP" using len by simp
      fix q assume "Some q \<in> set ?pds"
      then have "q = ?pd \<or> Some q \<in> set (proc_datas st)"
        using set_update_subset_insert [of "proc_datas st" "p - 1" "Some ?pd"] by blast
      then show "pd_ok q \<and> int_range (proc_pid q) \<and> proc_pid q \<noteq> 0" using new old by metis
    qed simp_all
    then have "pidns_inv ?st" by simp
    moreover have "tables_grown st ?st"
      unfolding tables_grown_def by (rule exI [of _ ?pds], rule exI [of _ "proc_data_cache st"]) simp
    moreover have "points ?st p ?pd" using assms(2) by (auto simp: points_def)
    moreover have "current E k type ?pid ?pd" using g n by (simp add: current_def overwrite_def)
    ultimately show ?thesis using that by blast
  qed
qed

section \<open>One process\<close>

lemma translate_id_loop_spec:
  assumes "pd_ok pd" "ns_count pd \<le> id_count pd (tip_type tip)" "\<forall>i \<in> set is. i < ns_count pd"
  shows "translate_id_loop pd p is tip =
    Inr (case find (\<lambda>i. ns_hierarchy pd ! i = from_ns tip) is of
           None \<Rightarrow> tip
         | Some i \<Rightarrow>
             if id_hierarchy pd (tip_type tip) ! (id_count pd (tip_type tip) - i - 1) = from_id tip
             then tip\<lparr>result_id := id_hierarchy pd (tip_type tip) ! (id_count pd (tip_type tip) - ns_count pd), tip_pd := p\<rparr>
             else tip)"
  using assms(3)
proof (induction "is")
  case (Cons i "is")
  let ?ids = "id_hierarchy pd (tip_type tip)" and ?n = "id_count pd (tip_type tip)"
  have b: "i < ns_count pd" "ns_count pd \<le> MAX_NS_DEPTH" "?n \<le> MAX_NS_DEPTH" "length ?ids = MAX_NS_DEPTH"
    "length (ns_hierarchy pd) = MAX_NS_DEPTH" using Cons.prems assms(1) by (auto simp: pd_ok_def)
  then have "element (ns_hierarchy pd) i = Inr (ns_hierarchy pd ! i)" "element ?ids (?n - i - 1) = Inr (?ids ! (?n - i - 1))"
    "element ?ids (?n - ns_count pd) = Inr (?ids ! (?n - ns_count pd))"
    using assms(2) by (auto simp: element_def)
  then show ?case using Cons by (simp add: Let_def)
qed simp

lemma translate_match:
  assumes "pd_ok pd" "0 < ns_count pd" "ns_count pd \<le> id_count pd (tip_type tip)"
  shows "translate_id_loop pd p [0..<ns_count pd] tip =
    Inr (case id_match (take (ns_count pd) (ns_hierarchy pd)) (take (id_count pd (tip_type tip)) (id_hierarchy pd (tip_type tip)))
           (from_ns tip) (from_id tip) of
           None \<Rightarrow> tip | Some r \<Rightarrow> tip\<lparr>result_id := r, tip_pd := p\<rparr>)"
proof -
  let ?ids = "id_hierarchy pd (tip_type tip)" and ?n = "id_count pd (tip_type tip)" and ?c = "ns_count pd"
  have b: "?c \<le> MAX_NS_DEPTH" "?n \<le> MAX_NS_DEPTH" "length ?ids = MAX_NS_DEPTH" "length (ns_hierarchy pd) = MAX_NS_DEPTH"
    using assms(1) by (auto simp: pd_ok_def)
  have f: "find (\<lambda>i. take ?c (ns_hierarchy pd) ! i = from_ns tip) [0..<?c] = find (\<lambda>i. ns_hierarchy pd ! i = from_ns tip) [0..<?c]"
    by (rule find_cong) simp_all
  have l: "length (take ?c (ns_hierarchy pd)) = ?c" "length (take ?n ?ids) = ?n" using b by simp_all
  have ne: "take ?c (ns_hierarchy pd) \<noteq> []" using l(1) assms(2) by (metis length_0_conv less_numeral_extra(3))
  have loop: "\<forall>i \<in> set [0..<?c]. i < ?c" and nl: "\<not> ?n < ?c" using assms(3) by simp_all
  show ?thesis
  proof (cases "find (\<lambda>i. ns_hierarchy pd ! i = from_ns tip) [0..<?c]")
    case None
    then show ?thesis
      unfolding translate_id_loop_spec [OF assms(1,3) loop] id_match_def l f using ne nl by simp
  next
    case (Some i)
    then have "?n - i - 1 < ?n" "?n - ?c < ?n" using assms(2,3) unfolding find_upt_Some by simp_all
    then have t: "take ?n ?ids ! (?n - i - 1) = ?ids ! (?n - i - 1)" "take ?n ?ids ! (?n - ?c) = ?ids ! (?n - ?c)"
      by (simp_all only: nth_take)
    show ?thesis
      unfolding translate_id_loop_spec [OF assms(1,3) loop] id_match_def l f Some option.case t using ne nl by simp
  qed
qed

definition same_query :: "translate_id_params \<Rightarrow> translate_id_params \<Rightarrow> bool" where
  "same_query tip tip' \<longleftrightarrow> from_ns tip' = from_ns tip \<and> from_id tip' = from_id tip \<and> tip_type tip' = tip_type tip"

lemma same_query_simps [simp]:
  "same_query tip tip" "same_query tip (tip\<lparr>result_id := r\<rparr>)" "same_query tip (tip\<lparr>result_id := r, tip_pd := p\<rparr>)"
  "same_query tip (tip\<lparr>tip_pd := p\<rparr>)"
  by (simp_all add: same_query_def)

lemma same_query_trans: "same_query a b \<Longrightarrow> same_query b c \<Longrightarrow> same_query a c"
  by (simp add: same_query_def)

abbreviation answer :: "('k, 'f) proc_env \<Rightarrow> 'k \<Rightarrow> translate_id_params \<Rightarrow> int \<Rightarrow> int option" where
  "answer E k tip \<equiv> proc_answer E k (tip_type tip) (from_ns tip) (from_id tip)"

text \<open>A result is what /proc says of the process that the record is for.\<close>

definition sound :: "('k, 'f) proc_env \<Rightarrow> 'k \<Rightarrow> pidns \<times> translate_id_params \<Rightarrow> bool" where
  "sound E k = (\<lambda>(st, tip). pidns_inv st \<and>
     (if tip_pd tip = 0 then result_id tip = 0
      else \<exists>pd. points st (tip_pd tip) pd \<and> (result_id tip \<noteq> 0 \<longrightarrow> answer E k tip (proc_pid pd) = Some (result_id tip))))"

lemma translate_fresh:
  assumes "pidns_inv st" "proc_laws E k" "\<not> ns_get_parent_enotty st" "int_range pid" "pid \<noteq> 0"
  obtains st1 tip1 where "translate_id_proc_pid E k pid (st, tip) = Inr (st1, tip1)" "tables_grown st st1" "same_query tip tip1"
    "sound E k (st1, tip1)" "length (proc_datas st1) < HEAP \<Longrightarrow> answer E k tip pid = Some r \<Longrightarrow> result_id tip1 = r"
proof -
  let ?tip = "tip\<lparr>result_id := 0, tip_pd := 0\<rparr>"
  obtain p st1 where g: "get_or_create_proc_data pid st = (p, st1)" by fastforce
  note c = get_or_create_spec [OF assms(1,4,5) g]
  show ?thesis
  proof (cases "p = 0")
    case True
    then show ?thesis using that [of st1 ?tip] c g assms(5) by (simp add: translate_id_proc_pid_def sound_def)
  next
    case False
    then obtain pd where pd: "points st1 p pd" "proc_pid pd = pid" using c by auto
    have e: "\<not> ns_get_parent_enotty st1" using c tables_grown_fields [of st st1] assms(3) by simp
    define ok where "ok \<longleftrightarrow> namespaces E k pid \<noteq> [] \<and> snd (get_id_list E k pid (tip_type tip)) \<noteq> []"
    obtain st2 where u: "update_proc_data E k p (tip_type tip) st1 = Inr (ok, st2)" "pidns_inv st2" "tables_grown st1 st2"
      "ok \<Longrightarrow> \<exists>pd'. points st2 p pd' \<and> current E k (tip_type tip) pid pd'"
      using update_spec [of st1 p pd E k ok "tip_type tip"] c pd assms(2) e ok_def by auto
    have gr: "tables_grown st st2" using c u(3) tables_grown_trans by blast
    show ?thesis
    proof (cases ok)
      case no: False
      have "answer E k tip pid = None" using no unfolding ok_def by (auto simp: proc_answer_def id_match_def)
      then show ?thesis
        using that [of st2 ?tip] gr u no g False assms(5) by (simp add: translate_id_proc_pid_def sound_def)
    next
      case yes: True
      then obtain pd' where pd': "points st2 p pd'" "current E k (tip_type tip) pid pd'" using u(4) by blast
      have pdok: "pd_ok pd'" using points_ok [OF u(2) pd'(1)] by simp
      have run: "translate_id_proc_pid E k pid (st, tip) =
          (if ns_count pd' = 0 \<or> id_count pd' (tip_type tip) < ns_count pd' then Inr (st2, ?tip)
           else rbind (translate_id_loop pd' p [0..<ns_count pd'] ?tip) (\<lambda>tip. Inr (st2, tip)))"
        using g False u(1) yes assms(5) points_get [OF pd'(1)] by (simp add: translate_id_proc_pid_def)
      show ?thesis
      proof (cases "ns_count pd' = 0 \<or> id_count pd' (tip_type tip) < ns_count pd'")
        case True
        moreover have "ns_count pd' = length (namespaces E k pid)"
          "id_count pd' (tip_type tip) = length (snd (get_id_list E k pid (tip_type tip)))"
          using pd'(2) unfolding current_def by blast+
        ultimately have "answer E k tip pid = None" by (auto simp: proc_answer_def id_match_def)
        then show ?thesis using that [of st2 ?tip] gr u(2) run True by (simp add: sound_def)
      next
        case cont: False
        have cur: "take (ns_count pd') (ns_hierarchy pd') = namespaces E k pid"
          "take (id_count pd' (tip_type tip)) (id_hierarchy pd' (tip_type tip)) = snd (get_id_list E k pid (tip_type tip))"
          "proc_pid pd' = pid" using pd'(2) unfolding current_def by blast+
        have "id_match (take (ns_count pd') (ns_hierarchy pd')) (take (id_count pd' (tip_type tip)) (id_hierarchy pd' (tip_type tip)))
            (from_ns tip) (from_id tip) = answer E k tip pid"
          unfolding cur proc_answer_def ..
        then have "translate_id_proc_pid E k pid (st, tip) =
            Inr (st2, case answer E k tip pid of None \<Rightarrow> ?tip | Some r \<Rightarrow> ?tip\<lparr>result_id := r, tip_pd := p\<rparr>)"
          using run cont translate_match [OF pdok, of ?tip p] by simp
        note run' = this
        show ?thesis
        proof (cases "answer E k tip pid")
          case None
          then show ?thesis using that [of st2 ?tip] run' gr u(2) by (simp add: sound_def)
        next
          case (Some a)
          have "sound E k (st2, ?tip\<lparr>result_id := a, tip_pd := p\<rparr>)"
            using u(2) pd'(1) False Some cur(3) by (auto simp: sound_def)
          then show ?thesis using that [of st2 "?tip\<lparr>result_id := a, tip_pd := p\<rparr>"] run' gr Some by simp
        qed
      qed
    qed
  qed
qed

section \<open>All processes\<close>

text \<open>A step that keeps the query and gives only sound results; \<open>found\<close> says when it has one.\<close>

definition step_ok ::
    "('k, 'f) proc_env \<Rightarrow> 'k \<Rightarrow> bool \<Rightarrow> pidns \<times> translate_id_params \<Rightarrow> fault + pidns \<times> translate_id_params \<Rightarrow> bool" where
  "step_ok E k found s r \<longleftrightarrow> (\<exists>s'. r = Inr s' \<and> tables_grown (fst s) (fst s') \<and> same_query (snd s) (snd s') \<and> sound E k s' \<and>
     (found \<and> length (proc_datas (fst s')) < HEAP \<longrightarrow> result_id (snd s') \<noteq> 0))"

lemma step_ok_refl: "sound E k s \<Longrightarrow> (found \<Longrightarrow> result_id (snd s) \<noteq> 0) \<Longrightarrow> step_ok E k found s (Inr s)"
  by (simp add: step_ok_def)

lemma step_ok_bind:
  assumes "step_ok E k a s r" "\<And>s'. r = Inr s' \<Longrightarrow> sound E k s' \<Longrightarrow> tables_grown (fst s) (fst s') \<Longrightarrow> same_query (snd s) (snd s') \<Longrightarrow>
      (a \<Longrightarrow> length (proc_datas (fst s')) < HEAP \<Longrightarrow> result_id (snd s') \<noteq> 0) \<Longrightarrow> step_ok E k found s' (f s')"
  shows "step_ok E k found s (rbind r f)"
proof -
  obtain s' where s': "r = Inr s'" "tables_grown (fst s) (fst s')" "same_query (snd s) (snd s')" "sound E k s'"
    "a \<Longrightarrow> length (proc_datas (fst s')) < HEAP \<Longrightarrow> result_id (snd s') \<noteq> 0"
    using assms(1) unfolding step_ok_def by blast
  then have "step_ok E k found s' (f s')" using assms(2) by blast
  then obtain s'' where "f s' = Inr s''" "tables_grown (fst s') (fst s'')" "same_query (snd s') (snd s'')" "sound E k s''"
    "found \<and> length (proc_datas (fst s'')) < HEAP \<longrightarrow> result_id (snd s'') \<noteq> 0"
    unfolding step_ok_def by blast
  then show ?thesis
    using s'(1) tables_grown_trans [OF s'(2)] same_query_trans [OF s'(3)] unfolding step_ok_def by simp
qed

definition matches :: "('k, 'f) proc_env \<Rightarrow> 'k \<Rightarrow> translate_id_params \<Rightarrow> int \<Rightarrow> bool" where
  "matches E k tip pid \<longleftrightarrow> (\<exists>r. answer E k tip pid = Some r \<and> r \<noteq> 0)"

lemma matches_same: "same_query tip tip' \<Longrightarrow> matches E k tip' pid = matches E k tip pid"
  by (simp add: matches_def same_query_def)

lemma fresh_step:
  assumes "sound E k s" "proc_laws E k" "\<not> ns_get_parent_enotty (fst s)" "int_range pid" "pid \<noteq> 0"
  shows "step_ok E k (matches E k (snd s) pid) s (translate_id_proc_pid E k pid s)"
proof (cases "matches E k (snd s) pid")
  case True
  then obtain r where r: "answer E k (snd s) pid = Some r" "r \<noteq> 0" by (auto simp: matches_def)
  have "pidns_inv (fst s)" using assms(1) by (auto simp: sound_def)
  from translate_fresh [OF this assms(2-5), of "snd s" r] obtain st1 tip1 where
    "translate_id_proc_pid E k pid s = Inr (st1, tip1)" "tables_grown (fst s) st1" "same_query (snd s) tip1" "sound E k (st1, tip1)"
    "length (proc_datas st1) < HEAP \<Longrightarrow> result_id tip1 = r" using r(1) by (metis prod.collapse)
  then show ?thesis using r(2) by (auto simp: step_ok_def)
next
  case False
  have "pidns_inv (fst s)" using assms(1) by (auto simp: sound_def)
  from translate_fresh [OF this assms(2-5), of "snd s"] obtain st1 tip1 where
    "translate_id_proc_pid E k pid s = Inr (st1, tip1)" "tables_grown (fst s) st1" "same_query (snd s) tip1" "sound E k (st1, tip1)"
    by (metis prod.collapse)
  then show ?thesis using False by (auto simp: step_ok_def)
qed

lemma cached_step:
  assumes "pidns_inv st" "points st p pd"
  obtains tip1 where "translate_id_proc_pid E k 0 (st, tip\<lparr>tip_pd := p\<rparr>) = Inr (st, tip1)" "same_query tip tip1"
    "tip_pd tip1 = p \<or> tip_pd tip1 = 0 \<and> result_id tip1 = 0"
proof -
  let ?tip = "tip\<lparr>result_id := 0, tip_pd := 0\<rparr>"
  have pdok: "pd_ok pd" "p \<noteq> 0" using points_ok [OF assms] assms(2) by (simp_all add: points_def)
  have run: "translate_id_proc_pid E k 0 (st, tip\<lparr>tip_pd := p\<rparr>) =
      (if ns_count pd = 0 \<or> id_count pd (tip_type tip) < ns_count pd then Inr (st, ?tip)
       else rbind (translate_id_loop pd p [0..<ns_count pd] ?tip) (\<lambda>tip. Inr (st, tip)))"
    using pdok(2) points_get [OF assms(2)] by (simp add: translate_id_proc_pid_def)
  show ?thesis
  proof (cases "ns_count pd = 0 \<or> id_count pd (tip_type tip) < ns_count pd")
    case True
    then show ?thesis using that [of ?tip] run by (simp add: same_query_def)
  next
    case False
    note m = translate_match [OF pdok(1), of ?tip p]
    let ?m = "id_match (take (ns_count pd) (ns_hierarchy pd)) (take (id_count pd (tip_type tip)) (id_hierarchy pd (tip_type tip)))
      (from_ns tip) (from_id tip)"
    have "translate_id_loop pd p [0..<ns_count pd] ?tip = Inr (case ?m of None \<Rightarrow> ?tip | Some r \<Rightarrow> ?tip\<lparr>result_id := r, tip_pd := p\<rparr>)"
      using m False by simp
    then show ?thesis
      using that [of ?tip] that [of "?tip\<lparr>result_id := the ?m, tip_pd := p\<rparr>"] run False
      by (cases ?m) (simp_all add: same_query_def)
  qed
qed

lemma soundD: "sound E k s \<Longrightarrow> pidns_inv (fst s)"
  by (auto simp: sound_def)

lemma iterator_step:
  assumes "sound E k s" "proc_laws E k" "\<not> ns_get_parent_enotty (fst s)" "p \<noteq> 0 \<Longrightarrow> \<exists>pd. points (fst s) p pd"
  shows "step_ok E k False s (proc_data_cache_iterator_fn E k p s)"
proof (cases "p = 0 \<or> result_id (snd s) \<noteq> 0")
  case True
  then show ?thesis using step_ok_refl [OF assms(1)] by (cases s) (auto simp: proc_data_cache_iterator_fn_def)
next
  case False
  obtain st tip where s: "s = (st, tip)" by fastforce
  obtain pd where pd: "points st p pd" using False assms(4) s by auto
  have inv: "pidns_inv st" using soundD [OF assms(1)] s by simp
  obtain tip1 where c: "translate_id_proc_pid E k 0 (st, tip\<lparr>tip_pd := p\<rparr>) = Inr (st, tip1)" "same_query tip tip1"
    "tip_pd tip1 = p \<or> tip_pd tip1 = 0 \<and> result_id tip1 = 0" by (rule cached_step [OF inv pd])
  show ?thesis
  proof (cases "result_id tip1 = 0")
    case True
    then have "sound E k (st, tip1)" using inv pd c(3) by (auto simp: sound_def)
    then show ?thesis using False c True unfolding s by (simp add: proc_data_cache_iterator_fn_def step_ok_def)
  next
    case found: False
    have pid: "int_range (proc_pid pd)" "proc_pid pd \<noteq> 0" using points_ok [OF inv pd] by simp_all
    have e: "\<not> ns_get_parent_enotty st" using assms(3) s by simp
    obtain st1 tip2 where t: "translate_id_proc_pid E k (proc_pid pd) (st, tip1) = Inr (st1, tip2)" "tables_grown st st1" "same_query tip1 tip2"
      "sound E k (st1, tip2)" using translate_fresh [OF inv assms(2) e pid] by metis
    have "proc_data_cache_iterator_fn E k p s = Inr (st1, tip2)"
      using False c(1) found t(1) points_get [OF pd] unfolding s by (simp add: proc_data_cache_iterator_fn_def)
    then show ?thesis using t(2,4) same_query_trans [OF c(2) t(3)] unfolding s by (simp add: step_ok_def)
  qed
qed

lemma iterate_cache_step:
  assumes "proc_laws E k"
  shows "sound E k s \<Longrightarrow> \<not> ns_get_parent_enotty (fst s) \<Longrightarrow> step_ok E k False s (iterate_cache E k calls s)"
proof (induction calls arbitrary: s)
  case Nil
  then show ?case by (simp add: step_ok_refl)
next
  case (Cons c calls)
  obtain key v where c: "c = (key, v)" by fastforce
  let ?p = "unat (trie_get (proc_data_cache (fst s)) key)"
  have "\<exists>pd. points (fst s) ?p pd" if "?p \<noteq> 0"
    using cached_points [OF soundD [OF Cons.prems(1)], of key] that by (metis unat_0)
  from step_ok_bind [OF iterator_step [OF Cons.prems(1) assms Cons.prems(2) this]] show ?case
    unfolding c iterate_cache.simps using Cons.IH Cons.prems(2) tables_grown_fields by simp
qed

lemma search_cache_step:
  assumes "sound E k s" "proc_laws E k" "\<not> ns_get_parent_enotty (fst s)"
  shows "step_ok E k False s (search_cache E k s)"
proof -
  let ?t = "proc_data_cache (fst s)" and ?m = "pid_max (fst s)"
  have inv: "trie_inv ?t" "0 < ?m" "?m \<le> INT_MAX" "fits ?t (of_int (?m - 1))"
    using soundD [OF assms(1)] by (simp_all add: pidns_inv_def cache_ok_def)
  have "sint (of_int (?m - 1) :: u64) = ?m - 1" using inv(2,3) by (simp only: int_word_sint) simp
  then have "of_int (?m - 1) \<noteq> (- 1 :: u64)" using inv(2) by (metis diff_ge_0_iff_ge int_one_le_iff_zero_less neg_0_le_iff_le not_one_le_zero sint_n1)
  from trie_iterate_visit [OF inv(1) _ inv(4) this, of 0] obtain calls n where
    "trie_iterate_keys ?t 0 (of_int (?m - 1)) = Some (calls, n)" by (simp add: visited_def)
  then show ?thesis using iterate_cache_step [OF assms(2,1,3)] by (simp add: search_cache_def)
qed

text \<open>The processes that the names of a directory stand for.\<close>

definition listed_in :: "(bool \<times> string) list \<Rightarrow> int \<Rightarrow> bool" where
  "listed_in es pid \<longleftrightarrow> (\<exists>name rest. (True, name) \<in> set es \<and> strtoll10 name = (pid, False, rest)) \<and> 1 \<le> pid \<and> pid \<le> INT_MAX"

definition task_listed :: "('k, 'f) proc_env \<Rightarrow> 'k \<Rightarrow> int \<Rightarrow> int \<Rightarrow> bool" where
  "task_listed E k q pid \<longleftrightarrow> (\<exists>es. pv_dir E (''/proc/'' @ dec_string (nat q) @ ''/task'') k = Some es \<and> listed_in es pid)"

definition listed :: "('k, 'f) proc_env \<Rightarrow> 'k \<Rightarrow> int \<Rightarrow> bool" where
  "listed E k pid \<longleftrightarrow> (\<exists>es. pv_dir E ''/proc'' k = Some es \<and> (listed_in es pid \<or> (\<exists>q. listed_in es q \<and> task_listed E k q pid)))"

lemma entries_done: "result_id (snd s) \<noteq> 0 \<Longrightarrow> translate_id_entries E k sub es s = Inr s"
  by (cases es) auto

lemma entries_step:
  assumes "proc_laws E k"
    and sub: "\<And>q s. sound E k s \<Longrightarrow> \<not> ns_get_parent_enotty (fst s) \<Longrightarrow> step_ok E k (found q (snd s)) s (sub q s)"
    and same: "\<And>q tip tip'. same_query tip tip' \<Longrightarrow> found q tip' = found q tip"
  shows "sound E k s \<Longrightarrow> \<not> ns_get_parent_enotty (fst s) \<Longrightarrow>
    step_ok E k (\<exists>q. listed_in es q \<and> (matches E k (snd s) q \<or> found q (snd s))) s (translate_id_entries E k sub es s)"
proof (induction es arbitrary: s)
  case Nil
  then show ?case by (simp add: step_ok_refl listed_in_def)
next
  case (Cons e es)
  obtain is_dir name where e: "e = (is_dir, name)" by fastforce
  obtain pid erange rest where n: "strtoll10 name = (pid, erange, rest)" by (metis prod.exhaust)
  let ?F = "\<lambda>es s. \<exists>q. listed_in es q \<and> (matches E k (snd s) q \<or> found q (snd s))"
  let ?skip = "\<not> is_dir \<or> pid < 1 \<or> pid > INT_MAX \<or> erange"
  have l: "listed_in (e # es) q \<longleftrightarrow> listed_in es q \<or> (\<not> ?skip \<and> q = pid)" for q
    using n by (auto simp: listed_in_def e)
  show ?case
  proof (cases "result_id (snd s) \<noteq> 0")
    case True
    then show ?thesis using step_ok_refl [OF Cons.prems(1), of "?F (e # es) s"] by (simp add: e)
  next
    case no: False
    show ?thesis
    proof (cases ?skip)
      case True
      then have "translate_id_entries E k sub (e # es) s = translate_id_entries E k sub es s" using no n by (auto simp: e)
      moreover have "?F (e # es) s = ?F es s" using True by (simp add: l)
      ultimately show ?thesis using Cons.IH [OF Cons.prems] by simp
    next
      case False
      let ?rest = "\<lambda>s. if result_id (snd s) \<noteq> 0 then Inr s else rbind (translate_id_proc_pid E k pid s) (translate_id_entries E k sub es)"
      have run: "translate_id_entries E k sub (e # es) s = rbind (sub pid s) ?rest" using no False n by (simp add: e)
      have pid: "int_range pid" "pid \<noteq> 0" using False by (simp_all add: int_range_def)
      show ?thesis
        unfolding run
      proof (rule step_ok_bind [OF sub [OF Cons.prems]])
        fix s1 assume s1: "sound E k s1" "tables_grown (fst s) (fst s1)" "same_query (snd s) (snd s1)"
          and f1: "found pid (snd s) \<Longrightarrow> length (proc_datas (fst s1)) < HEAP \<Longrightarrow> result_id (snd s1) \<noteq> 0"
        have e1: "\<not> ns_get_parent_enotty (fst s1)" using tables_grown_fields [OF s1(2)] Cons.prems(2) by simp
        show "step_ok E k (?F (e # es) s) s1 (?rest s1)"
        proof (cases "result_id (snd s1) \<noteq> 0")
          case True
          then show ?thesis using step_ok_refl [OF s1(1)] by simp
        next
          case none: False
          have "step_ok E k (?F (e # es) s) s1 (rbind (translate_id_proc_pid E k pid s1) (translate_id_entries E k sub es))"
          proof (rule step_ok_bind [OF fresh_step [OF s1(1) assms(1) e1 pid]])
            fix s2 assume s2: "sound E k s2" "tables_grown (fst s1) (fst s2)" "same_query (snd s1) (snd s2)"
              and f2: "matches E k (snd s1) pid \<Longrightarrow> length (proc_datas (fst s2)) < HEAP \<Longrightarrow> result_id (snd s2) \<noteq> 0"
            have e2: "\<not> ns_get_parent_enotty (fst s2)" using tables_grown_fields [OF s2(2)] e1 by simp
            obtain s' where s': "translate_id_entries E k sub es s2 = Inr s'" "tables_grown (fst s2) (fst s')" "same_query (snd s2) (snd s')"
              "sound E k s'" "?F es s2 \<and> length (proc_datas (fst s')) < HEAP \<longrightarrow> result_id (snd s') \<noteq> 0"
              using Cons.IH [OF s2(1) e2] unfolding step_ok_def by blast
            have q: "same_query (snd s) (snd s2)" by (rule same_query_trans [OF s1(3) s2(3)])
            have "result_id (snd s') \<noteq> 0" if F: "?F (e # es) s" and len: "length (proc_datas (fst s')) < HEAP"
            proof -
              have lens: "length (proc_datas (fst s2)) < HEAP" "length (proc_datas (fst s1)) < HEAP"
                using len tables_grown_fields [OF s'(2)] tables_grown_fields [OF s2(2)] by simp_all
              consider "?F es s" | "matches E k (snd s) pid" | "found pid (snd s)" using F unfolding l by blast
              then show ?thesis
              proof cases
                case 1
                then have "?F es s2" by (simp add: same [OF q] matches_same [OF q])
                then show ?thesis using s'(5) len by blast
              next
                case 2
                then have "result_id (snd s2) \<noteq> 0" using f2 lens(1) by (simp add: matches_same [OF s1(3)])
                then show ?thesis using entries_done [of s2 E k sub es] s'(1) by simp
              next
                case 3
                then show ?thesis using f1 lens(2) none by blast
              qed
            qed
            then show "step_ok E k (?F (e # es) s) s2 (translate_id_entries E k sub es s2)"
              using s'(1-4) unfolding step_ok_def by blast
          qed
          then show ?thesis using none by simp
        qed
      qed
    qed
  qed
qed

lemma task_dir_step:
  assumes "proc_laws E k" "sound E k s" "\<not> ns_get_parent_enotty (fst s)"
  shows "step_ok E k (\<exists>t. task_listed E k q t \<and> matches E k (snd s) t) s (translate_id_task_dir E k q s)"
proof (cases "pv_dir E (''/proc/'' @ dec_string (nat q) @ ''/task'') k")
  case None
  then show ?thesis using step_ok_refl [OF assms(2)] by (simp add: translate_id_task_dir_def translate_id_dir_def task_listed_def)
next
  case (Some es)
  have "step_ok E k (\<exists>q. listed_in es q \<and> (matches E k (snd s) q \<or> False)) s (translate_id_entries E k (\<lambda>pid. Inr) es s)"
    by (rule entries_step [OF assms(1) _ _ assms(2,3), of "\<lambda>_ _. False" "\<lambda>pid. Inr"]) (simp_all add: step_ok_refl)
  then show ?thesis using Some by (simp add: translate_id_task_dir_def translate_id_dir_def task_listed_def)
qed

lemma proc_dir_step:
  assumes "proc_laws E k" "sound E k s" "\<not> ns_get_parent_enotty (fst s)"
  shows "step_ok E k (\<exists>pid. listed E k pid \<and> matches E k (snd s) pid) s (translate_id_proc_dir E k s)"
proof (cases "pv_dir E ''/proc'' k")
  case None
  then show ?thesis using step_ok_refl [OF assms(2)] by (simp add: translate_id_proc_dir_def translate_id_dir_def listed_def)
next
  case (Some es)
  let ?f = "\<lambda>q tip. \<exists>t. task_listed E k q t \<and> matches E k tip t"
  have "step_ok E k (\<exists>q. listed_in es q \<and> (matches E k (snd s) q \<or> ?f q (snd s))) s (translate_id_entries E k (translate_id_task_dir E k) es s)"
    by (rule entries_step [OF assms(1) task_dir_step [OF assms(1)] _ assms(2,3)]) (simp_all add: matches_same)
  moreover have "(\<exists>q. listed_in es q \<and> (matches E k (snd s) q \<or> ?f q (snd s))) = (\<exists>pid. listed E k pid \<and> matches E k (snd s) pid)"
    using Some by (auto simp: listed_def)
  ultimately show ?thesis using Some by (simp add: translate_id_proc_dir_def translate_id_dir_def)
qed

section \<open>The search\<close>

lemma put_proc_pid_spec:
  assumes "pidns_inv st" "length (pid_tries st) < HEAP"
  obtains st1 where "put_proc_pid ns nid type pid st = Inr st1" "pidns_inv st1" "proc_datas st1 = proc_datas st"
proof -
  let ?t = "ns_pid_to_proc_pid st type" and ?ts = "pid_tries st"
  let ?b = "unat (trie_get ?t (ucast ns))"
  have t: "trie_inv (ns_pid_to_proc_pid st ty)" "item_size_lg (ns_pid_to_proc_pid st ty) = ptr_sz_lg"
    "unat (trie_get (ns_pid_to_proc_pid st ty) key) \<le> length ?ts" for ty key using assms(1) by (simp_all add: pidns_inv_def)
  have ts: "\<forall>t \<in> set ?ts. trie_inv t" using assms(1) by (simp add: pidns_inv_def)
  show ?thesis
  proof (cases "?b = 0")
    case False
    let ?ts' = "?ts[?b - 1 := snd (trie_set (?ts ! (?b - 1)) (of_int nid) (of_int pid))]"
    have "?b - 1 < length ?ts" using False t(3) [of type "ucast ns"] by simp
    then have "trie_inv (snd (trie_set (?ts ! (?b - 1)) (of_int nid) (of_int pid)))" using ts trie_set_inv by simp
    then have "\<forall>t \<in> set ?ts'. trie_inv t" using ts set_update_subset_insert [of ?ts "?b - 1"] by blast
    then have "pidns_inv (st\<lparr>pid_tries := ?ts'\<rparr>)" using assms(1) by (simp add: pidns_inv_def)
    then show ?thesis using that False by (simp add: put_proc_pid_def Let_def)
  next
    case True
    have sz: "4 \<le> pid_max_size st" "pid_max_size st \<le> 32" "pid_max_size_lg st \<le> 6" using assms(1) by (simp_all add: pidns_inv_def)
    then obtain t0 where t0: "trie_create (pid_max_size st) (pid_max_size_lg st) 4 4 0 = Some t0"
      by (simp add: trie_create_def Let_def)
    then have i0: "trie_inv t0" using trie_create_inv(1) [OF t0] sz by simp
    let ?p = "length ?ts + 1"
    let ?ts' = "(?ts @ [t0])[?p - 1 := snd (trie_set ((?ts @ [t0]) ! (?p - 1)) (of_int nid) (of_int pid))]"
    let ?f = "(ns_pid_to_proc_pid st)(type := snd (trie_set ?t (ucast ns) (of_nat ?p)))"
    have eq: "?ts' = ?ts @ [snd (trie_set t0 (of_int nid) (of_int pid))]" by simp
    have "\<forall>t \<in> set ?ts'. trie_inv t" unfolding eq using ts i0 trie_set_inv by simp
    moreover have "unat (trie_get (?f ty) key) \<le> length ?ts'" for ty key
    proof -
      have "trie_get (snd (trie_set ?t (ucast ns) (of_nat ?p))) = (if fits ?t (ucast ns) then (trie_get ?t)(ucast ns := of_nat ?p) else trie_get ?t)"
        using tr.get_put [OF t(1), of type "ucast ns" "of_nat ?p"] tr.put_out [OF t(1), of type "ucast ns" "of_nat ?p"] t(2) by simp
      moreover have "unat (of_nat ?p :: u64) = ?p" by (rule unat_pointer) (use assms(2) in simp)
      ultimately show ?thesis using t(3) [of ty key] t(3) [of type key] by (cases "ty = type") (auto simp: le_SucI)
    qed
    moreover have "trie_inv (?f ty)" "item_size_lg (?f ty) = ptr_sz_lg" for ty using t trie_set_inv by simp_all
    ultimately have "pidns_inv (st\<lparr>ns_pid_to_proc_pid := ?f, pid_tries := ?ts'\<rparr>)"
      using assms unfolding pidns_inv_def by simp
    moreover have "put_proc_pid ns nid type pid st = Inr (st\<lparr>ns_pid_to_proc_pid := ?f, pid_tries := ?ts'\<rparr>)"
      using True t0 assms(2) by (simp add: put_proc_pid_def create_trie_4_def Let_def)
    ultimately show ?thesis using that by simp
  qed
qed

lemma rbind_assoc: "rbind (rbind r f) g = rbind r (\<lambda>x. rbind (f x) g)"
  by (cases r) simp_all

lemma sint_range: "int_range (sint (w :: u32))"
  using sint_greater_eq [of w] sint_less [of w] by (simp add: int_range_def)

lemma translate_search_spec:
  assumes "pidns_inv st" "proc_laws E k" "\<not> ns_get_parent_enotty st" "ns \<noteq> 0" "length (pid_tries st) < HEAP"
  obtains r pid st' where "translate_search E k ns nid type st = Inr ((r, pid), st')" "pidns_inv st'"
    "r \<noteq> 0 \<Longrightarrow> proc_answer E k type ns nid pid = Some r"
    "\<And>q. listed E k q \<Longrightarrow> proc_answer E k type ns nid q = Some a \<Longrightarrow> a \<noteq> 0 \<Longrightarrow> length (proc_datas st') < HEAP \<Longrightarrow> r \<noteq> 0"
proof -
  let ?tip = "\<lparr>from_ns = ns, from_id = nid, tip_type = type, result_id = 0, tip_pd = 0\<rparr>"
  let ?F = "\<exists>q. listed E k q \<and> matches E k ?tip q"
  let ?cached = "get_cached_proc_pid ns nid type st"
  let ?first = "if ?cached \<noteq> 0 then translate_id_proc_pid E k ?cached (st, ?tip) else Inr (st, ?tip)"
  let ?second = "\<lambda>s. if result_id (snd s) \<noteq> 0 then Inr s else search_cache E k s"
  let ?third = "\<lambda>s. if result_id (snd s) \<noteq> 0 then Inr s else translate_id_proc_dir E k s"
  have s0: "sound E k (st, ?tip)" "\<not> ns_get_parent_enotty (fst (st, ?tip))" using assms(1,3) by (simp_all add: sound_def)
  have "int_range ?cached" using sint_range by (simp add: get_cached_proc_pid_def Let_def int_range_def)
  then have "step_ok E k False (st, ?tip) ?first"
    using fresh_step [OF s0(1) assms(2) s0(2), of ?cached] step_ok_refl [OF s0(1)] by (auto simp: step_ok_def)
  then have "step_ok E k ?F (st, ?tip) (rbind ?first (\<lambda>s. rbind (?second s) ?third))"
  proof (rule step_ok_bind)
    fix s1 assume s1: "sound E k s1" "tables_grown (fst (st, ?tip)) (fst s1)" "same_query (snd (st, ?tip)) (snd s1)"
    have e1: "\<not> ns_get_parent_enotty (fst s1)" using tables_grown_fields [OF s1(2)] s0(2) by simp
    have "step_ok E k False s1 (?second s1)"
      using search_cache_step [OF s1(1) assms(2) e1] step_ok_refl [OF s1(1)] by simp
    then show "step_ok E k ?F s1 (rbind (?second s1) ?third)"
    proof (rule step_ok_bind)
      fix s2 assume s2: "sound E k s2" "tables_grown (fst s1) (fst s2)" "same_query (snd s1) (snd s2)"
      have e2: "\<not> ns_get_parent_enotty (fst s2)" using tables_grown_fields [OF s2(2)] e1 by simp
      have "?F = (\<exists>q. listed E k q \<and> matches E k (snd s2) q)"
        using matches_same [OF same_query_trans [OF s1(3) s2(3)], of E k] by simp
      then show "step_ok E k ?F s2 (?third s2)"
        using proc_dir_step [OF assms(2) s2(1) e2] step_ok_refl [OF s2(1)] by simp
    qed
  qed
  then obtain s where s: "rbind ?first (\<lambda>s. rbind (?second s) ?third) = Inr s" "tables_grown st (fst s)" "same_query ?tip (snd s)" "sound E k s"
    "?F \<and> length (proc_datas (fst s)) < HEAP \<longrightarrow> result_id (snd s) \<noteq> 0"
    unfolding step_ok_def fst_conv snd_conv by blast
  obtain st1 tip1 where s': "s = (st1, tip1)" by fastforce
  let ?last = "\<lambda>(st, tip). if tip_pd tip = 0 then Inr ((result_id tip, 0), st)
    else rbind (get_proc_data (tip_pd tip) st) (\<lambda>pd.
      rbind (if proc_pid pd \<noteq> 0 then put_proc_pid ns nid type (proc_pid pd) st else Inr st) (\<lambda>st. Inr ((result_id tip, proc_pid pd), st)))"
  have "translate_search E k ns nid type st = rbind (rbind ?first (\<lambda>s. rbind (?second s) ?third)) ?last"
    using assms(3,4) by (simp add: translate_search_def Let_def rbind_assoc)
  then have run: "translate_search E k ns nid type st = ?last (st1, tip1)" unfolding s(1) s' by simp
  have inv: "pidns_inv st1" using soundD [OF s(4)] s' by simp
  have comp: "result_id tip1 \<noteq> 0" if "listed E k q" "proc_answer E k type ns nid q = Some a" "a \<noteq> 0" "length (proc_datas st1) < HEAP" for q
  proof -
    have "matches E k ?tip q" using that(2,3) by (auto simp: matches_def)
    then show ?thesis using s(5) that(1,4) s' by auto
  qed
  show ?thesis
  proof (cases "tip_pd tip1 = 0")
    case True
    then have "result_id tip1 = 0" using s(4) s' by (simp add: sound_def)
    with True show ?thesis
      by (intro that [of "result_id tip1" 0 st1]) (use run inv comp in auto)
  next
    case False
    then obtain pd where pd: "points st1 (tip_pd tip1) pd"
      "result_id tip1 \<noteq> 0 \<Longrightarrow> proc_answer E k type ns nid (proc_pid pd) = Some (result_id tip1)"
      using s(3,4) s' by (auto simp: sound_def same_query_def)
    have "length (pid_tries st1) < HEAP" using tables_grown_fields [OF s(2)] assms(5) s' by simp
    from put_proc_pid_spec [OF inv this] obtain st2 where
      p: "put_proc_pid ns nid type (proc_pid pd) st1 = Inr st2" "pidns_inv st2" "proc_datas st2 = proc_datas st1" by blast
    have "translate_search E k ns nid type st = Inr ((result_id tip1, proc_pid pd), st2)"
      using run False points_get [OF pd(1)] points_ok [OF inv pd(1)] p(1) by simp
    then show ?thesis using that p(2,3) pd(2) comp by simp
  qed
qed

section \<open>The tables at the start\<close>

lemma ilog2_step:
  assumes "0 < v" "v < 2 ^ 2 ^ Suc b" "v0 div 2 ^ r = v" "2 ^ Suc b dvd r" "ilog2_iter b (v, r) = (v', r')"
  shows "0 < v'" "v' < 2 ^ 2 ^ b" "v0 div 2 ^ r' = v'" "2 ^ b dvd r'"
proof -
  obtain j where j: "r = 2 ^ Suc b * j" using assms(4) by blast
  then have "r div 2 ^ b = 2 * j" by (simp add: mult.assoc)
  then have "\<not> bit r b" by (simp add: bit_iff_odd)
  then have "r OR 2 ^ b = r + 2 ^ b" by (simp add: disjunctive_add_eq_or and_exp_eq_0_iff_not_bit)
  moreover have "(2 :: nat) ^ 2 ^ Suc b = 2 ^ 2 ^ b * 2 ^ 2 ^ b" by (simp add: power_add [symmetric] mult_2)
  ultimately have "0 < v' \<and> v' < 2 ^ 2 ^ b \<and> v0 div 2 ^ r' = v' \<and> 2 ^ b dvd r'"
  proof (cases "v > 2 ^ 2 ^ b - 1")
    case True
    then have e: "v' = v div 2 ^ 2 ^ b" "r' = r + 2 ^ b"
      using assms(5) \<open>r OR 2 ^ b = r + 2 ^ b\<close> by (simp_all add: ilog2_iter_def drop_bit_eq_div)
    have "v < 2 ^ 2 ^ b * 2 ^ 2 ^ b" using assms(2) \<open>(2 :: nat) ^ 2 ^ Suc b = _\<close> by simp
    then have "v' < 2 ^ 2 ^ b" unfolding e by (rule less_mult_imp_div_less)
    moreover have "0 < v'" using True unfolding e by (simp add: div_greater_zero_iff)
    moreover have "v0 div 2 ^ r' = v'" unfolding e assms(3) [symmetric] by (simp add: power_add div_mult2_eq)
    moreover have "2 ^ b dvd r'" unfolding e j by simp
    ultimately show ?thesis by blast
  next
    case False
    then have "v' = v" "r' = r" using assms(5) by (simp_all add: ilog2_iter_def)
    moreover have "0 < (2 :: nat) ^ 2 ^ b" by simp
    then have "v < 2 ^ 2 ^ b" using False by linarith
    moreover have "2 ^ b dvd r" unfolding j by simp
    ultimately show ?thesis using assms(1,3) by blast
  qed
  then show "0 < v'" "v' < 2 ^ 2 ^ b" "v0 div 2 ^ r' = v'" "2 ^ b dvd r'" by simp_all
qed

lemma ilog2_32_spec:
  assumes "0 < v" "v < 2 ^ 32"
  shows "2 ^ ilog2_32 v \<le> v" "v < 2 ^ (ilog2_32 v + 1)"
proof -
  obtain v4 r4 v3 r3 v2 r2 v1 r1 v0 r0 where i: "ilog2_iter 4 (v, 0) = (v4, r4)" "ilog2_iter 3 (v4, r4) = (v3, r3)"
    "ilog2_iter 2 (v3, r3) = (v2, r2)" "ilog2_iter 1 (v2, r2) = (v1, r1)" "ilog2_iter 0 (v1, r1) = (v0, r0)" by (metis prod.exhaust)
  have "v < 2 ^ 2 ^ Suc 4" "v div 2 ^ 0 = v" "2 ^ Suc 4 dvd (0 :: nat)" using assms(2) by simp_all
  note s4 = ilog2_step [OF assms(1) this i(1)]
  have "v4 < 2 ^ 2 ^ Suc 3" "2 ^ Suc 3 dvd r4" using s4(2,4) by simp_all
  note s3 = ilog2_step [OF s4(1) this(1) s4(3) this(2) i(2)]
  have "v3 < 2 ^ 2 ^ Suc 2" "2 ^ Suc 2 dvd r3" using s3(2,4) by simp_all
  note s2 = ilog2_step [OF s3(1) this(1) s3(3) this(2) i(3)]
  have "v2 < 2 ^ 2 ^ Suc 1" "2 ^ Suc 1 dvd r2" using s2(2,4) by simp_all
  note s1 = ilog2_step [OF s2(1) this(1) s2(3) this(2) i(4)]
  have "v1 < 2 ^ 2 ^ Suc 0" "2 ^ Suc 0 dvd r1" using s1(2,4) by simp_all
  note s0 = ilog2_step [OF s1(1) this(1) s1(3) this(2) i(5)]
  have "0 < v0" "v0 < 2" "v div 2 ^ r0 = v0" using s0 by simp_all
  then have "v div 2 ^ r0 = 1" by simp
  moreover have "ilog2_32 v = r0" using i by (simp add: ilog2_32_def)
  ultimately show "2 ^ ilog2_32 v \<le> v" "v < 2 ^ (ilog2_32 v + 1)"
    using div_times_less_eq_dividend [of v "2 ^ r0"] dividend_less_div_times [of "2 ^ r0" v] by simp_all
qed

lemma empty_cache: "trie_create ks ptr_sz_lg 4 4 0 = Some t \<Longrightarrow> cache_ok t []"
proof -
  assume t: "trie_create ks ptr_sz_lg 4 4 0 = Some t"
  moreover have "item_size_lg t = ptr_sz_lg" "empty_value t = 0" using t by (auto simp: trie_create_def Let_def split: if_splits)
  ultimately show "cache_ok t []" using trie_create_inv [OF t] by (simp add: cache_ok_def)
qed

lemma pidns_init_inv:
  assumes "m = (case pv_pid_max E k of None \<Rightarrow> INT_MAX | Some m \<Rightarrow> m)" "8 < m" "m \<le> INT_MAX"
  shows "\<exists>st. pidns_init E k = Inr st \<and> pidns_inv st \<and> \<not> ns_get_parent_enotty st \<and> pid_tries st = [] \<and> proc_datas st = [] \<and> pid_max st = m"
proof -
  let ?v = "nat (m - 1)" and ?size = "ilog2_32 (nat (m - 1)) + 1"
  have v: "nat ((m - 1) mod 2 ^ 32) = ?v" "8 \<le> ?v" "?v < 2 ^ 31" using assms(2,3) by simp_all
  have l: "2 ^ ilog2_32 ?v \<le> ?v" "?v < 2 ^ ?size" using ilog2_32_spec [of ?v] v by simp_all
  have lo: "3 \<le> ilog2_32 ?v"
  proof (rule ccontr)
    assume "\<not> 3 \<le> ilog2_32 ?v"
    then have "(2 :: nat) ^ ?size \<le> 2 ^ 3" by (intro power_increasing) simp_all
    then show False using l(2) v(2) by simp
  qed
  have hi: "ilog2_32 ?v < 31"
  proof (rule ccontr)
    assume "\<not> ilog2_32 ?v < 31"
    then have "(2 :: nat) ^ 31 \<le> 2 ^ ilog2_32 ?v" by (intro power_increasing) simp_all
    then show False using l(1) v(3) by linarith
  qed
  have lg: "ilog2_32 (?size - 1) + 1 \<le> 6"
  proof (rule ccontr)
    assume "\<not> ?thesis"
    then have "(2 :: nat) ^ 6 \<le> 2 ^ ilog2_32 (ilog2_32 ?v)" by (intro power_increasing) simp_all
    moreover have "2 ^ ilog2_32 (ilog2_32 ?v) \<le> ilog2_32 ?v" by (rule ilog2_32_spec(1)) (use lo hi in simp_all)
    ultimately show False using hi by simp
  qed
  obtain t where t: "trie_create 32 ptr_sz_lg 4 4 0 = Some t" by (simp add: trie_create_def Let_def)
  obtain c where c: "trie_create ?size ptr_sz_lg 4 4 0 = Some c" using lo hi by (simp add: trie_create_def Let_def)
  have it: "trie_inv t" "item_size_lg t = ptr_sz_lg" "trie_get t key = 0" for key
    using trie_create_inv [OF t] t by (auto simp: trie_create_def Let_def split: if_splits)
  have ks: "key_size c = ?size" using c by (auto simp: trie_create_def Let_def split: if_splits)
  have "fits c (of_int (m - 1))"
  proof -
    have "of_int (m - 1) = (of_nat ?v :: u64)" using assms(2) by simp
    then have "unat (of_int (m - 1) :: u64) = ?v" using v(3) by (simp only: unat_of_nat) simp
    moreover have "unat (mask ?size :: u64) = 2 ^ ?size - 1" using hi by (intro unat_mask) simp
    ultimately show ?thesis using l(2) unfolding fits_def ks word_less_nat_alt by linarith
  qed
  moreover define st where "st = \<lparr>ns_pid_to_proc_pid = (\<lambda>_. t), pid_tries = [], proc_data_cache = c, proc_datas = [],
    ns_get_parent_enotty = False, pid_max = m, pid_max_size = ?size, pid_max_size_lg = ilog2_32 (?size - 1) + 1,
    proc_is_ours = None, our_ns = None\<rparr>"
  ultimately have "pidns_inv st"
    using empty_cache [OF c] it assms(2,3) lo hi lg by (simp add: pidns_inv_def)
  moreover have "pidns_init E k = Inr st"
    using t c by (simp add: pidns_init_def assms(1) [symmetric] v(1) [simplified] create_trie_4_def st_def Let_def)
  ultimately show ?thesis by (simp add: st_def)
qed

section \<open>What the translation promises\<close>

text \<open>C14: the translation of an id of a tracee's namespace never goes wrong and never answers from stale data:
  whatever the caches hold, a result is the id in the outermost namespace that /proc gives at this moment for a
  process with that id in that namespace, and the process is stored through the pointer. When /proc lists a process
  with an answer, as an entry or as a task of one, there is a result unless the memory is exhausted.\<close>

theorem translate_pid_correct:
  assumes "pidns_inv st" "proc_laws E k" "\<not> ns_get_parent_enotty st" "length (pid_tries st) < HEAP"
    and "our_ns st = Some own" "nt_pid_ns tcp \<noteq> 0" "nt_pid_ns tcp \<noteq> own" "0 < nid" "type \<notin> {PT_COUNT, PT_NONE}"
  shows "\<exists>r pid st'. translate_pid E k (Some tcp) nid type want st = Inr ((r, pid), Some tcp, st') \<and> pidns_inv st' \<and>
    (r \<noteq> 0 \<longrightarrow> proc_answer E k type (nt_pid_ns tcp) nid pid = Some r) \<and>
    (\<forall>q a. listed E k q \<and> proc_answer E k type (nt_pid_ns tcp) nid q = Some a \<and> a \<noteq> 0 \<longrightarrow> r \<noteq> 0 \<or> HEAP \<le> length (proc_datas st'))"
proof -
  have get: "get_ns E k tcp st = Inr (tcp, st)" "get_our_ns E k st = (own, st)"
    using assms(5,6) by (simp_all add: get_ns_def get_our_ns_def)
  have eq: "translate_pid E k (Some tcp) nid type want st =
      rbind (translate_search E k (nt_pid_ns tcp) nid type st) (\<lambda>(r, st). Inr (r, Some tcp, st))"
    using get assms(7-9) by (simp add: translate_pid_def)
  show ?thesis
  proof -
    obtain r pid st' where s: "translate_search E k (nt_pid_ns tcp) nid type st = Inr ((r, pid), st')" "pidns_inv st'"
      "r \<noteq> 0 \<Longrightarrow> proc_answer E k type (nt_pid_ns tcp) nid pid = Some r"
      using translate_search_spec [OF assms(1-3,6,4)] by metis
    have "r \<noteq> 0" if "listed E k q" "proc_answer E k type (nt_pid_ns tcp) nid q = Some a" "a \<noteq> 0" "length (proc_datas st') < HEAP" for q a
      using translate_search_spec [OF assms(1-3,6,4), of nid type a] s(1) that by (metis Inr_inject prod.inject)
    then show ?thesis using s eq by (fastforce simp: not_less [symmetric])
  qed
qed

text \<open>A process 7 of the outer namespace 100, which is the process 5 of the inner namespace 200.\<close>

definition one_process :: "(unit, u64) proc_env" where
  "one_process =
     \<lparr>pv_status = (\<lambda>path k. if path = ''/proc/7/status'' then Some [''Name:'' @ [TAB] @ ''sh'', ''NSpid:'' @ [TAB] @ ''7'' @ [TAB] @ ''5'' @ [CHR 0x0A]] else None),
      pv_open = (\<lambda>path k. if path = ''/proc/7/ns/pid'' then Some 200 else if path = ''/proc/self/ns/pid'' then Some 100 else None),
      pv_ino = (\<lambda>fd k. Some fd), pv_parent = (\<lambda>fd k. if fd = 200 then Inr 100 else Inl EPERM_n),
      pv_dir = (\<lambda>path k. if path = ''/proc'' then Some [(True, ''.''), (False, ''uptime''), (True, ''7'')] else None),
      pv_pid_max = (\<lambda>k. Some 32768)\<rparr>"

lemma parse_ids_length: "length (parse_ids p) \<le> Suc (length p)"
proof (induction p rule: parse_ids.induct)
  case (1 p)
  obtain n erange rest where n: "strtoll10 p = (n, erange, rest)" by (metis prod.exhaust)
  show ?case
  proof (cases "(n < 0 \<or> n > INT_MAX \<or> erange) \<or> strchr_split TAB p = None")
    case True
    then show ?thesis using n by (subst parse_ids.simps) auto
  next
    case False
    then obtain field p' where p': "strchr_split TAB p = Some (field, p')" by auto
    then have "length p' < length p" by (auto simp: strchr_split_Some)
    moreover have "length (parse_ids p') \<le> Suc (length p')" using 1 n p' False by auto
    ultimately show ?thesis using n False p' by (subst parse_ids.simps) simp
  qed
qed

lemma one_process_laws: "proc_laws one_process ()"
proof -
  have "fst (get_id_list one_process () pid type) \<le> MAX_NS_DEPTH" for pid type
  proof -
    have "fst (get_id_list one_process () pid type) \<le> 12"
      using parse_ids_length [of "drop (length (id_strs type)) (''Name:'' @ [TAB] @ ''sh'')"]
        parse_ids_length [of "drop (length (id_strs type)) (''NSpid:'' @ [TAB] @ ''7'' @ [TAB] @ ''5'' @ [CHR 0x0A])"]
      by (auto simp: get_id_list_def proc_status_get_id_list_def one_process_def Let_def)
    then show ?thesis by simp
  qed
  then show ?thesis by (simp add: proc_laws_def one_process_def)
qed

theorem translate_pid_correct_witness:
  "\<exists>st r pid st'. pidns_init one_process () = Inr st \<and>
     translate_pid one_process () (Some \<lparr>nt_pid = 7, nt_pid_ns = 200\<rparr>) 5 PT_TID True (st\<lparr>our_ns := Some 100\<rparr>) =
       Inr ((r, pid), Some \<lparr>nt_pid = 7, nt_pid_ns = 200\<rparr>, st') \<and>
     proc_answer one_process () PT_TID 200 5 7 = Some 7 \<and>
     (r \<noteq> 0 \<and> proc_answer one_process () PT_TID 200 5 pid = Some r \<or> HEAP \<le> length (proc_datas st'))"
proof -
  obtain st where st: "pidns_init one_process () = Inr st" "pidns_inv st" "\<not> ns_get_parent_enotty st" "pid_tries st = []"
    using pidns_init_inv [of 32768 one_process "()"] by (auto simp: one_process_def)
  let ?st = "st\<lparr>our_ns := Some 100\<rparr>" and ?tcp = "\<lparr>nt_pid = 7, nt_pid_ns = 200\<rparr>"
  have a: "proc_answer one_process () PT_TID 200 5 7 = Some 7" by code_simp
  have "strtoll10 ''7'' = (7, False, [])" by code_simp
  then have l: "listed one_process () 7" by (auto simp: listed_def listed_in_def one_process_def)
  have inv: "pidns_inv ?st" using st(2) by (simp add: pidns_inv_def)
  have h: "\<not> ns_get_parent_enotty ?st" "length (pid_tries ?st) < HEAP" "our_ns ?st = Some 100" "nt_pid_ns ?tcp \<noteq> 0"
    "nt_pid_ns ?tcp \<noteq> 100" "(0 :: int) < 5" "PT_TID \<notin> {PT_COUNT, PT_NONE}" using st(3,4) by simp_all
  from translate_pid_correct [OF inv one_process_laws h, of True] obtain r pid st' where
    t: "translate_pid one_process () (Some ?tcp) 5 PT_TID True ?st = Inr ((r, pid), Some ?tcp, st')"
      "r \<noteq> 0 \<longrightarrow> proc_answer one_process () PT_TID 200 5 pid = Some r"
      "\<forall>q a. listed one_process () q \<and> proc_answer one_process () PT_TID 200 5 q = Some a \<and> a \<noteq> 0 \<longrightarrow> r \<noteq> 0 \<or> HEAP \<le> length (proc_datas st')"
    unfolding ns_tcb.simps by blast
  have "(7 :: int) \<noteq> 0" by simp
  then have "r \<noteq> 0 \<or> HEAP \<le> length (proc_datas st')" using t(3) a l by blast
  then show ?thesis using t(1,2) a st(1) by blast
qed

text \<open>C37: a process nested more deeply than the tables allow makes the translation read outside them: the number
  of the ids on the line is stored even when it exceeds the size of the row the ids are stored in, and the
  innermost id is then looked up beyond the end of the row.\<close>

theorem deep_nesting_reads_outside:
  assumes "pidns_inv st" "int_range pid" "pid \<noteq> 0" "length (proc_datas st) < HEAP" "namespaces E k pid \<noteq> []"
    and "\<forall>fd. pv_parent E fd k \<noteq> Inl ENOTTY_n" "\<not> ns_get_parent_enotty st" "fst (get_id_list E k pid (tip_type tip)) > MAX_NS_DEPTH"
  shows "translate_id_proc_pid E k pid (st, tip) = Inl Out_of_bounds"
proof -
  let ?tip = "tip\<lparr>result_id := 0, tip_pd := 0\<rparr>" and ?ty = "tip_type tip" and ?hs = "namespaces E k pid"
  obtain p st1 where g: "get_or_create_proc_data pid st = (p, st1)" by fastforce
  have c: "pidns_inv st1" "tables_grown st st1" "p \<noteq> 0" "\<exists>pd. points st1 p pd \<and> proc_pid pd = pid"
  proof -
    have full: "p \<noteq> 0" using g assms(4) by (auto simp: get_or_create_proc_data_def Let_def split: if_splits)
    then show "pidns_inv st1" "tables_grown st st1" "p \<noteq> 0" "\<exists>pd. points st1 p pd \<and> proc_pid pd = pid"
      using get_or_create_spec [OF assms(1-3) g] by auto
  qed
  then obtain pd where pd: "points st1 p pd" "proc_pid pd = pid" by blast
  obtain n ids where i: "get_id_list E k pid ?ty = (n, ids)" by fastforce
  have n: "n > MAX_NS_DEPTH" "length ids = MAX_NS_DEPTH"
    using assms(8) i by (auto simp: get_id_list_def proc_status_get_id_list_def Let_def split: option.splits)
  have "\<not> ns_get_parent_enotty st1" using tables_grown_fields [OF c(2)] assms(7) by simp
  note ns = get_ns_hierarchy_spec [OF assms(6) this, of pid]
  let ?pd = "pd\<lparr>ns_count := length ?hs, ns_hierarchy := overwrite ?hs (ns_hierarchy pd), id_count := (id_count pd)(?ty := n),
    id_hierarchy := (id_hierarchy pd)(?ty := overwrite ids (id_hierarchy pd ?ty))\<rparr>"
  let ?st = "st1\<lparr>proc_datas := (proc_datas st1)[p - 1 := Some ?pd]\<rparr>"
  have u: "update_proc_data E k p ?ty st1 = Inr (True, ?st)"
    using points_get [OF pd(1)] ns(1) i pd(2) assms(5) n(1) by (simp add: update_proc_data_def)
  have "points ?st p ?pd" using pd(1) by (auto simp: points_def)
  note get = points_get [OF this]
  have ok: "pd_ok pd" using points_ok [OF c(1) pd(1)] by simp
  have "translate_id_loop ?pd p [0..<length ?hs] ?tip = Inl Out_of_bounds"
  proof -
    have "[0..<length ?hs] = 0 # [1..<length ?hs]" using assms(5) by (simp add: upt_conv_Cons)
    moreover have "element (ns_hierarchy ?pd) 0 = Inr (hd ?hs)" "element (overwrite ids (id_hierarchy pd ?ty)) (n - 1) = Inl Out_of_bounds"
      using assms(5) n ok by (auto simp: element_def overwrite_def pd_ok_def nth_append hd_conv_nth)
    ultimately show ?thesis by (simp add: Let_def)
  qed
  then show ?thesis
    using g c(3) assms(3,5) u get ns(2) n(1) by (simp add: translate_id_proc_pid_def)
qed

text \<open>A process in thirty-three nested namespaces, as deep as the kernel allows.\<close>

definition deep_process :: "(unit, u64) proc_env" where
  "deep_process = one_process\<lparr>pv_status := (\<lambda>path k. Some [''NSpid:'' @ concat (replicate 33 (TAB # ''7''))])\<rparr>"

theorem deep_nesting_reads_outside_witness:
  "\<exists>st. pidns_init deep_process () = Inr st \<and>
     translate_id_proc_pid deep_process () 7 (st, \<lparr>from_ns = 200, from_id = 7, tip_type = PT_TID, result_id = 0, tip_pd = 0\<rparr>) =
       Inl Out_of_bounds"
proof -
  obtain st where st: "pidns_init deep_process () = Inr st" "pidns_inv st" "\<not> ns_get_parent_enotty st" "proc_datas st = []"
    using pidns_init_inv [of 32768 deep_process "()"] by (auto simp: deep_process_def one_process_def)
  have "namespaces deep_process () 7 \<noteq> []" by code_simp
  moreover have "\<forall>fd. pv_parent deep_process fd () \<noteq> Inl ENOTTY_n" by (simp add: deep_process_def one_process_def)
  moreover have "fst (get_id_list deep_process () 7 PT_TID) > MAX_NS_DEPTH" by code_simp
  ultimately show ?thesis
    using deep_nesting_reads_outside [of st 7 deep_process "()" "\<lparr>from_ns = 200, from_id = 7, tip_type = PT_TID, result_id = 0, tip_pd = 0\<rparr>"] st
    by (simp add: int_range_def)
qed

end
