(* ===== verification/Pathtrace.thy ===== *)
theory Pathtrace
  imports Ucopy Tcb
begin

text \<open>
  The selection of system calls by the paths and file descriptors they use, \<^verbatim>\<open>src/src/pathtrace.c\<close>: the
  set of paths, the path behind a descriptor, and the arguments of each call that are compared. The
  memory of the tracee is read through \<^verbatim>\<open>umoven\<close> and \<^verbatim>\<open>umovestr\<close>. The links of \<^verbatim>\<open>/proc\<close>, file status, the
  canonical form of a path, the process number in \<^verbatim>\<open>/proc\<close> and the names of the generated call
  numbers are parameters.
\<close>

record 'k path_env =
  pt_mem :: "'k mem_ops"
  pt_pb :: nat
  pt_wordsize :: nat
  pt_klongsize :: nat
  pt_get_proc_pid :: "nat \<Rightarrow> int"
  pt_readlink :: "string \<Rightarrow> string option"
  pt_stat :: "string \<Rightarrow> (u64 \<times> u64) option"   \<comment> \<open>inode and device\<close>
  pt_lstat :: "string \<Rightarrow> (u64 \<times> u64) option"
  pt_realpath :: "string \<Rightarrow> string option"
  pt_SEN_printargs :: nat
  pt_sen_name :: "nat \<Rightarrow> string"

type_synonym path_set = "string list"

section \<open>Paths\<close>

definition pathmatch :: "string \<Rightarrow> path_set option \<Rightarrow> bool" where
  "pathmatch path pset = (case pset of None \<Rightarrow> False | Some ps \<Rightarrow> list_ex (\<lambda>p. path = p) ps)"

definition storepath :: "string \<Rightarrow> path_set \<Rightarrow> path_set" where
  "storepath path ps = (if pathmatch path (Some ps) then ps else ps @ [path])"

definition pathtrace_select_set :: "'k path_env \<Rightarrow> string \<Rightarrow> path_set \<Rightarrow> path_set" where
  "pathtrace_select_set E path ps =
     (let ps = storepath path ps
      in case pt_realpath E path of None \<Rightarrow> ps | Some rpath \<Rightarrow> if path = rpath then ps else storepath rpath ps)"

lemma storepath_set: "set (storepath path ps) = insert path (set ps)" "distinct ps \<Longrightarrow> distinct (storepath path ps)"
  by (auto simp: storepath_def pathmatch_def list_ex_iff)

text \<open>The path and its canonical form are selected, once each.\<close>

lemma pathtrace_select_set_adds:
  "set (pathtrace_select_set E path ps) = insert path (set ps) \<union> set_option (pt_realpath E path)"
  "distinct ps \<Longrightarrow> distinct (pathtrace_select_set E path ps)"
  by (auto simp: pathtrace_select_set_def Let_def storepath_set split: option.splits)

abbreviation PATH_BUF :: nat where "PATH_BUF \<equiv> 4097"

text \<open>The text of a buffer, up to the first zero.\<close>

definition c_string :: "u8 list \<Rightarrow> string" where
  "c_string bs = map (\<lambda>b. char_of (unat b)) (takeWhile (\<lambda>b. b \<noteq> 0) bs)"

definition upathmatch :: "'k path_env \<Rightarrow> 'k \<Rightarrow> u64 \<Rightarrow> path_set option \<Rightarrow> ucopy \<Rightarrow> bool \<times> ucopy" where
  "upathmatch E k upath pset st =
     (if pset = None then (False, st)
      else case umovestr (pt_mem E) (pt_pb E) (pt_wordsize E) k upath PATH_BUF st of
        ((r, path), st) \<Rightarrow> (r > 0 \<and> pathmatch (c_string path) pset, st))"

section \<open>File descriptors\<close>

abbreviation del_sfx :: string where "del_sfx \<equiv> '' (deleted)''"

text \<open>The length that is returned, the path, and whether it is marked as deleted; None for \<^verbatim>\<open>-1\<close>.\<close>

definition get_proc_pid_fd_path :: "'k path_env \<Rightarrow> int \<Rightarrow> int \<Rightarrow> nat \<Rightarrow> (nat \<times> string \<times> bool) option" where
  "get_proc_pid_fd_path E proc_pid fd bufsize =
     (if fd < 0 then None
      else let linkpath = ''/proc/'' @ dec_string (unat (of_int proc_pid :: u32)) @ ''/fd/'' @ dec_string (nat fd)
        in case pt_readlink E linkpath of
             None \<Rightarrow> None
           | Some l \<Rightarrow>
               let buf = take (bufsize - 1) l; n = length buf; del = n - length del_sfx
               in if n \<le> length del_sfx + 1 then Some (n, buf, False)
                  else if drop del buf \<noteq> del_sfx then Some (n, buf, False)
                  else case pt_stat E linkpath of
                    None \<Rightarrow> Some (n, buf, False)
                  | Some st_link \<Rightarrow>
                      if pt_lstat E buf = Some st_link then Some (n, buf, False) else Some (del + 1, take del buf, True))"

definition getfdpath_pid :: "'k path_env \<Rightarrow> nat \<Rightarrow> int \<Rightarrow> nat \<Rightarrow> (nat \<times> string \<times> bool) option" where
  "getfdpath_pid E pid fd bufsize =
     (if fd < 0 then None
      else let proc_pid = pt_get_proc_pid E pid
        in if proc_pid = 0 then None else get_proc_pid_fd_path E proc_pid fd bufsize)"

definition fdmatch :: "'k path_env \<Rightarrow> nat \<Rightarrow> int \<Rightarrow> path_set option \<Rightarrow> number_set_array option \<Rightarrow> bool" where
  "fdmatch E pid fd pset fdset =
     (if fdset \<noteq> None \<and> fd \<ge> 0 \<and> is_number_in_set (nat fd) fdset then True
      else if pset = None then False
      else case getfdpath_pid E pid fd PATH_BUF of None \<Rightarrow> False | Some (n, path, deleted) \<Rightarrow> pathmatch path pset)"

text \<open>An argument as an \<^verbatim>\<open>int\<close>.\<close>

definition int_arg :: "u64 \<Rightarrow> int" where
  "int_arg a = sint (ucast a :: u32)"

section \<open>Sets and vectors of descriptors\<close>

function match_fds :: "(int \<Rightarrow> bool) \<Rightarrow> u8 list \<Rightarrow> nat \<Rightarrow> nat \<Rightarrow> bool" where
  "match_fds m fds j nfds =
     (case next_set_bit fds j nfds of
        None \<Rightarrow> False
      | Some j \<Rightarrow> if m (int j) then True else match_fds m fds (j + 1) nfds)"
  by pat_completeness auto
termination
  by (relation "measure (\<lambda>(m, fds, j, nfds). nfds - j)") (auto simp: next_set_bit_first find_upt_Some)

declare match_fds.simps [simp del]

fun match_fd_sets :: "'k path_env \<Rightarrow> 'k \<Rightarrow> (int \<Rightarrow> bool) \<Rightarrow> nat \<Rightarrow> nat \<Rightarrow> u64 list \<Rightarrow> ucopy \<Rightarrow> bool \<times> ucopy" where
  "match_fd_sets E k m nfds fdsize [] st = (False, st)"
| "match_fd_sets E k m nfds fdsize (a # as) st =
     (if a = 0 then match_fd_sets E k m nfds fdsize as st
      else case umoven (pt_mem E) (pt_pb E) (pt_wordsize E) k a fdsize st of
        ((r, fds), st) \<Rightarrow>
          if r < 0 then match_fd_sets E k m nfds fdsize as st
          else if match_fds m fds 0 nfds then (True, st)
          else match_fd_sets E k m nfds fdsize as st)"

abbreviation MAX_FDS :: nat where "MAX_FDS \<equiv> 1024 * 1024"

text \<open>The size of the sets is rounded up to a multiple of the word size, which is a power of two.\<close>

definition match_xselect_args ::
    "'k path_env \<Rightarrow> 'k \<Rightarrow> nat \<Rightarrow> u64 list \<Rightarrow> path_set option \<Rightarrow> number_set_array option \<Rightarrow> ucopy \<Rightarrow> bool \<times> ucopy" where
  "match_xselect_args E k pid args pset fdset st =
     (let nfds = int_arg (args ! 0)
      in if nfds \<le> 0 then (False, st)
         else let nfds = min (nat nfds) MAX_FDS;
                  fdsize = ((nfds + 7) div 8 + pt_wordsize E - 1) div pt_wordsize E * pt_wordsize E
           in match_fd_sets E k (\<lambda>fd. fdmatch E pid fd pset fdset) nfds fdsize (take 3 (drop 1 args)) st)"

text \<open>The bytes of an integer, the lowest first.\<close>

definition le_word :: "u8 list \<Rightarrow> u64" where
  "le_word bs = foldr (\<lambda>b w. ucast b OR push_bit 8 w) bs 0"

fun match_pollfds :: "'k path_env \<Rightarrow> 'k \<Rightarrow> (int \<Rightarrow> bool) \<Rightarrow> u64 \<Rightarrow> nat \<Rightarrow> ucopy \<Rightarrow> bool \<times> ucopy" where
  "match_pollfds E k m cur 0 st = (False, st)"
| "match_pollfds E k m cur (Suc n) st =
     (case umoven (pt_mem E) (pt_pb E) (pt_wordsize E) k cur 8 st of
        ((r, bs), st) \<Rightarrow>
          if r \<noteq> 0 then (False, st)
          else if m (int_arg (le_word (take 4 bs))) then (True, st)
          else match_pollfds E k m (cur + 8) n st)"

definition match_poll ::
    "'k path_env \<Rightarrow> 'k \<Rightarrow> nat \<Rightarrow> u64 list \<Rightarrow> path_set option \<Rightarrow> number_set_array option \<Rightarrow> ucopy \<Rightarrow> bool \<times> ucopy" where
  "match_poll E k pid args pset fdset st =
     (let start = args ! 0; nfds = min (unat (ucast (args ! 1) :: u32)) MAX_FDS; stop = start + 8 * of_nat nfds
      in if nfds = 0 \<or> stop < start then (False, st)
         else match_pollfds E k (\<lambda>fd. fdmatch E pid fd pset fdset) start nfds st)"

definition fetch_indirect_syscall_args :: "'k path_env \<Rightarrow> 'k \<Rightarrow> u64 \<Rightarrow> nat \<Rightarrow> ucopy \<Rightarrow> u64 list option \<times> ucopy" where
  "fetch_indirect_syscall_args E k addr n st =
     (let w = (if pt_wordsize E = 8 then 8 else 4)
      in case umoven (pt_mem E) (pt_pb E) (pt_wordsize E) k addr (w * n) st of
           ((r, bs), st) \<Rightarrow>
             if r \<noteq> 0 then (None, st) else (Some (map (\<lambda>i. le_word (take w (drop (w * i) bs))) [0..<n]), st))"

section \<open>The calls\<close>

text \<open>A condition after another one, which is only tried when the first one fails.\<close>

definition or_else :: "(ucopy \<Rightarrow> bool \<times> ucopy) \<Rightarrow> (ucopy \<Rightarrow> bool \<times> ucopy) \<Rightarrow> ucopy \<Rightarrow> bool \<times> ucopy" where
  "or_else f g st = (case f st of (True, st) \<Rightarrow> (True, st) | (False, st) \<Rightarrow> g st)"

definition sen_fd_fd :: "string list" where
  "sen_fd_fd = [''dup2'', ''dup3'', ''kexec_file_load'', ''sendfile'', ''sendfile64'', ''tee'']"

definition sen_fd_path :: "string list" where
  "sen_fd_path = [''execveat'', ''faccessat'', ''faccessat2'', ''fchmodat'', ''fchmodat2'', ''fchownat'', ''file_getattr'',
     ''file_setattr'', ''fspick'', ''fstatat64'', ''futimesat'', ''getxattrat'', ''inotify_add_watch'', ''listxattrat'',
     ''mkdirat'', ''mknodat'', ''mount_setattr'', ''name_to_handle_at'', ''newfstatat'', ''open_tree'', ''open_tree_attr'',
     ''openat'', ''openat2'', ''readlinkat'', ''removexattrat'', ''setxattrat'', ''statx'', ''unlinkat'',
     ''utimensat_time32'', ''utimensat_time64'']"

definition sen_no_args :: "string list" where
  "sen_no_args = [''bpf'', ''epoll_create'', ''epoll_create1'', ''eventfd2'', ''eventfd'', ''fanotify_init'', ''fsopen'',
     ''inotify_init'', ''inotify_init1'', ''io_uring_setup'', ''landlock_create_ruleset'', ''memfd_create'', ''memfd_secret'',
     ''mq_open'', ''perf_event_open'', ''pidfd_open'', ''pipe'', ''pipe2'', ''printargs'', ''socket'', ''socketpair'',
     ''timerfd_create'', ''userfaultfd'']"

definition pathtrace_match_set ::
    "'k path_env \<Rightarrow> 'k \<Rightarrow> tcb \<Rightarrow> path_set option \<Rightarrow> number_set_array option \<Rightarrow> ucopy \<Rightarrow> bool \<times> ucopy" where
  "pathtrace_match_set E k tcp pset fdset st =
     (let s = tcp_sysent (pt_SEN_printargs E) tcp; sen = pt_sen_name E (sen s); arg = (\<lambda>i. t_u_arg tcp ! i);
          fd_is = (\<lambda>fd st. (fdmatch E (t_pid tcp) fd pset fdset, st));
          fd = (\<lambda>i. fd_is (int_arg (arg i)));
          path = (\<lambda>i. upathmatch E k (arg i) pset)
      in if sys_flags s AND (TRACE_FILE OR TRACE_DESC OR TRACE_NETWORK) = 0 then (False, st)
         else if sen \<in> set sen_fd_fd then or_else (fd 0) (fd 1) st
         else if sen \<in> set sen_fd_path then or_else (fd 0) (path 1) st
         else if sen \<in> {''link'', ''mount'', ''pivotroot''} then or_else (path 0) (path 1) st
         else if sen \<in> {''quotactl'', ''symlink''} then path 1 st
         else if sen \<in> {''linkat'', ''move_mount'', ''renameat2'', ''renameat''}
         then or_else (fd 0) (or_else (fd 2) (or_else (path 1) (path 3))) st
         else if sen \<in> {''old_mmap'', ''old_mmap_pgoff''} then
           (case fetch_indirect_syscall_args E k (arg 0) 6 st of
              (None, st) \<Rightarrow> (False, st) | (Some args, st) \<Rightarrow> fd_is (int_arg (args ! 4)) st)
         else if sen \<in> {''mmap'', ''mmap_4koff'', ''mmap_pgoff'', ''ARCH_mmap''} then fd 4 st
         else if sen = ''symlinkat'' then or_else (fd 1) (path 2) st
         else if sen \<in> {''copy_file_range'', ''splice''} then or_else (fd 0) (fd 2) st
         else if sen = ''epoll_ctl'' then fd 2 st
         else if sen = ''fanotify_mark'' then
           (let argn = (if pt_klongsize E < 8 then 4 else 3) in or_else (fd argn) (path (argn + 1)) st)
         else if sen = ''oldselect'' then
           (case fetch_indirect_syscall_args E k (arg 0) 5 st of
              (None, st) \<Rightarrow> (False, st) | (Some args, st) \<Rightarrow> match_xselect_args E k (t_pid tcp) args pset fdset st)
         else if sen \<in> {''pselect6_time32'', ''pselect6_time64'', ''select''}
         then match_xselect_args E k (t_pid tcp) (t_u_arg tcp) pset fdset st
         else if sen \<in> {''poll_time32'', ''poll_time64'', ''ppoll_time32'', ''ppoll_time64''}
         then match_poll E k (t_pid tcp) (t_u_arg tcp) pset fdset st
         else if sen = ''fsconfig'' then
           (let cmd = unat (ucast (arg 1) :: u32)
            in if cmd \<in> {3, 4} then or_else (fd 4) (path 3) st else if cmd = 5 then fd 4 st else (False, st))
         else if sen \<in> set sen_no_args then (False, st)
         else if sys_flags s AND TRACE_FILE \<noteq> 0 then path 0 st
         else if sys_flags s AND (TRACE_DESC OR TRACE_NETWORK) \<noteq> 0 then fd 0 st
         else (False, st))"

section \<open>What a call touches\<close>

text \<open>
  The descriptors and paths among the arguments of a call, from the memory of the tracee itself. A path
  is the string at an address, if it is mapped up to its zero and fits the buffer.
\<close>

datatype item = Fd int | Path u64

definition path_at :: "'k path_env \<Rightarrow> (u64 \<Rightarrow> u8 option) \<Rightarrow> u64 \<Rightarrow> string \<Rightarrow> bool" where
  "path_at E mem a path \<longleftrightarrow> \<not> tracee_addr_is_invalid (pt_wordsize E) a \<and> length path < PATH_BUF \<and>
     mapped mem a (length path + 1) \<and> bytes mem a (length path + 1) = map (\<lambda>c. of_nat (ord c)) path @ [0]"

definition readable :: "'k path_env \<Rightarrow> (u64 \<Rightarrow> u8 option) \<Rightarrow> u64 \<Rightarrow> nat \<Rightarrow> bool" where
  "readable E mem a n \<longleftrightarrow> \<not> tracee_addr_is_invalid (pt_wordsize E) a \<and> mapped mem a n"

fun item_selected ::
    "'k path_env \<Rightarrow> (u64 \<Rightarrow> u8 option) \<Rightarrow> nat \<Rightarrow> path_set option \<Rightarrow> number_set_array option \<Rightarrow> item \<Rightarrow> bool" where
  "item_selected E mem pid pset fdset (Fd fd) = fdmatch E pid fd pset fdset"
| "item_selected E mem pid pset fdset (Path a) = (\<exists>ps. pset = Some ps \<and> (\<exists>path \<in> set ps. path_at E mem a path))"

definition select_items :: "'k path_env \<Rightarrow> (u64 \<Rightarrow> u8 option) \<Rightarrow> u64 list \<Rightarrow> item list" where
  "select_items E mem args =
     (let nfds = min (nat (int_arg (args ! 0))) MAX_FDS; w = pt_wordsize E; fdsize = ((nfds + 7) div 8 + w - 1) div w * w
      in concat (map (\<lambda>a. if a \<noteq> 0 \<and> readable E mem a fdsize
             then map (Fd \<circ> int) (filter (\<lambda>j. bit (bytes mem a fdsize ! (j div 8)) (j mod 8)) [0..<nfds]) else [])
           (take 3 (drop 1 args))))"

definition poll_items :: "'k path_env \<Rightarrow> (u64 \<Rightarrow> u8 option) \<Rightarrow> u64 list \<Rightarrow> item list" where
  "poll_items E mem args =
     (let nfds = min (unat (ucast (args ! 1) :: u32)) MAX_FDS; at = (\<lambda>i. args ! 0 + 8 * of_nat i)
      in if at nfds < args ! 0 then []
         else map (\<lambda>i. Fd (int_arg (le_word (bytes mem (at i) 4)))) (takeWhile (\<lambda>i. readable E mem (at i) 8) [0..<nfds]))"

definition indirect_args :: "'k path_env \<Rightarrow> (u64 \<Rightarrow> u8 option) \<Rightarrow> u64 \<Rightarrow> nat \<Rightarrow> u64 list option" where
  "indirect_args E mem a n =
     (let w = (if pt_wordsize E = 8 then 8 else 4)
      in if readable E mem a (w * n) then Some (map (\<lambda>i. le_word (take w (drop (w * i) (bytes mem a (w * n))))) [0..<n]) else None)"

definition touched :: "'k path_env \<Rightarrow> (u64 \<Rightarrow> u8 option) \<Rightarrow> tcb \<Rightarrow> item list" where
  "touched E mem tcp =
     (let s = tcp_sysent (pt_SEN_printargs E) tcp; sen = pt_sen_name E (sen s); arg = (\<lambda>i. t_u_arg tcp ! i);
          fd = (\<lambda>i. Fd (int_arg (arg i))); path = (\<lambda>i. Path (arg i))
      in if sys_flags s AND (TRACE_FILE OR TRACE_DESC OR TRACE_NETWORK) = 0 then []
         else if sen \<in> set sen_fd_fd then [fd 0, fd 1]
         else if sen \<in> set sen_fd_path then [fd 0, path 1]
         else if sen \<in> {''link'', ''mount'', ''pivotroot''} then [path 0, path 1]
         else if sen \<in> {''quotactl'', ''symlink''} then [path 1]
         else if sen \<in> {''linkat'', ''move_mount'', ''renameat2'', ''renameat''} then [fd 0, path 1, fd 2, path 3]
         else if sen \<in> {''old_mmap'', ''old_mmap_pgoff''} then
           (case indirect_args E mem (arg 0) 6 of None \<Rightarrow> [] | Some args \<Rightarrow> [Fd (int_arg (args ! 4))])
         else if sen \<in> {''mmap'', ''mmap_4koff'', ''mmap_pgoff'', ''ARCH_mmap''} then [fd 4]
         else if sen = ''symlinkat'' then [fd 1, path 2]
         else if sen \<in> {''copy_file_range'', ''splice''} then [fd 0, fd 2]
         else if sen = ''epoll_ctl'' then [fd 2]
         else if sen = ''fanotify_mark'' then (if pt_klongsize E < 8 then [fd 4, path 5] else [fd 3, path 4])
         else if sen = ''oldselect'' then
           (case indirect_args E mem (arg 0) 5 of None \<Rightarrow> [] | Some args \<Rightarrow> select_items E mem args)
         else if sen \<in> {''pselect6_time32'', ''pselect6_time64'', ''select''} then select_items E mem (t_u_arg tcp)
         else if sen \<in> {''poll_time32'', ''poll_time64'', ''ppoll_time32'', ''ppoll_time64''} then poll_items E mem (t_u_arg tcp)
         else if sen = ''fsconfig'' then
           (let cmd = unat (ucast (arg 1) :: u32) in if cmd \<in> {3, 4} then [path 3, fd 4] else if cmd = 5 then [fd 4] else [])
         else if sen \<in> set sen_no_args then []
         else if sys_flags s AND TRACE_FILE \<noteq> 0 then [path 0] else [fd 0])"

text \<open>A function that decides a condition, whatever the cache of pages holds.\<close>

definition decides :: "'k path_env \<Rightarrow> (u64 \<Rightarrow> u8 option) \<Rightarrow> (ucopy \<Rightarrow> bool \<times> ucopy) \<Rightarrow> bool \<Rightarrow> bool" where
  "decides E mem f P \<longleftrightarrow>
     (\<forall>st. coherent (pt_pb E) mem st \<and> \<not> readv_not_supported st \<longrightarrow>
        (\<exists>st'. f st = (P, st') \<and> coherent (pt_pb E) mem st' \<and> \<not> readv_not_supported st'))"

definition mem_env :: "'k path_env \<Rightarrow> 'k \<Rightarrow> (u64 \<Rightarrow> u8 option) \<Rightarrow> bool" where
  "mem_env E k mem \<longleftrightarrow> mem_laws (pt_pb E) (pt_mem E) k mem \<and> peek_laws (pt_mem E) k mem \<and> 3 \<le> pt_pb E \<and> pt_pb E < 32 \<and>
     0 < pt_wordsize E \<and> pt_wordsize E \<le> 8"

named_theorems decides_intros

lemma decides_const [decides_intros, simp]: "decides E mem (\<lambda>st. (b, st)) b" "decides E mem (Pair b) b"
  by (auto simp: decides_def)

lemma decides_or_else [decides_intros]:
  assumes "decides E mem f P" "decides E mem g Q"
  shows "decides E mem (or_else f g) (P \<or> Q)"
proof -
  have "\<exists>st'. or_else f g st = (P \<or> Q, st') \<and> coherent (pt_pb E) mem st' \<and> \<not> readv_not_supported st'"
    if ok: "coherent (pt_pb E) mem st \<and> \<not> readv_not_supported st" for st
  proof -
    obtain st1 where 1: "f st = (P, st1)" "coherent (pt_pb E) mem st1 \<and> \<not> readv_not_supported st1"
      using assms(1) ok unfolding decides_def by blast
    obtain st2 where "g st1 = (Q, st2)" "coherent (pt_pb E) mem st2 \<and> \<not> readv_not_supported st2"
      using assms(2) 1(2) unfolding decides_def by blast
    then show ?thesis using 1 by (cases P) (auto simp: or_else_def)
  qed
  then show ?thesis unfolding decides_def by blast
qed

text \<open>Reading bytes, followed by something that depends on them.\<close>

lemma decides_umoven:
  assumes "mem_env E k mem" "n < 2 ^ 32 - 1"
    and "\<And>bs. readable E mem a n \<Longrightarrow> bs = bytes mem a n \<Longrightarrow> decides E mem (f 0 bs) P"
    and "\<And>bs. \<not> readable E mem a n \<Longrightarrow> decides E mem (f (- 1) bs) P"
  shows "decides E mem (\<lambda>st. case umoven (pt_mem E) (pt_pb E) (pt_wordsize E) k a n st of ((r, bs), st) \<Rightarrow> f r bs st) P"
  unfolding decides_def
proof (intro allI impI)
  fix st assume ok: "coherent (pt_pb E) mem st \<and> \<not> readv_not_supported st"
  obtain r bs st1 where u: "umoven (pt_mem E) (pt_pb E) (pt_wordsize E) k a n st = ((r, bs), st1)" by (metis prod.exhaust)
  have e: "mem_laws (pt_pb E) (pt_mem E) k mem" "peek_laws (pt_mem E) k mem" "3 \<le> pt_pb E" "pt_pb E < 32"
    using assms(1) by (auto simp: mem_env_def)
  note s = umoven_spec [OF _ e assms(2) u]
  have ok1: "coherent (pt_pb E) mem st1 \<and> \<not> readv_not_supported st1"
    using s(1) ok umoven_kept [OF e(1), of "pt_wordsize E" a n st] u by simp
  have "decides E mem (f r bs) P"
    using s(2,3) ok assms(3,4) by (cases "readable E mem a n") (auto simp: readable_def)
  then show "\<exists>st'. (case umoven (pt_mem E) (pt_pb E) (pt_wordsize E) k a n st of ((r, bs), st) \<Rightarrow> f r bs st) = (P, st') \<and>
      coherent (pt_pb E) mem st' \<and> \<not> readv_not_supported st'"
    using ok1 u unfolding decides_def by simp
qed

section \<open>Strings\<close>

lemma string_spec_pos:
  "string_spec mem a len > 0 \<Longrightarrow>
     \<exists>j < len. string_spec mem a len = int j + 1 \<and> mem (a + of_nat j) = Some 0 \<and> (\<forall>i < j. \<exists>b. mem (a + of_nat i) = Some b \<and> b \<noteq> 0)"
proof (induction mem a len rule: string_spec.induct)
  case (2 mem a n)
  then obtain b where b: "mem a = Some b" by (cases "mem a") auto
  show ?case
  proof (cases "b = 0")
    case True
    then show ?thesis using b by (intro exI [of _ 0]) simp
  next
    case False
    then have "string_spec mem (a + 1) n > 0" using 2(2) b by (auto simp: Let_def split: if_splits)
    then obtain j where j: "j < n" "string_spec mem (a + 1) n = int j + 1" "mem (a + 1 + of_nat j) = Some 0"
        "\<forall>i < j. \<exists>b. mem (a + 1 + of_nat i) = Some b \<and> b \<noteq> 0" using 2(1) b False by auto
    have "\<exists>b. mem (a + of_nat i) = Some b \<and> b \<noteq> 0" if "i < Suc j" for i
      using that j(4) b False by (cases i) (auto simp: add.assoc)
    then show ?thesis using b False j(1-3) by (intro exI [of _ "Suc j"]) (auto simp: Let_def add.assoc)
  qed
qed simp

definition text_at :: "(u64 \<Rightarrow> u8 option) \<Rightarrow> u64 \<Rightarrow> nat \<Rightarrow> string" where
  "text_at mem a n = map (\<lambda>b. char_of (unat b)) (bytes mem a n)"

lemma bytes_text: "map (\<lambda>c. of_nat (ord c)) (text_at mem a n) = bytes mem a n"
proof -
  have "of_nat (ord (char_of (unat b))) = b" for b :: u8
  proof -
    have "unat b < 256" using unsigned_less [of b] by simp
    then show ?thesis by simp
  qed
  then show ?thesis by (simp add: text_at_def comp_def)
qed

lemma text_bytes: "map (\<lambda>b :: u8. char_of (unat b)) (map (\<lambda>c. of_nat (ord c)) path) = path"
proof -
  have "char_of (unat (of_nat (ord c) :: u8)) = c" for c by (simp add: unat_of_nat ord_def)
  then show ?thesis by (simp add: comp_def)
qed

lemma bytes_Suc: "bytes mem a (Suc n) = bytes mem a n @ [the (mem (a + of_nat n))]"
  by (simp add: bytes_def)

lemma path_at_string:
  assumes "CHR 0x00 \<notin> set path"
  shows "path_at E mem a path \<longleftrightarrow> \<not> tracee_addr_is_invalid (pt_wordsize E) a \<and>
    (\<exists>j < PATH_BUF. string_spec mem a PATH_BUF = int j + 1 \<and> path = text_at mem a j)"
proof
  assume p: "path_at E mem a path"
  let ?j = "length path"
  have b: "bytes mem a (Suc ?j) = map (\<lambda>c. of_nat (ord c)) path @ [0]" "mapped mem a (Suc ?j)" "?j < PATH_BUF"
    using p by (simp_all add: path_at_def)
  then have bj: "bytes mem a ?j = map (\<lambda>c. of_nat (ord c)) path" "the (mem (a + of_nat ?j)) = 0" by (simp_all add: bytes_Suc)
  have "\<exists>b. mem (a + of_nat i) = Some b \<and> b \<noteq> 0" if "i < ?j" for i
  proof -
    have "path ! i \<noteq> CHR 0x00" using assms that by (metis nth_mem)
    then have "ord (path ! i) \<noteq> ord (CHR 0x00)" by simp
    then have "ord (path ! i) \<noteq> 0" by (simp add: ord_def)
    moreover have "the (mem (a + of_nat i)) = of_nat (ord (path ! i))"
      using arg_cong [OF bj(1), of "\<lambda>l. l ! i"] that by (simp add: bytes_def)
    moreover have "mem (a + of_nat i) \<noteq> None" using b(2) that by (simp add: mapped_def)
    moreover have "of_nat (ord (path ! i)) \<noteq> (0 :: u8)"
      using \<open>ord (path ! i) \<noteq> 0\<close> ord_less [of "path ! i"] by (simp add: word_unat_eq_iff unat_of_nat)
    ultimately show ?thesis by (cases "mem (a + of_nat i)") auto
  qed
  moreover have "mem (a + of_nat ?j) = Some 0" using bj(2) b(2) by (cases "mem (a + of_nat ?j)") (auto simp: mapped_def)
  ultimately have "string_spec mem a PATH_BUF = int ?j + 1" using b(3) by (intro string_spec_zero)
  moreover have "path = text_at mem a ?j" unfolding text_at_def bj(1) by (simp only: text_bytes)
  ultimately show "\<not> tracee_addr_is_invalid (pt_wordsize E) a \<and> (\<exists>j < PATH_BUF. string_spec mem a PATH_BUF = int j + 1 \<and> path = text_at mem a j)"
    using p b(3) by (auto simp: path_at_def)
next
  assume r: "\<not> tracee_addr_is_invalid (pt_wordsize E) a \<and> (\<exists>j < PATH_BUF. string_spec mem a PATH_BUF = int j + 1 \<and> path = text_at mem a j)"
  then obtain j where j: "j < PATH_BUF" "string_spec mem a PATH_BUF = int j + 1" "path = text_at mem a j" by blast
  then obtain j' where "string_spec mem a PATH_BUF = int j' + 1" "mem (a + of_nat j') = Some 0" "\<forall>i < j'. \<exists>b. mem (a + of_nat i) = Some b \<and> b \<noteq> 0"
    using string_spec_pos [of mem a PATH_BUF] by auto
  then have z: "mem (a + of_nat j) = Some 0" "\<forall>i < j. \<exists>b. mem (a + of_nat i) = Some b \<and> b \<noteq> 0" using j(2) by auto
  then have "mapped mem a (Suc j)" by (auto simp: mapped_def less_Suc_eq)
  moreover have "bytes mem a (Suc j) = map (\<lambda>c. of_nat (ord c)) path @ [0]" unfolding bytes_Suc j(3) bytes_text using z(1) by simp
  moreover have "length path = j" using j(3) by (simp add: text_at_def bytes_def)
  ultimately show "path_at E mem a path" using r j(1) by (simp add: path_at_def)
qed

lemma takeWhile_bytes:
  assumes "mem (a + of_nat j) = Some 0" "\<forall>i < j. \<exists>b. mem (a + of_nat i) = Some b \<and> b \<noteq> 0" "j < n"
  shows "takeWhile (\<lambda>b. b \<noteq> 0) (bytes mem a n) = bytes mem a j"
proof -
  have "takeWhile (\<lambda>b. b \<noteq> 0) (bytes mem a n) = take j (bytes mem a n)"
    using assms by (intro takeWhile_eq_take_P_nth) (auto simp: bytes_def)
  then show ?thesis using assms(3) by (simp add: bytes_def take_map)
qed

text \<open>Paths are strings, without a zero.\<close>

definition clean :: "path_set option \<Rightarrow> bool" where
  "clean pset \<longleftrightarrow> (\<forall>ps. pset = Some ps \<longrightarrow> (\<forall>p \<in> set ps. CHR 0x00 \<notin> set p))"

lemma decides_upathmatch [decides_intros]:
  assumes "mem_env E k mem" "clean pset"
  shows "decides E mem (upathmatch E k a pset) (item_selected E mem pid pset fdset (Path a))"
  unfolding decides_def
proof (intro allI impI)
  fix st assume ok: "coherent (pt_pb E) mem st \<and> \<not> readv_not_supported st"
  show "\<exists>st'. upathmatch E k a pset st = (item_selected E mem pid pset fdset (Path a), st') \<and> coherent (pt_pb E) mem st' \<and> \<not> readv_not_supported st'"
  proof (cases pset)
    case None
    then show ?thesis using ok by (auto simp: upathmatch_def)
  next
    case (Some ps)
    obtain r bs st1 where u: "umovestr (pt_mem E) (pt_pb E) (pt_wordsize E) k a PATH_BUF st = ((r, bs), st1)" by (metis prod.exhaust)
    have e: "mem_laws (pt_pb E) (pt_mem E) k mem" "pt_pb E < 32" using assms(1) by (auto simp: mem_env_def)
    have "\<not> readv_not_supported st1" using umovestr_kept [OF e(1), of "pt_wordsize E" a PATH_BUF st] ok u by simp
    moreover note spec = umovestr_spec [OF conjunct1 [OF ok] e conjunct2 [OF ok] u]
    ultimately have ok1: "coherent (pt_pb E) mem st1 \<and> \<not> readv_not_supported st1" by blast
    have r: "r = (if tracee_addr_is_invalid (pt_wordsize E) a then - 1 else string_spec mem a PATH_BUF)" using spec by blast
    have n: "\<exists>n. bs = bytes mem a n \<and> r \<le> int n" if "r \<ge> 0" using spec that by blast
    have zero: "CHR 0x00 \<notin> set path" if "path \<in> set ps" for path using assms(2) Some that by (simp add: clean_def)
    have "r > 0 \<and> c_string bs = path \<longleftrightarrow> path_at E mem a path" if path: "path \<in> set ps" for path
    proof (cases "r > 0")
      case True
      have s: "\<not> tracee_addr_is_invalid (pt_wordsize E) a"
      proof
        assume "tracee_addr_is_invalid (pt_wordsize E) a"
        then show False using True r by simp
      qed
      then have sp: "r = string_spec mem a PATH_BUF" using r by simp
      obtain j where j: "j < PATH_BUF" "r = int j + 1" "mem (a + of_nat j) = Some 0" "\<forall>i < j. \<exists>b. mem (a + of_nat i) = Some b \<and> b \<noteq> 0"
        using string_spec_pos [of mem a PATH_BUF, folded sp] True by blast
      obtain n where "bs = bytes mem a n" "j < n" using n True j(2) by fastforce
      then have "c_string bs = text_at mem a j" using takeWhile_bytes [OF j(3,4)] by (simp add: c_string_def text_at_def)
      moreover have "path_at E mem a path \<longleftrightarrow> path = text_at mem a j"
        unfolding path_at_string [OF zero [OF path]] sp [symmetric] using s j(1,2) by simp
      ultimately show ?thesis using True by auto
    next
      case False
      have "\<not> path_at E mem a path" unfolding path_at_string [OF zero [OF path]]
      proof
        assume *: "\<not> tracee_addr_is_invalid (pt_wordsize E) a \<and> (\<exists>j < PATH_BUF. string_spec mem a PATH_BUF = int j + 1 \<and> path = text_at mem a j)"
        then have "r = string_spec mem a PATH_BUF" using r by simp
        then show False using * False by force
      qed
      then show ?thesis using False by blast
    qed
    then have "(r > 0 \<and> pathmatch (c_string bs) pset) = item_selected E mem pid pset fdset (Path a)"
      using Some by (auto simp: pathmatch_def list_ex_iff)
    then show ?thesis using ok1 u Some by (simp add: upathmatch_def)
  qed
qed

section \<open>Loops\<close>

lemma match_fds_iff: "match_fds m fds j n \<longleftrightarrow> (\<exists>i \<in> {j..<n}. bit (fds ! (i div 8)) (i mod 8) \<and> m (int i))"
proof (induction m fds j n rule: match_fds.induct)
  case (1 m fds j n)
  show ?case
  proof (cases "next_set_bit fds j n")
    case None
    then have "\<not> bit (fds ! (i div 8)) (i mod 8)" if "j \<le> i" "i < n" for i
      using that by (auto simp: next_set_bit_first find_None_iff)
    then show ?thesis using None by (auto simp: match_fds.simps)
  next
    case (Some i)
    then have i: "j \<le> i" "i < n" "bit (fds ! (i div 8)) (i mod 8)" "\<And>l. j \<le> l \<Longrightarrow> l < i \<Longrightarrow> \<not> bit (fds ! (l div 8)) (l mod 8)"
      by (auto simp: next_set_bit_first find_upt_Some)
    show ?thesis
    proof (cases "m (int i)")
      case True
      then show ?thesis using Some i by (auto simp: match_fds.simps [of m fds j n])
    next
      case False
      then have "match_fds m fds j n = match_fds m fds (i + 1) n" using Some by (simp add: match_fds.simps [of m fds j n])
      also have "\<dots> \<longleftrightarrow> (\<exists>l \<in> {i + 1..<n}. bit (fds ! (l div 8)) (l mod 8) \<and> m (int l))" using 1 [OF Some False] .
      also have "\<dots> \<longleftrightarrow> (\<exists>l \<in> {j..<n}. bit (fds ! (l div 8)) (l mod 8) \<and> m (int l))"
        using i False by (metis (no_types, lifting) Suc_eq_plus1 Suc_leI atLeastLessThan_iff le_trans nat_neq_iff not_less_eq_eq le_SucI order.strict_implies_order)
      finally show ?thesis .
    qed
  qed
qed

lemma decides_fd_sets:
  assumes "mem_env E k mem" "fdsize < 2 ^ 32 - 1"
  shows "decides E mem (match_fd_sets E k m nfds fdsize as)
    (\<exists>a \<in> set as. a \<noteq> 0 \<and> readable E mem a fdsize \<and> (\<exists>j < nfds. bit (bytes mem a fdsize ! (j div 8)) (j mod 8) \<and> m (int j)))"
proof (induction as)
  case (Cons a as)
  define P where "P a \<longleftrightarrow> readable E mem a fdsize \<and> (\<exists>j < nfds. bit (bytes mem a fdsize ! (j div 8)) (j mod 8) \<and> m (int j))" for a
  define Q where "Q \<longleftrightarrow> (\<exists>a \<in> set as. a \<noteq> 0 \<and> P a)"
  have IH: "decides E mem (match_fd_sets E k m nfds fdsize as) Q" using Cons by (simp add: P_def Q_def)
  have "decides E mem (match_fd_sets E k m nfds fdsize (a # as)) (a \<noteq> 0 \<and> P a \<or> Q)"
  proof (cases "a = 0")
    case True
    then have "match_fd_sets E k m nfds fdsize (a # as) = match_fd_sets E k m nfds fdsize as" by (intro ext) simp
    then show ?thesis using True IH by simp
  next
    case False
    let ?f = "\<lambda>r fds st. if r < 0 then match_fd_sets E k m nfds fdsize as st else if match_fds m fds 0 nfds then (True, st)
        else match_fd_sets E k m nfds fdsize as st"
    have eq: "match_fd_sets E k m nfds fdsize (a # as) =
        (\<lambda>st. case umoven (pt_mem E) (pt_pb E) (pt_wordsize E) k a fdsize st of ((r, fds), st) \<Rightarrow> ?f r fds st)"
      using False by (intro ext) simp
    have "decides E mem (match_fd_sets E k m nfds fdsize (a # as)) (P a \<or> Q)"
      unfolding eq
    proof (rule decides_umoven [OF assms])
      fix bs assume "readable E mem a fdsize" "bs = bytes mem a fdsize"
      then have "match_fds m bs 0 nfds \<longleftrightarrow> P a" by (auto simp: match_fds_iff P_def)
      then show "decides E mem (?f (0 :: int) bs) (P a \<or> Q)" using IH by (cases "P a") simp_all
    next
      fix bs assume "\<not> readable E mem a fdsize"
      then have "\<not> P a" by (simp add: P_def)
      then show "decides E mem (?f (- 1 :: int) bs) (P a \<or> Q)" using IH by simp
    qed
    then show ?thesis using False by (simp del: match_fd_sets.simps)
  qed
  then show ?case by (simp add: P_def Q_def del: match_fd_sets.simps)
next
  case Nil
  have "match_fd_sets E k m nfds fdsize [] = Pair False" by (intro ext) simp
  then show ?case by simp
qed

lemma decides_pollfds:
  assumes "mem_env E k mem"
  shows "decides E mem (match_pollfds E k m cur n)
    (\<exists>i \<in> set (takeWhile (\<lambda>i. readable E mem (cur + 8 * of_nat i) 8) [0..<n]). m (int_arg (le_word (bytes mem (cur + 8 * of_nat i) 4))))"
proof (induction n arbitrary: cur)
  case 0
  have "match_pollfds E k m cur 0 = Pair False" by (intro ext) simp
  then show ?case by simp
next
  case (Suc n)
  define R where "R cur i \<longleftrightarrow> readable E mem (cur + 8 * of_nat i) 8" for cur :: u64 and i
  define F where "F cur i \<longleftrightarrow> m (int_arg (le_word (bytes mem (cur + 8 * of_nat i) 4)))" for cur :: u64 and i
  define Q where "Q \<longleftrightarrow> (\<exists>i \<in> set (takeWhile (R (cur + 8)) [0..<n]). F (cur + 8) i)"
  let ?f = "\<lambda>r bs st. if r \<noteq> 0 then (False, st) else if m (int_arg (le_word (take 4 bs))) then (True, st) else match_pollfds E k m (cur + 8) n st"
  have IH: "decides E mem (match_pollfds E k m (cur + 8) n) Q" using Suc [of "cur + 8"] by (simp add: Q_def R_def [abs_def] F_def)
  have shift: "R cur (Suc i) = R (cur + 8) i" "F cur (Suc i) = F (cur + 8) i" for i by (simp_all add: R_def F_def algebra_simps)
  have "takeWhile (R cur) [0..<Suc n] = (if R cur 0 then 0 # map Suc (takeWhile (R (cur + 8)) [0..<n]) else [])"
    unfolding upt_conv_Cons [OF zero_less_Suc] map_Suc_upt [symmetric] takeWhile_map takeWhile.simps comp_def shift by simp
  then have ex: "(\<exists>i \<in> set (takeWhile (R cur) [0..<Suc n]). F cur i) \<longleftrightarrow> R cur 0 \<and> (F cur 0 \<or> Q)"
    by (auto simp: shift Q_def simp del: upt_Suc)
  have eq: "match_pollfds E k m cur (Suc n) = (\<lambda>st. case umoven (pt_mem E) (pt_pb E) (pt_wordsize E) k cur 8 st of ((r, bs), st) \<Rightarrow> ?f r bs st)"
    by (intro ext) simp
  have "decides E mem (match_pollfds E k m cur (Suc n)) (R cur 0 \<and> (F cur 0 \<or> Q))"
    unfolding eq
  proof (rule decides_umoven [OF assms])
    fix bs assume r: "readable E mem cur 8" "bs = bytes mem cur 8"
    have "take 4 bs = bytes mem cur 4" using r(2) by (simp add: bytes_def take_map)
    then have "m (int_arg (le_word (take 4 bs))) \<longleftrightarrow> F cur 0" "R cur 0" using r(1) by (simp_all add: F_def R_def)
    then show "decides E mem (?f (0 :: int) bs) (R cur 0 \<and> (F cur 0 \<or> Q))" using IH by (cases "F cur 0") simp_all
  next
    fix bs assume "\<not> readable E mem cur 8"
    then have "\<not> R cur 0" by (simp add: R_def)
    then show "decides E mem (?f (- 1 :: int) bs) (R cur 0 \<and> (F cur 0 \<or> Q))" by simp
  qed simp
  then show ?case unfolding ex [symmetric] by (simp add: R_def [abs_def] F_def del: match_pollfds.simps upt_Suc)
qed

section \<open>What is selected\<close>

definition any_selected ::
    "'k path_env \<Rightarrow> (u64 \<Rightarrow> u8 option) \<Rightarrow> nat \<Rightarrow> path_set option \<Rightarrow> number_set_array option \<Rightarrow> item list \<Rightarrow> bool" where
  "any_selected E mem pid pset fdset is \<longleftrightarrow> (\<exists>i \<in> set is. item_selected E mem pid pset fdset i)"

lemma any_selected_simps [simp]:
  "any_selected E mem pid pset fdset [] \<longleftrightarrow> False"
  "any_selected E mem pid pset fdset (i # is) \<longleftrightarrow> item_selected E mem pid pset fdset i \<or> any_selected E mem pid pset fdset is"
  by (simp_all add: any_selected_def)

lemma decides_select [decides_intros]:
  assumes "mem_env E k mem"
  shows "decides E mem (match_xselect_args E k pid args pset fdset) (any_selected E mem pid pset fdset (select_items E mem args))"
proof (cases "int_arg (args ! 0) \<le> 0")
  case True
  then have "match_xselect_args E k pid args pset fdset = Pair False" by (intro ext) (simp add: match_xselect_args_def)
  moreover have "select_items E mem args = []" using True by (auto simp: select_items_def Let_def)
  ultimately show ?thesis by simp
next
  case False
  define nfds w fdsize where "nfds = min (nat (int_arg (args ! 0))) MAX_FDS" and "w = pt_wordsize E"
    and "fdsize = ((nfds + 7) div 8 + w - 1) div w * w"
  have "fdsize \<le> (nfds + 7) div 8 + w - 1" by (simp add: fdsize_def)
  moreover have "nfds \<le> MAX_FDS" "w \<le> 8" using assms by (simp_all add: nfds_def w_def mem_env_def)
  ultimately have "fdsize < 2 ^ 32 - 1" by simp
  note d = decides_fd_sets [OF assms this, of "\<lambda>fd. fdmatch E pid fd pset fdset" nfds "take 3 (drop 1 args)"]
  have "match_xselect_args E k pid args pset fdset = match_fd_sets E k (\<lambda>fd. fdmatch E pid fd pset fdset) nfds fdsize (take 3 (drop 1 args))"
    using False by (intro ext) (simp add: match_xselect_args_def nfds_def fdsize_def w_def Let_def)
  moreover have "any_selected E mem pid pset fdset (select_items E mem args) \<longleftrightarrow>
      (\<exists>a \<in> set (take 3 (drop 1 args)). a \<noteq> 0 \<and> readable E mem a fdsize \<and>
         (\<exists>j < nfds. bit (bytes mem a fdsize ! (j div 8)) (j mod 8) \<and> fdmatch E pid (int j) pset fdset))"
    unfolding select_items_def any_selected_def Let_def nfds_def [symmetric] w_def [symmetric] fdsize_def [symmetric]
    by (auto split: if_splits)
  ultimately show ?thesis using d by simp
qed

lemma decides_poll [decides_intros]:
  assumes "mem_env E k mem"
  shows "decides E mem (match_poll E k pid args pset fdset) (any_selected E mem pid pset fdset (poll_items E mem args))"
proof -
  define nfds where "nfds = min (unat (ucast (args ! 1) :: u32)) MAX_FDS"
  show ?thesis
  proof (cases "nfds = 0 \<or> args ! 0 + 8 * of_nat nfds < args ! 0")
    case True
    then have "match_poll E k pid args pset fdset = Pair False" by (intro ext) (simp add: match_poll_def nfds_def Let_def)
    moreover have "poll_items E mem args = []" using True unfolding poll_items_def Let_def nfds_def [symmetric] by auto
    ultimately show ?thesis by simp
  next
    case False
    then have "match_poll E k pid args pset fdset = match_pollfds E k (\<lambda>fd. fdmatch E pid fd pset fdset) (args ! 0) nfds"
      by (intro ext) (simp add: match_poll_def nfds_def Let_def)
    moreover have "any_selected E mem pid pset fdset (poll_items E mem args) \<longleftrightarrow>
        (\<exists>i \<in> set (takeWhile (\<lambda>i. readable E mem (args ! 0 + 8 * of_nat i) 8) [0..<nfds]).
           fdmatch E pid (int_arg (le_word (bytes mem (args ! 0 + 8 * of_nat i) 4))) pset fdset)"
      using False unfolding poll_items_def any_selected_def Let_def nfds_def [symmetric] by simp
    ultimately show ?thesis using decides_pollfds [OF assms, of "\<lambda>fd. fdmatch E pid fd pset fdset" "args ! 0" nfds] by simp
  qed
qed

lemma decides_indirect:
  assumes "mem_env E k mem" "n \<le> 6"
    and "\<And>args. indirect_args E mem a n = Some args \<Longrightarrow> decides E mem (f args) P" "indirect_args E mem a n = None \<Longrightarrow> \<not> P"
  shows "decides E mem (\<lambda>st. case fetch_indirect_syscall_args E k a n st of (None, st) \<Rightarrow> (False, st) | (Some args, st) \<Rightarrow> f args st) P"
proof -
  define w :: nat where "w = (if pt_wordsize E = 8 then 8 else 4)"
  let ?args = "\<lambda>bs. map (\<lambda>i. le_word (take w (drop (w * i) bs))) [0..<n]"
  let ?f = "\<lambda>(r :: int) bs st. if r \<noteq> 0 then (False, st) else f (?args bs) st"
  have eq: "(\<lambda>st. case fetch_indirect_syscall_args E k a n st of (None, st) \<Rightarrow> (False, st) | (Some args, st) \<Rightarrow> f args st) =
      (\<lambda>st. case umoven (pt_mem E) (pt_pb E) (pt_wordsize E) k a (w * n) st of ((r, bs), st) \<Rightarrow> ?f r bs st)"
    by (intro ext) (auto simp: fetch_indirect_syscall_args_def w_def [symmetric] Let_def split: prod.splits)
  have ind: "indirect_args E mem a n = (if readable E mem a (w * n) then Some (?args (bytes mem a (w * n))) else None)"
    by (simp add: indirect_args_def w_def)
  show ?thesis
    unfolding eq
  proof (rule decides_umoven [OF assms(1)])
    show "w * n < 2 ^ 32 - 1" using assms(2) by (simp add: w_def)
  next
    fix bs assume "readable E mem a (w * n)" "bs = bytes mem a (w * n)"
    then show "decides E mem (?f 0 bs) P" using assms(3) ind by simp
  next
    fix bs assume "\<not> readable E mem a (w * n)"
    then have "P = False" using assms(4) ind by simp
    then show "decides E mem (?f (- 1) bs) P" by simp
  qed
qed

lemma decides_if:
  assumes "c \<Longrightarrow> decides E mem f (any_selected E mem pid pset fdset is)" "\<not> c \<Longrightarrow> decides E mem g (any_selected E mem pid pset fdset js)"
  shows "decides E mem (\<lambda>st. if c then f st else g st) (any_selected E mem pid pset fdset (if c then is else js))"
  using assms by auto

lemma decides_fd [decides_intros]:
  "decides E mem (\<lambda>st. (fdmatch E pid fd pset fdset, st)) (item_selected E mem pid pset fdset (Fd fd))"
  by simp

lemma decides_eq: "decides E mem f P \<Longrightarrow> P = Q \<Longrightarrow> decides E mem f Q"
  by simp

lemma decides_old_mmap:
  assumes "mem_env E k mem"
  shows "decides E mem
    (\<lambda>st. case fetch_indirect_syscall_args E k a 6 st of (None, st) \<Rightarrow> (False, st) | (Some args, st) \<Rightarrow> (fdmatch E pid (int_arg (args ! 4)) pset fdset, st))
    (any_selected E mem pid pset fdset (case indirect_args E mem a 6 of None \<Rightarrow> [] | Some args \<Rightarrow> [Fd (int_arg (args ! 4))]))"
  by (rule decides_indirect [OF assms]) simp_all

lemma decides_oldselect:
  assumes "mem_env E k mem"
  shows "decides E mem
    (\<lambda>st. case fetch_indirect_syscall_args E k a 5 st of (None, st) \<Rightarrow> (False, st) | (Some args, st) \<Rightarrow> match_xselect_args E k pid args pset fdset st)
    (any_selected E mem pid pset fdset (case indirect_args E mem a 5 of None \<Rightarrow> [] | Some args \<Rightarrow> select_items E mem args))"
  by (rule decides_indirect [OF assms]) (simp_all add: decides_select [OF assms])

lemma decides_fanotify_mark:
  assumes "mem_env E k mem" "clean pset"
  shows "decides E mem
    (or_else (Pair (fdmatch E pid (int_arg (args ! (if c then 4 else 3))) pset fdset)) (upathmatch E k (args ! ((if c then 4 else 3) + 1)) pset))
    (any_selected E mem pid pset fdset (if c then [Fd (int_arg (args ! 4)), Path (args ! 5)] else [Fd (int_arg (args ! 3)), Path (args ! 4)]))"
proof (cases c)
  case True
  then show ?thesis
    using decides_or_else [OF decides_fd [of E mem pid "int_arg (args ! 4)" pset fdset] decides_upathmatch [OF assms, of "args ! 5" pid fdset]]
    by simp
next
  case False
  then show ?thesis
    using decides_or_else [OF decides_fd [of E mem pid "int_arg (args ! 3)" pset fdset] decides_upathmatch [OF assms, of "args ! 4" pid fdset]]
    by simp
qed

text \<open>Every call that is looked at and is not about a file is about a descriptor or a socket.\<close>

lemma decides_first_fd:
  assumes "fl AND (TRACE_FILE OR TRACE_DESC OR TRACE_NETWORK) \<noteq> 0" "\<not> fl AND TRACE_FILE \<noteq> 0"
  shows "decides E mem (\<lambda>st. if fl AND (TRACE_DESC OR TRACE_NETWORK) \<noteq> 0 then (fdmatch E pid fd pset fdset, st) else (False, st))
    (any_selected E mem pid pset fdset [Fd fd])"
proof -
  have "fl AND (TRACE_DESC OR TRACE_NETWORK) \<noteq> 0"
    using assms by (simp only: bit.conj_disj_distrib) simp
  then show ?thesis by simp
qed

lemma decides_match_set:
  assumes e: "mem_env E k mem" "clean pset"
  shows "decides E mem (pathtrace_match_set E k tcp pset fdset) (any_selected E mem (t_pid tcp) pset fdset (touched E mem tcp))"
proof -
  note simple = decides_upathmatch [OF e] decides_fd decides_or_else decides_const
  note whole = decides_select [OF e(1)] decides_poll [OF e(1)] decides_old_mmap [OF e(1)] decides_oldselect [OF e(1)]
    decides_fanotify_mark [OF e] decides_first_fd
  show ?thesis
    unfolding pathtrace_match_set_def [abs_def] touched_def Let_def
    by (intro decides_if)
      (rule whole | (rule decides_eq, (rule simple)+, (auto simp del: item_selected.simps; fail)) | assumption)+
qed


text \<open>
  A call \<^verbatim>\<open>openat\<close> with the path \<^verbatim>\<open>/a\<close> is selected by the set with this path, and not by the set with \<^verbatim>\<open>/b\<close>.
\<close>

definition small_env :: "(u64 \<Rightarrow> u8) path_env" where
  "small_env =
     \<lparr>pt_mem = page_ops, pt_pb = 12, pt_wordsize = 8, pt_klongsize = 8, pt_get_proc_pid = int, pt_readlink = (\<lambda>_. None),
      pt_stat = (\<lambda>_. None), pt_lstat = (\<lambda>_. None), pt_realpath = Some, pt_SEN_printargs = 0, pt_sen_name = (\<lambda>_. ''openat'')\<rparr>"

definition openat_tcb :: tcb where
  "openat_tcb = (let t = \<lparr>tv_sec = 0, tv_nsec = 0\<rparr> in
     \<lparr>t_flags = 0, t_pid = 1, t_qual_flg = 0, t_currpers = 0, t_u_error = 0, t_scno = 1, t_true_scno = 1,
      t_u_arg = [0xffffff9c, 0x1000, 0, 0, 0, 0], t_u_rval = 0, t_sys_func_rval = 0,
      t_s_ent = Some (entry TRACE_FILE ''openat''), t_s_prev_ent = None, t_inject_vec = [],
      t_stime = t, t_ltime = t, t_atime = t, t_etime = t, t_delay_expiration_time = t,
      t_wait_data_idx = 0, t_delayed_wait_data = None\<rparr>)"

abbreviation path_page :: "u64 \<Rightarrow> u8" where "path_page \<equiv> \<lambda>a. if a = 0x1000 then 47 else if a = 0x1001 then 97 else 0"

lemma small_mem_env: "mem_env small_env path_page (one_page path_page)"
  by (simp add: mem_env_def small_env_def page_ops_read)

lemma small_touched: "touched small_env mem openat_tcb = [Fd (- 100), Path 0x1000]"
proof -
  have "int_arg 0xffffff9c = - 100" by (simp add: int_arg_def)
  then show ?thesis
    by (simp add: touched_def Let_def small_env_def openat_tcb_def tcp_sysent_def entry_def sen_fd_fd_def sen_fd_path_def)
qed

lemma small_path_at: "path_at small_env (one_page path_page) 0x1000 ''/a''" "\<not> path_at small_env (one_page path_page) 0x1000 ''/b''"
proof -
  have m: "mapped (one_page path_page) 0x1000 (Suc (Suc (Suc 0)))"
    by (rule in_page) (simp_all add: page_offset_def page_of_def mask_eq_exp_minus_1)
  have b: "bytes (one_page path_page) 0x1000 (Suc (Suc (Suc 0))) = [47, 97, 0]"
    by (simp add: bytes_def one_page_def page_of_def mask_eq_exp_minus_1)
  have c: "map (\<lambda>c. of_nat (ord c)) ''/a'' = [47, 97 :: u8]" "map (\<lambda>c. of_nat (ord c)) ''/b'' = [47, 98 :: u8]"
    by code_simp+
  show "path_at small_env (one_page path_page) 0x1000 ''/a''" "\<not> path_at small_env (one_page path_page) 0x1000 ''/b''"
    unfolding path_at_def c using m b by (simp_all add: small_env_def tracee_addr_is_invalid_def)
qed


end
