(* ===== verification/Xlat.thy ===== *)
theory Xlat
  imports C_String "HOL-Library.Sublist"
begin

text \<open>
  Constants and their names, \<^verbatim>\<open>src/src/xlat.c\<close>: lookup of a value in a table of names, and the text that
  stands for a value or for a combination of flags. The output is the text itself, without the
  sequences that set colours; a missing table (a null pointer) is the empty one. The tables are
  generated and a parameter.
\<close>

datatype xlat_type = XT_NORMAL | XT_SORTED | XT_INDEXED

record xlat =
  x_data :: "(u64 \<times> string option) list"
  x_type :: xlat_type

section \<open>Styles\<close>

abbreviation XLAT_STYLE_DEFAULT :: u32 where "XLAT_STYLE_DEFAULT \<equiv> 0"
abbreviation XLAT_STYLE_RAW :: u32 where "XLAT_STYLE_RAW \<equiv> 1"
abbreviation XLAT_STYLE_ABBREV :: u32 where "XLAT_STYLE_ABBREV \<equiv> 2"
abbreviation XLAT_STYLE_VERBOSE :: u32 where "XLAT_STYLE_VERBOSE \<equiv> 3"
abbreviation XLAT_STYLE_FMT_U :: u32 where "XLAT_STYLE_FMT_U \<equiv> 4"
abbreviation XLAT_STYLE_FMT_D :: u32 where "XLAT_STYLE_FMT_D \<equiv> 8"
abbreviation PXF_DEFAULT_STR :: u32 where "PXF_DEFAULT_STR \<equiv> 0x80"
abbreviation SPFF_AUXSTR_MODE :: u32 where "SPFF_AUXSTR_MODE \<equiv> 0x100"

definition xlat_verbose :: "u32 \<Rightarrow> u32" where "xlat_verbose style = style AND 3"

definition xlat_format :: "u32 \<Rightarrow> u32" where "xlat_format style = style AND 12"

definition get_xlat_style :: "u32 \<Rightarrow> u32 \<Rightarrow> u32" where
  "get_xlat_style xlat_verbosity style =
     (if xlat_verbose style = XLAT_STYLE_DEFAULT then style OR xlat_verbosity else style)"

text \<open>The conversions \<^verbatim>\<open>%d\<close> and \<^verbatim>\<open>%#x\<close>.\<close>

definition int_string :: "int \<Rightarrow> string" where
  "int_string i = (if i < 0 then CHR ''-'' # dec_string (nat (- i)) else dec_string (nat i))"

definition alt_hex_string :: "nat \<Rightarrow> string" where
  "alt_hex_string n = (if n = 0 then ''0'' else ''0x'' @ hex_string n)"

text \<open>A style has one of the three formats.\<close>

definition sprint_xlat_val :: "u64 \<Rightarrow> u32 \<Rightarrow> string" where
  "sprint_xlat_val v style =
     (if xlat_format style = XLAT_STYLE_FMT_D then int_string (sint v)
      else if xlat_format style = XLAT_STYLE_FMT_U then dec_string (unat v)
      else alt_hex_string (unat v))"

definition tprints_xlat_const :: "string option \<Rightarrow> string" where
  "tprints_xlat_const str = (case str of None \<Rightarrow> [] | Some s \<Rightarrow> s)"

definition tprints_comment :: "string option \<Rightarrow> string" where
  "tprints_comment str = (case str of None \<Rightarrow> [] | Some s \<Rightarrow> if s = [] then [] else '' /* '' @ s @ '' */'')"

section \<open>Lookup\<close>

definition xlat_bsearch_compare :: "u64 \<Rightarrow> u64 \<times> string option \<Rightarrow> int" where
  "xlat_bsearch_compare v e = (if v > fst e then 1 else if v < fst e then - 1 else 0)"

text \<open>\<^verbatim>\<open>bsearch\<close> of the C library between the indices \<open>l\<close> and \<open>u\<close>.\<close>

function bsearch :: "('a \<Rightarrow> int) \<Rightarrow> 'a list \<Rightarrow> nat \<Rightarrow> nat \<Rightarrow> 'a option" where
  "bsearch cmp xs l u =
     (if l < u then
        let idx = (l + u) div 2; c = cmp (xs ! idx)
        in if c < 0 then bsearch cmp xs l idx
           else if c > 0 then bsearch cmp xs (idx + 1) u
           else Some (xs ! idx)
      else None)"
  by pat_completeness auto
termination
  by (relation "measure (\<lambda>(cmp, xs, l, u). u - l)") auto

declare bsearch.simps [simp del]

definition xlookup :: "xlat \<Rightarrow> u64 \<Rightarrow> string option" where
  "xlookup x v =
     (case x_type x of
        XT_NORMAL \<Rightarrow> (case find (\<lambda>e. fst e = v) (x_data x) of Some e \<Rightarrow> snd e | None \<Rightarrow> None)
      | XT_SORTED \<Rightarrow>
          (case bsearch (xlat_bsearch_compare v) (x_data x) 0 (length (x_data x)) of Some e \<Rightarrow> snd e | None \<Rightarrow> None)
      | XT_INDEXED \<Rightarrow>
          if unat v < length (x_data x) then
            let e = x_data x ! unat v in if v = fst e then snd e else None
          else None)"

definition xrlookup :: "xlat \<Rightarrow> string option \<Rightarrow> u64 \<Rightarrow> u64" where
  "xrlookup x str unknown_val =
     (case str of
        None \<Rightarrow> unknown_val
      | Some s \<Rightarrow> case find (\<lambda>e. snd e = Some s) (x_data x) of Some e \<Rightarrow> fst e | None \<Rightarrow> unknown_val)"

text \<open>The loop of \<^verbatim>\<open>xlat_search_eq_or_less\<close>: whether the value itself has been found, and \<^verbatim>\<open>cur\<close>.\<close>

function search_loop :: "(u64 \<times> string option) list \<Rightarrow> u64 \<Rightarrow> nat \<Rightarrow> nat \<Rightarrow> nat \<Rightarrow> bool \<times> nat" where
  "search_loop xs v base nmemb cur =
     (if nmemb > 0 then
        let cur = base + nmemb div 2
        in if v = fst (xs ! cur) then (True, cur)
           else if v > fst (xs ! cur) then search_loop xs v (cur + 1) ((nmemb - 1) div 2) cur
           else search_loop xs v base (nmemb div 2) cur
      else (False, cur))"
  by pat_completeness auto
termination
  by (relation "measure (\<lambda>(xs, v, base, nmemb, cur). nmemb)") auto

declare search_loop.simps [simp del]

text \<open>The name, and the value afterwards.\<close>

definition xlat_search_eq_or_less :: "(u64 \<times> string option) list \<Rightarrow> u64 \<Rightarrow> string option \<times> u64" where
  "xlat_search_eq_or_less xs v =
     (case search_loop xs v 0 (length xs) 0 of (found, cur) \<Rightarrow>
        if found then (snd (xs ! cur), v)
        else if v < fst (xs ! cur) then
          (if cur > 0 then (snd (xs ! (cur - 1)), fst (xs ! (cur - 1))) else (None, v))
        else (snd (xs ! cur), fst (xs ! cur)))"

definition xlookup_le :: "xlat \<Rightarrow> u64 \<Rightarrow> string option \<times> u64" where
  "xlookup_le x v =
     (if x_data x = [] then (None, v)
      else case x_type x of XT_SORTED \<Rightarrow> xlat_search_eq_or_less (x_data x) v | _ \<Rightarrow> (None, v))"

section \<open>One value\<close>

text \<open>The first table that has a name for the value; the result, and the text.\<close>

fun first_name :: "xlat list \<Rightarrow> u64 \<Rightarrow> string option" where
  "first_name [] v = None"
| "first_name (x # xs) v = (case xlookup x v of None \<Rightarrow> first_name xs v | Some s \<Rightarrow> Some s)"

definition printxvals_ex :: "u32 \<Rightarrow> u64 \<Rightarrow> string option \<Rightarrow> u32 \<Rightarrow> xlat list \<Rightarrow> int \<times> string" where
  "printxvals_ex xlat_verbosity v dflt style xlats =
     (let style = get_xlat_style xlat_verbosity style
      in if xlat_verbose style = XLAT_STYLE_RAW then (0, sprint_xlat_val v style)
         else case first_name xlats v of
           Some str \<Rightarrow>
             (1, if xlat_verbose style = XLAT_STYLE_VERBOSE then sprint_xlat_val v style @ tprints_comment (Some str)
                 else tprints_xlat_const (Some str))
         | None \<Rightarrow> (0, sprint_xlat_val v style @ tprints_comment dflt))"

text \<open>\<^verbatim>\<open>xsnprintf\<close> into a buffer of some size.\<close>

definition xsnprintf :: "nat \<Rightarrow> string \<Rightarrow> die + string" where
  "xsnprintf sz s = (if length s \<ge> sz then Inl (Die ''got unexpected return value'') else Inr s)"

definition sprintxval_ex :: "u32 \<Rightarrow> nat \<Rightarrow> xlat \<Rightarrow> u32 \<Rightarrow> string option \<Rightarrow> u32 \<Rightarrow> die + string" where
  "sprintxval_ex xlat_verbosity sz x v dflt style =
     (let style = get_xlat_style xlat_verbosity style; v = ucast v
      in if xlat_verbose style = XLAT_STYLE_RAW then xsnprintf sz (sprint_xlat_val v style)
         else case xlookup x v of
           Some str \<Rightarrow>
             if xlat_verbose style = XLAT_STYLE_VERBOSE then xsnprintf sz (sprint_xlat_val v style @ '' /* '' @ str @ '' */'')
             else xsnprintf sz str
         | None \<Rightarrow>
             case dflt of
               Some d \<Rightarrow> xsnprintf sz (sprint_xlat_val v style @ '' /* '' @ d @ '' */'')
             | None \<Rightarrow> xsnprintf sz (sprint_xlat_val v style))"

definition print_xlat_ex :: "u32 \<Rightarrow> u64 \<Rightarrow> string option \<Rightarrow> u32 \<Rightarrow> string" where
  "print_xlat_ex xlat_verbosity v str style =
     (let default_str = style AND PXF_DEFAULT_STR \<noteq> 0; style = get_xlat_style xlat_verbosity style
      in if xlat_verbose style = XLAT_STYLE_ABBREV \<and> str \<noteq> None
         then (if default_str then sprint_xlat_val v style @ tprints_comment str else tprints_xlat_const str)
         else if xlat_verbose style \<in> {XLAT_STYLE_ABBREV, XLAT_STYLE_RAW} then sprint_xlat_val v style
         else sprint_xlat_val v style @ tprints_comment str)"

section \<open>Flags\<close>

text \<open>The loop over one table: the number of names, the flags left, and the output.\<close>

fun printflags_table :: "bool \<Rightarrow> (u64 \<times> string option) list \<Rightarrow> nat \<times> u64 \<times> string \<Rightarrow> nat \<times> u64 \<times> string" where
  "printflags_table need_comment [] s = s"
| "printflags_table need_comment ((v, str) # es) (n, flags, out) =
     (if flags = 0 \<and> n \<noteq> 0 then (n, flags, out)
      else let (n, flags, out) =
             (case str of
                None \<Rightarrow> (n, flags, out)
              | Some name \<Rightarrow>
                  if flags = v \<or> (v \<noteq> 0 \<and> flags AND v = v)
                  then (n + 1, flags AND NOT v,
                        out @ (if need_comment \<and> flags = 0 then ''0'' else []) @
                          (if n \<noteq> 0 then ''|'' else if need_comment then '' /* '' else []) @ name)
                  else (n, flags, out))
        in if flags = 0 then (n, flags, out) else printflags_table need_comment es (n, flags, out))"

definition printflags_ex :: "u32 \<Rightarrow> u64 \<Rightarrow> string option \<Rightarrow> u32 \<Rightarrow> xlat list \<Rightarrow> nat \<times> string" where
  "printflags_ex xlat_verbosity flags dflt style xlats =
     (let style = get_xlat_style xlat_verbosity style
      in if xlat_verbose style = XLAT_STYLE_RAW
         then (if flags \<noteq> 0 \<or> dflt \<noteq> None then (1, sprint_xlat_val flags style) else (0, []))
         else
           let need_comment = (xlat_verbose style = XLAT_STYLE_VERBOSE);
               out = (if need_comment \<and> flags \<noteq> 0 then sprint_xlat_val flags style else []);
               (n, flags, out) = fold (\<lambda>x. printflags_table need_comment (x_data x)) xlats (0, flags, out)
           in if n \<noteq> 0 then
                (let (n, out) = (if flags \<noteq> 0 then (n + 1, out @ ''|'' @ sprint_xlat_val flags style) else (n, out))
                 in (n, if need_comment then out @ '' */'' else out))
              else if flags \<noteq> 0 then
                (n, out @ (if xlat_verbose style \<noteq> XLAT_STYLE_VERBOSE then sprint_xlat_val flags style else []) @
                    tprints_comment dflt)
              else (n, if dflt \<noteq> None then out @ ''0'' else out))"

text \<open>
  The text is collected in a static buffer: \<open>sep\<close> is the separator, if any, \<open>found\<close> whether a name has
  been found. The result is the text and whether a zero follows it in the buffer.
\<close>

datatype null_pointer = Null_Pointer

fun sprintflags_table ::
    "bool \<Rightarrow> (u64 \<times> string option) list \<Rightarrow> u64 \<times> char option \<times> bool \<times> string \<Rightarrow> u64 \<times> char option \<times> bool \<times> string" where
  "sprintflags_table in_comment [] s = s"
| "sprintflags_table in_comment ((v, str) # es) (flags, sep, found, out) =
     (if flags = 0 then (flags, sep, found, out)
      else if v \<noteq> 0 \<and> str \<noteq> None \<and> flags AND v = v
      then sprintflags_table in_comment es
        (flags AND NOT v, Some CHR ''|'', True,
         out @ (case sep of Some c \<Rightarrow> [c] | None \<Rightarrow> if in_comment then '' /* '' else []) @ the str)
      else sprintflags_table in_comment es (flags, sep, found, out))"

definition sprintflags_exv ::
    "u32 \<Rightarrow> string \<Rightarrow> u64 \<Rightarrow> char option \<Rightarrow> u32 \<Rightarrow> xlat list \<Rightarrow> null_pointer + (string \<times> bool) option" where
  "sprintflags_exv xlat_verbosity pfx flags sep style xlats =
     (let style = get_xlat_style xlat_verbosity style;
          aux = (style AND SPFF_AUXSTR_MODE \<noteq> 0);
          verbose = (xlat_verbose style = XLAT_STYLE_VERBOSE);
          put_sep = (case sep of Some c \<Rightarrow> [c] | None \<Rightarrow> [])
      in if xlat_verbose style = XLAT_STYLE_RAW then
           Inr (if flags = 0 \<or> (aux \<and> sep = None) then None
                else Some (pfx @ put_sep @ sprint_xlat_val flags style, True))
         else if flags = 0 \<and> (xlats = [] \<or> x_data (hd xlats) = []) then Inl Null_Pointer
         else if flags = 0 \<and> fst (hd (x_data (hd xlats))) = 0 \<and> snd (hd (x_data (hd xlats))) \<noteq> None then
           (let name = the (snd (hd (x_data (hd xlats))))
            in Inr (Some (pfx @ put_sep @ (if verbose \<and> \<not> aux then ''0 /* '' @ name @ '' */'' else name), True)))
         else
           let (sep, out) = (if verbose \<and> flags \<noteq> 0 \<and> \<not> aux then (None, pfx @ put_sep @ sprint_xlat_val flags style) else (sep, pfx));
               (flags, sep, found, out) = fold (\<lambda>x. sprintflags_table (verbose \<and> \<not> aux) (x_data x)) xlats (flags, sep, False, out)
           in if flags = 0 \<and> \<not> found then Inr None
              else
                let show = (flags \<noteq> 0 \<and> (found \<or> (\<not> verbose \<and> (\<not> aux \<or> sep \<noteq> None))));
                    out = (if flags \<noteq> 0 then out @ (case sep of Some c \<Rightarrow> [c] | None \<Rightarrow> []) else out) @
                      (if show then sprint_xlat_val flags style else []);
                    out' = (if found \<and> verbose \<and> \<not> aux then out @ '' */'' else out)
                in Inr (if out' = [] then None else Some (out', flags = 0 \<or> show \<or> sep = None \<or> found \<and> verbose \<and> \<not> aux)))"

definition sprintflags_ex ::
    "u32 \<Rightarrow> string \<Rightarrow> xlat \<Rightarrow> u64 \<Rightarrow> char option \<Rightarrow> u32 \<Rightarrow> null_pointer + (string \<times> bool) option" where
  "sprintflags_ex xlat_verbosity pfx x flags sep style = sprintflags_exv xlat_verbosity pfx flags sep style [x]"

section \<open>Facts on lookups\<close>

definition sorted_table :: "(u64 \<times> string option) list \<Rightarrow> bool" where
  "sorted_table xs \<longleftrightarrow> sorted_wrt (<) (map fst xs)"

lemma sorted_table_nth: "sorted_table xs \<Longrightarrow> i < j \<Longrightarrow> j < length xs \<Longrightarrow> fst (xs ! i) < fst (xs ! j)"
  by (simp add: sorted_table_def sorted_wrt_iff_nth_less)

text \<open>The entries below \<open>l\<close> are too small and those from \<open>u\<close> on too large.\<close>

lemma bsearch_sorted:
  assumes "sorted_table xs" "u \<le> length xs" "\<forall>i < l. fst (xs ! i) < v" "\<forall>i. u \<le> i \<and> i < length xs \<longrightarrow> v < fst (xs ! i)"
  shows "bsearch (xlat_bsearch_compare v) xs l u = find (\<lambda>e. fst e = v) xs"
  using assms
proof (induction "xlat_bsearch_compare v" xs l u rule: bsearch.induct)
  case (1 xs l u)
  show ?case
  proof (cases "l < u")
    case False
    have "fst (xs ! i) \<noteq> v" if "i < length xs" for i
    proof (cases "i < l")
      case True
      then show ?thesis using "1.prems"(3) by blast
    next
      case False
      then have "u \<le> i" using \<open>\<not> l < u\<close> by simp
      then show ?thesis using "1.prems"(4) that by blast
    qed
    then have "find (\<lambda>e. fst e = v) xs = None" unfolding find_None_iff in_set_conv_nth by blast
    then show ?thesis using False by (simp add: bsearch.simps)
  next
    case True
    let ?i = "(l + u) div 2"
    have i: "?i < u" "l \<le> ?i" "?i < length xs" using True 1(4) by auto
    consider "v < fst (xs ! ?i)" | "fst (xs ! ?i) < v" | "fst (xs ! ?i) = v" by fastforce
    then show ?thesis
    proof cases
      case 1
      have c: "xlat_bsearch_compare v (xs ! ?i) < 0" using 1 by (auto simp: xlat_bsearch_compare_def)
      have "v < fst (xs ! j)" if "?i \<le> j" "j < length xs" for j
        using sorted_table_nth [OF "1.prems"(1), of ?i j] that 1 less_trans [of v "fst (xs ! ?i)" "fst (xs ! j)"]
        by (cases "j = ?i") simp_all
      then have "bsearch (xlat_bsearch_compare v) xs l ?i = find (\<lambda>e. fst e = v) xs"
        using "1.hyps"(1) [OF True refl refl c "1.prems"(1)] "1.prems"(3) i by simp
      then show ?thesis using True c unfolding bsearch.simps [of _ _ l u] Let_def by (simp only: if_True)
    next
      case 2
      then have c: "\<not> xlat_bsearch_compare v (xs ! ?i) < 0" "xlat_bsearch_compare v (xs ! ?i) > 0" by (auto simp: xlat_bsearch_compare_def)
      have "fst (xs ! j) < v" if "j < ?i + 1" for j
        using sorted_table_nth [OF "1.prems"(1), of j ?i] that i(3) 2 less_trans [of "fst (xs ! j)" "fst (xs ! ?i)" v]
        by (cases "j = ?i") simp_all
      then have "bsearch (xlat_bsearch_compare v) xs (?i + 1) u = find (\<lambda>e. fst e = v) xs"
        using "1.hyps"(2) [OF True refl refl c "1.prems"(1)] "1.prems"(2,4) i by simp
      then show ?thesis using True c unfolding bsearch.simps [of _ _ l u] Let_def by (simp only: if_True if_False)
    next
      case 3
      have "fst (xs ! j) \<noteq> v" if "j < ?i" for j
        using sorted_table_nth [OF "1.prems"(1), of j ?i] that i(3) 3 by (metis less_irrefl)
      then have "find (\<lambda>e. fst e = v) xs = Some (xs ! ?i)" using i(3) 3
        unfolding find_Some_iff by (intro exI [of _ ?i]) simp
      then show ?thesis using True 3 by (subst bsearch.simps) (simp add: Let_def xlat_bsearch_compare_def)
    qed
  qed
qed

text \<open>What \<^verbatim>\<open>xlat_search_eq_or_less\<close> looks for: the last entry that is not greater than the value.\<close>

lemma search_loop_sorted:
  assumes "sorted_table xs" "base + nmemb \<le> length xs" "\<forall>i < base. fst (xs ! i) < v"
    and "\<forall>i. base + nmemb \<le> i \<and> i < length xs \<longrightarrow> v < fst (xs ! i)" "search_loop xs v base nmemb cur = (found, c)"
    and "nmemb = 0 \<longrightarrow> cur < length xs \<and> (cur = base \<and> v < fst (xs ! cur) \<or> base = cur + 1)"
  shows "c < length xs \<and> (if found then fst (xs ! c) = v
     else (\<forall>i < c. fst (xs ! i) < v) \<and> (\<forall>i. c < i \<and> i < length xs \<longrightarrow> v < fst (xs ! i)) \<and> fst (xs ! c) \<noteq> v)"
  using assms
proof (induction xs v base nmemb cur rule: search_loop.induct)
  case (1 xs v base nmemb cur)
  show ?case
  proof (cases "nmemb > 0")
    case False
    then show ?thesis using 1(3-8) by (auto simp: search_loop.simps less_Suc_eq)
  next
    case True
    let ?c = "base + nmemb div 2"
    have c: "?c < length xs" "?c < base + nmemb" using True 1(4) by auto
    note srt = sorted_table_nth [OF 1(3)]
    consider "v = fst (xs ! ?c)" | "v > fst (xs ! ?c)" | "v < fst (xs ! ?c)" by fastforce
    then show ?thesis
    proof cases
      case 1
      then show ?thesis using True c "1.prems"(5) by (subst (asm) search_loop.simps) (auto simp: Let_def)
    next
      case 2
      have sum: "?c + 1 + (nmemb - 1) div 2 = base + nmemb" using True by presburger
      show ?thesis
      proof (rule "1.IH"(1) [OF True refl less_imp_neq [OF 2, symmetric] 2 "1.prems"(1)])
        show "?c + 1 + (nmemb - 1) div 2 \<le> length xs" unfolding sum by (rule "1.prems"(2))
        have "fst (xs ! i) < v" if "i < ?c + 1" for i
          using srt [of i ?c] that c(1) 2 less_trans [of "fst (xs ! i)" "fst (xs ! ?c)" v] by (cases "i = ?c") simp_all
        then show "\<forall>i < ?c + 1. fst (xs ! i) < v" by blast
        show "\<forall>i. ?c + 1 + (nmemb - 1) div 2 \<le> i \<and> i < length xs \<longrightarrow> v < fst (xs ! i)" unfolding sum by (rule "1.prems"(4))
        show "search_loop xs v (?c + 1) ((nmemb - 1) div 2) ?c = (found, c)"
          using "1.prems"(5) True 2 less_imp_neq [OF 2] by (subst (asm) search_loop.simps) (simp add: Let_def)
      qed (use c(1) in simp)
    next
      case 3
      have n: "\<not> fst (xs ! ?c) < v" "v \<noteq> fst (xs ! ?c)" using 3 by auto
      show ?thesis
      proof (rule "1.IH"(2) [OF True refl n(2,1) "1.prems"(1)])
        show "base + nmemb div 2 \<le> length xs" using c(1) by simp
        have "v < fst (xs ! i)" if "?c \<le> i" "i < length xs" for i
          using srt [of ?c i] that 3 less_trans [of v "fst (xs ! ?c)" "fst (xs ! i)"] by (cases "i = ?c") simp_all
        then show "\<forall>i. ?c \<le> i \<and> i < length xs \<longrightarrow> v < fst (xs ! i)" by blast
        show "search_loop xs v base (nmemb div 2) ?c = (found, c)"
          using "1.prems"(5) True n by (subst (asm) search_loop.simps) (simp add: Let_def)
        show "nmemb div 2 = 0 \<longrightarrow> ?c < length xs \<and> (?c = base \<and> v < fst (xs ! ?c) \<or> base = ?c + 1)" using c(1) 3 by auto
      qed (rule "1.prems"(3))
    qed
  qed
qed

section \<open>Facts on flags\<close>

text \<open>The flags that a list of entries stands for, and their names with separators before them.\<close>

definition flags_of :: "(u64 \<times> string option) list \<Rightarrow> u64" where
  "flags_of ms = foldr (\<lambda>m. (OR) (fst m)) ms 0"

definition ors :: "string list \<Rightarrow> string" where
  "ors names = concat (map (\<lambda>s. CHR ''|'' # s) names)"

definition join :: "string list \<Rightarrow> string" where
  "join names = tl (ors names)"

definition entry_names :: "(u64 \<times> string option) list \<Rightarrow> string list" where
  "entry_names ms = map (the \<circ> snd) ms"

lemma flags_of_simps [simp]: "flags_of [] = 0" "flags_of (m # ms) = fst m OR flags_of ms" "flags_of (ms @ ms') = flags_of ms OR flags_of ms'"
proof -
  show "flags_of [] = 0" "flags_of (m # ms) = fst m OR flags_of ms" by (simp_all add: flags_of_def)
  show "flags_of (ms @ ms') = flags_of ms OR flags_of ms'" by (induction ms) (simp_all add: flags_of_def or.assoc)
qed

lemma ors_simps [simp]: "ors [] = []" "ors (s # ss) = CHR ''|'' # s @ ors ss" "ors (ss @ ss') = ors ss @ ors ss'"
  by (simp_all add: ors_def)

lemma entry_names_simps [simp]:
  "entry_names [] = []" "entry_names (m # ms) = the (snd m) # entry_names ms" "entry_names (ms @ ms') = entry_names ms @ entry_names ms'"
  "entry_names ms = [] \<longleftrightarrow> ms = []" "length (entry_names ms) = length ms"
  by (simp_all add: entry_names_def)

text \<open>
  The names \<open>ms\<close> chosen from a list of entries for some flags: they are in the order of the list, their
  values are parts of the flags, and the flags left contain the value of no named entry.
\<close>

definition chosen :: "(u64 \<times> string option) list \<Rightarrow> u64 \<Rightarrow> (u64 \<times> string option) list \<Rightarrow> bool" where
  "chosen es flags ms \<longleftrightarrow> subseq ms es \<and> (\<forall>m \<in> set ms. snd m \<noteq> None) \<and> flags AND flags_of ms = flags_of ms \<and>
     (\<forall>e \<in> set es. snd e \<noteq> None \<and> fst e \<noteq> 0 \<longrightarrow> (flags AND NOT (flags_of ms)) AND fst e \<noteq> fst e)"

lemma part_of_iff: "(a :: 'a::len word) AND b = b \<longleftrightarrow> (\<forall>n. bit b n \<longrightarrow> bit a n)"
  by (auto simp: bit_eq_iff bit_and_iff dest: bit_imp_le_length)

lemma chosen_append:
  assumes "chosen es flags ms" "chosen es' (flags AND NOT (flags_of ms)) ms'"
  shows "chosen (es @ es') flags (ms @ ms')"
proof -
  have "flags AND flags_of (ms @ ms') = flags_of (ms @ ms')"
    using assms unfolding chosen_def part_of_iff flags_of_simps by (auto simp: bit_simps)
  moreover have "(flags AND NOT (flags_of (ms @ ms'))) AND fst e \<noteq> fst e" if "e \<in> set (es @ es')" "snd e \<noteq> None" "fst e \<noteq> 0" for e
  proof (cases "e \<in> set es")
    case True
    then have "(flags AND NOT (flags_of ms)) AND fst e \<noteq> fst e" using assms(1) that unfolding chosen_def by blast
    then show ?thesis unfolding part_of_iff by (auto simp: bit_simps)
  next
    case False
    then have "((flags AND NOT (flags_of ms)) AND NOT (flags_of ms')) AND fst e \<noteq> fst e" using assms(2) that unfolding chosen_def by auto
    then show ?thesis unfolding part_of_iff by (auto simp: bit_simps)
  qed
  moreover have "subseq (ms @ ms') (es @ es')" "\<forall>m \<in> set (ms @ ms'). snd m \<noteq> None"
    using assms unfolding chosen_def by (auto intro: list_emb_append_mono)
  ultimately show ?thesis unfolding chosen_def by blast
qed

text \<open>The output of the loops after the names \<open>ms\<close> have been chosen.\<close>

definition lead :: "bool \<Rightarrow> nat \<Rightarrow> u64 \<Rightarrow> (u64 \<times> string option) list \<Rightarrow> string" where
  "lead need_comment n flags ms =
     (if ms = [] then [] else if n \<noteq> 0 then ors (entry_names ms)
      else (if need_comment then (if flags = 0 then ''0'' else []) @ '' /* '' else []) @ join (entry_names ms))"

lemma lead_append:
  assumes "ms \<noteq> [] \<longrightarrow> n' \<noteq> 0" "ms = [] \<longrightarrow> n' = n \<and> flags' = flags"
  shows "lead c n flags (ms @ ms') = lead c n flags ms @ lead c n' flags' ms'"
  using assms by (cases ms) (auto simp: lead_def join_def)

lemma printflags_table_chosen:
  "\<exists>ms. chosen es flags ms \<and> (flags = 0 \<and> n \<noteq> 0 \<longrightarrow> ms = []) \<and>
     printflags_table c es (n, flags, out) = (n + length ms, flags AND NOT (flags_of ms), out @ lead c n flags ms)"
proof (induction es arbitrary: n flags out)
  case Nil
  then show ?case by (intro exI [of _ "[]"]) (simp add: chosen_def lead_def)
next
  case (Cons e es)
  obtain v str where e: "e = (v, str)" by fastforce
  have zero: "chosen (e # es) 0 ms" if "flags_of ms = 0" "subseq ms (e # es)" "\<forall>m \<in> set ms. snd m \<noteq> None" for ms
    using that by (auto simp: chosen_def)
  show ?case
  proof (cases "flags = 0 \<and> n \<noteq> 0")
    case True
    then show ?thesis using e zero [of "[]"] by (intro exI [of _ "[]"]) (auto simp: lead_def)
  next
    case go: False
    show ?thesis
    proof (cases "str \<noteq> None \<and> (flags = v \<or> (v \<noteq> 0 \<and> flags AND v = v))")
      case True
      then obtain name where name: "str = Some name" by auto
      have "v \<noteq> 0 \<Longrightarrow> \<exists>n. bit v n" using bit_eq_iff [of v 0] by auto
      then have one: "chosen [e] flags [e]" using True e by (auto simp: chosen_def part_of_iff bit_simps)
      obtain ms where ms: "chosen es (flags AND NOT v) ms" "flags AND NOT v = 0 \<longrightarrow> ms = []"
          "flags AND NOT v \<noteq> 0 \<longrightarrow> printflags_table c es (n + 1, flags AND NOT v, out @ lead c n flags [e]) =
             (n + 1 + length ms, (flags AND NOT v) AND NOT (flags_of ms), (out @ lead c n flags [e]) @ lead c (n + 1) (flags AND NOT v) ms)"
      proof (cases "flags AND NOT v = 0")
        case True
        then show ?thesis using that [of "[]"] by (auto simp: chosen_def)
      next
        case False
        then show ?thesis using Cons [of "flags AND NOT v" "n + 1" "out @ lead c n flags [e]"] that by blast
      qed
      have "chosen (e # es) flags (e # ms)" using chosen_append [OF one, of es ms] ms(1) e by simp
      moreover have "lead c n flags (e # ms) = lead c n flags [e] @ lead c (n + 1) (flags AND NOT v) ms"
        using lead_append [of "[e]" "n + 1" n "flags AND NOT v" flags c ms] by simp
      moreover have "printflags_table c (e # es) (n, flags, out) =
          (n + length (e # ms), flags AND NOT (flags_of (e # ms)), out @ lead c n flags (e # ms))"
      proof (cases "flags AND NOT v = 0")
        case z: True
        then show ?thesis using go True name e ms(2) by (auto simp: lead_def join_def)
      next
        case False
        then show ?thesis using go True name e ms(3) calculation(2) by (auto simp: lead_def join_def and.assoc)
      qed
      ultimately show ?thesis using go by (intro exI [of _ "e # ms"]) blast
    next
      case skip: False
      show ?thesis
      proof (cases "flags = 0")
        case True
        then show ?thesis using skip go e zero [of "[]"] by (intro exI [of _ "[]"]) (auto simp: lead_def split: option.splits)
      next
        case False
        obtain ms where ms: "chosen es flags ms"
            "printflags_table c es (n, flags, out) = (n + length ms, flags AND NOT (flags_of ms), out @ lead c n flags ms)"
          using Cons [of flags n out] by blast
        have "chosen [e] flags []" using skip e by (auto simp: chosen_def)
        then have "chosen (e # es) flags ms" using chosen_append [of "[e]" flags "[]" es ms] ms(1) by simp
        then show ?thesis using ms(2) skip False e by (intro exI [of _ ms]) (auto split: option.splits)
      qed
    qed
  qed
qed

lemma printflags_tables_chosen:
  "\<exists>ms. chosen (concat (map x_data xlats)) flags ms \<and> (flags = 0 \<and> n \<noteq> 0 \<longrightarrow> ms = []) \<and>
     fold (\<lambda>x. printflags_table c (x_data x)) xlats (n, flags, out) =
       (n + length ms, flags AND NOT (flags_of ms), out @ lead c n flags ms)"
proof (induction xlats arbitrary: n flags out)
  case Nil
  then show ?case by (intro exI [of _ "[]"]) (simp add: chosen_def lead_def)
next
  case (Cons x xlats)
  obtain ms where ms: "chosen (x_data x) flags ms" "flags = 0 \<and> n \<noteq> 0 \<longrightarrow> ms = []"
      "printflags_table c (x_data x) (n, flags, out) = (n + length ms, flags AND NOT (flags_of ms), out @ lead c n flags ms)"
    using printflags_table_chosen by blast
  obtain ms' where ms': "chosen (concat (map x_data xlats)) (flags AND NOT (flags_of ms)) ms'"
      "flags AND NOT (flags_of ms) = 0 \<and> n + length ms \<noteq> 0 \<longrightarrow> ms' = []"
      "fold (\<lambda>x. printflags_table c (x_data x)) xlats (n + length ms, flags AND NOT (flags_of ms), out @ lead c n flags ms) =
         (n + length ms + length ms', (flags AND NOT (flags_of ms)) AND NOT (flags_of ms'),
          (out @ lead c n flags ms) @ lead c (n + length ms) (flags AND NOT (flags_of ms)) ms')"
    using Cons by blast
  have "lead c n flags (ms @ ms') = lead c n flags ms @ lead c (n + length ms) (flags AND NOT (flags_of ms)) ms'"
    by (rule lead_append) auto
  then show ?case
    using chosen_append [OF ms(1) ms'(1)] ms(2,3) ms'(2,3) by (intro exI [of _ "ms @ ms'"]) (simp add: and.assoc)
qed

text \<open>The two ways of collecting flags take the same steps once there is something to print.\<close>

definition as_sprint :: "nat \<times> u64 \<times> string \<Rightarrow> u64 \<times> char option \<times> bool \<times> string" where
  "as_sprint = (\<lambda>(n, flags, out). (flags, if n \<noteq> 0 then Some CHR ''|'' else None, n \<noteq> 0, out))"

lemma sprintflags_table_done [simp]: "sprintflags_table c es (0, s) = (0, s)"
  by (cases es; cases s) auto

lemma sprintflags_table_steps:
  assumes "flags \<noteq> 0 \<or> n \<noteq> 0"
  shows "sprintflags_table c es (as_sprint (n, flags, out)) = as_sprint (printflags_table c es (n, flags, out))"
  using assms
proof (induction es arbitrary: n flags out)
  case (Cons e es)
  obtain v str where e: "e = (v, str)" by fastforce
  show ?case
  proof (cases "flags = 0")
    case True
    then show ?thesis using Cons.prems e by (simp add: as_sprint_def)
  next
    case False
    note IH = Cons.IH [of flags n out] Cons.IH [of "flags AND NOT v" "n + 1"
        "out @ (if n \<noteq> 0 then ''|'' else if c then '' /* '' else []) @ the str"]
    show ?thesis
    proof (cases "v \<noteq> 0 \<and> str \<noteq> None \<and> flags AND v = v")
      case True
      then show ?thesis using e False IH(2) by (cases "flags AND NOT v = 0") (auto simp: as_sprint_def)
    next
      case no: False
      then have "\<not> (str \<noteq> None \<and> (flags = v \<or> (v \<noteq> 0 \<and> flags AND v = v)))" using False by auto
      then show ?thesis using e no False IH(1) by (auto simp: as_sprint_def split: option.splits)
    qed
  qed
qed simp

lemma sprintflags_tables_steps:
  assumes "flags \<noteq> 0 \<or> n \<noteq> 0"
  shows "fold (\<lambda>x. sprintflags_table c (x_data x)) xlats (as_sprint (n, flags, out)) =
    as_sprint (fold (\<lambda>x. printflags_table c (x_data x)) xlats (n, flags, out))"
  using assms
proof (induction xlats arbitrary: n flags out)
  case (Cons x xlats)
  obtain ms where ms: "printflags_table c (x_data x) (n, flags, out) = (n + length ms, flags AND NOT (flags_of ms), out @ lead c n flags ms)"
    using printflags_table_chosen by blast
  have "flags AND NOT (flags_of ms) \<noteq> 0 \<or> n + length ms \<noteq> 0" using Cons.prems by (cases ms) auto
  then show ?case using Cons.IH [of "flags AND NOT (flags_of ms)" "n + length ms"] sprintflags_table_steps [OF Cons.prems] ms by simp
qed simp

lemma sprint_xlat_val_0 [simp]: "sprint_xlat_val 0 style = ''0''"
proof -
  have "char_of (48 :: nat) = CHR ''0''" by code_simp
  then show ?thesis by (simp add: sprint_xlat_val_def int_string_def alt_hex_string_def dec_string.simps [of 0])
qed

section \<open>What the texts say\<close>

text \<open>C20: the text of a combination of flags loses nothing: it consists of names of the tables in their order and
  of a number for the flags left, which together give the flags, and no name is missing. In the verbose style the
  names follow the value as a comment. The result is the number of the parts.\<close>

theorem printflags_lossless:
  assumes "xlat_verbose st \<noteq> XLAT_STYLE_RAW" "st = get_xlat_style xlat_verbosity style"
  shows "\<exists>ms rest. chosen (concat (map x_data xlats)) flags ms \<and> flags = flags_of ms OR rest \<and> flags_of ms AND rest = 0 \<and>
    printflags_ex xlat_verbosity flags dflt style xlats =
      (if ms = [] then (0, if flags \<noteq> 0 then sprint_xlat_val flags st @ tprints_comment dflt else if dflt \<noteq> None then ''0'' else [])
       else let parts = entry_names ms @ (if rest \<noteq> 0 then [sprint_xlat_val rest st] else [])
         in (length parts, if xlat_verbose st = XLAT_STYLE_VERBOSE then sprint_xlat_val flags st @ '' /* '' @ join parts @ '' */'' else join parts))"
proof -
  let ?c = "xlat_verbose st = XLAT_STYLE_VERBOSE"
  let ?out = "if ?c \<and> flags \<noteq> 0 then sprint_xlat_val flags st else []"
  obtain ms where ms: "chosen (concat (map x_data xlats)) flags ms"
      "fold (\<lambda>x. printflags_table ?c (x_data x)) xlats (0, flags, ?out) = (length ms, flags AND NOT (flags_of ms), ?out @ lead ?c 0 flags ms)"
    using printflags_tables_chosen [of xlats flags 0 ?c ?out] by auto
  let ?rest = "flags AND NOT (flags_of ms)"
  have "flags AND flags_of ms = flags_of ms" using ms(1) by (simp add: chosen_def)
  then have parts: "flags = flags_of ms OR ?rest" "flags_of ms AND ?rest = 0"
    unfolding part_of_iff by (auto intro!: bit_word_eqI simp: bit_simps)
  have eq: "printflags_ex xlat_verbosity flags dflt style xlats =
      (if ms = [] then (0, if flags \<noteq> 0 then sprint_xlat_val flags st @ tprints_comment dflt else if dflt \<noteq> None then ''0'' else [])
       else let ps = entry_names ms @ (if ?rest \<noteq> 0 then [sprint_xlat_val ?rest st] else [])
         in (length ps, if ?c then sprint_xlat_val flags st @ '' /* '' @ join ps @ '' */'' else join ps))"
    using assms ms(2) by (cases ms) (auto simp: printflags_ex_def Let_def lead_def join_def)
  show ?thesis using ms(1) parts eq by blast
qed

definition access_table :: xlat where
  "access_table = \<lparr>x_data = [(0, Some ''F_OK''), (4, Some ''R_OK''), (2, Some ''W_OK''), (1, None), (6, Some ''RW'')], x_type = XT_NORMAL\<rparr>"

theorem printflags_lossless_witness:
  "\<exists>ms rest. chosen (x_data access_table) 0x16 ms \<and> 0x16 = flags_of ms OR rest \<and> flags_of ms AND rest = 0 \<and>
     printflags_ex XLAT_STYLE_ABBREV 0x16 None XLAT_STYLE_DEFAULT [access_table] =
       (if ms = [] then (0, ''0x16'')
        else let parts = entry_names ms @ (if rest \<noteq> 0 then [sprint_xlat_val rest 2] else []) in (length parts, join parts)) \<and>
     printflags_ex XLAT_STYLE_ABBREV 0x16 None XLAT_STYLE_DEFAULT [access_table] = (3, ''R_OK|W_OK|0x10'')"
proof -
  have v: "xlat_verbose 2 = (2 :: u32)" "get_xlat_style XLAT_STYLE_ABBREV XLAT_STYLE_DEFAULT = 2"
    by (simp_all add: get_xlat_style_def xlat_verbose_def)
  have p: "printflags_ex XLAT_STYLE_ABBREV 0x16 None XLAT_STYLE_DEFAULT [access_table] = (3, ''R_OK|W_OK|0x10'')" by code_simp
  have t: "sprint_xlat_val 0x16 2 @ tprints_comment None = ''0x16''" by code_simp
  have "xlat_verbose (2 :: u32) \<noteq> XLAT_STYLE_RAW" using v(1) by simp
  from printflags_lossless [OF this v(2) [symmetric], where xlats = "[access_table]" and flags = "0x16" and dflt = None] obtain ms rest where
    "chosen (x_data access_table) 0x16 ms" "0x16 = flags_of ms OR rest" "flags_of ms AND rest = 0"
    "printflags_ex XLAT_STYLE_ABBREV 0x16 None XLAT_STYLE_DEFAULT [access_table] =
       (if ms = [] then (0, ''0x16'')
        else let parts = entry_names ms @ (if rest \<noteq> 0 then [sprint_xlat_val rest 2] else []) in (length parts, join parts))"
    using t v(1) by auto
  then show ?thesis using p by blast
qed

text \<open>C22: both ways of printing flags write the same text, in every style, for flags that are not 0 and for 0 with
  a single table.\<close>

theorem sprintflags_printflags:
  assumes "get_xlat_style xlat_verbosity style AND SPFF_AUXSTR_MODE = 0"
    and "flags \<noteq> 0 \<or> (\<exists>x. xlats = [x] \<and> x_data x \<noteq> [])"
  shows "\<exists>r. sprintflags_exv xlat_verbosity [] flags None style xlats = Inr r \<and>
    (case r of None \<Rightarrow> [] | Some (t, z) \<Rightarrow> t) = snd (printflags_ex xlat_verbosity flags None style xlats) \<and>
    (case r of None \<Rightarrow> True | Some (t, z) \<Rightarrow> z)"
proof -
  define st where "st = get_xlat_style xlat_verbosity style"
  let ?c = "xlat_verbose st = XLAT_STYLE_VERBOSE"
  have aux: "st AND SPFF_AUXSTR_MODE = 0" using assms(1) by (simp add: st_def)
  consider "xlat_verbose st = XLAT_STYLE_RAW" | "xlat_verbose st \<noteq> XLAT_STYLE_RAW" "flags \<noteq> 0"
    | "xlat_verbose st \<noteq> XLAT_STYLE_RAW" "flags = 0" by blast
  then show ?thesis
  proof cases
    case 1
    then show ?thesis by (simp add: sprintflags_exv_def printflags_ex_def st_def [symmetric] aux Let_def)
  next
    case 2
    let ?out = "if ?c then sprint_xlat_val flags st else []"
    obtain n rest out where f: "fold (\<lambda>x. printflags_table ?c (x_data x)) xlats (0, flags, ?out) = (n, rest, out)"
      by (metis prod.exhaust)
    have g: "fold (\<lambda>x. sprintflags_table ?c (x_data x)) xlats (flags, None, False, ?out) =
        (rest, if n \<noteq> 0 then Some CHR ''|'' else None, n \<noteq> 0, out)"
      using sprintflags_tables_steps [of flags 0 ?c xlats ?out] 2(2) f by (simp add: as_sprint_def)
    obtain ms where "n = length ms" "rest = flags AND NOT (flags_of ms)" "out = ?out @ lead ?c 0 flags ms"
      using printflags_tables_chosen [of xlats flags 0 ?c ?out] f by auto
    then have "rest \<noteq> 0 \<or> n \<noteq> 0" "n = 0 \<longrightarrow> out = ?out" using 2(2) by (cases ms; simp add: lead_def)+
    then show ?thesis
      using 2 f g by (auto simp: sprintflags_exv_def printflags_ex_def st_def [symmetric] aux Let_def tprints_comment_def)
  next
    case 3
    then obtain x where x: "xlats = [x]" "x_data x \<noteq> []" using assms(2) by blast
    then obtain v str es where d: "x_data x = (v, str) # es" by (metis neq_Nil_conv prod.exhaust)
    then show ?thesis using 3 x(1)
      by (cases str) (auto simp: sprintflags_exv_def printflags_ex_def st_def [symmetric] aux Let_def)
  qed
qed

theorem sprintflags_printflags_witness:
  "sprintflags_exv XLAT_STYLE_VERBOSE [] 0x16 None XLAT_STYLE_DEFAULT [access_table] = Inr (Some (''0x16 /* R_OK|W_OK|0x10 */'', True)) \<and>
   snd (printflags_ex XLAT_STYLE_VERBOSE 0x16 None XLAT_STYLE_DEFAULT [access_table]) = ''0x16 /* R_OK|W_OK|0x10 */''"
proof -
  have a: "get_xlat_style XLAT_STYLE_VERBOSE XLAT_STYLE_DEFAULT AND SPFF_AUXSTR_MODE = 0" by code_simp
  have p: "snd (printflags_ex XLAT_STYLE_VERBOSE 0x16 None XLAT_STYLE_DEFAULT [access_table]) = ''0x16 /* R_OK|W_OK|0x10 */''" by code_simp
  have "(0x16 :: u64) \<noteq> 0 \<or> (\<exists>x. [access_table] = [x] \<and> x_data x \<noteq> [])" by simp
  from sprintflags_printflags [OF a this] p show ?thesis by (auto split: option.splits)
qed

lemma filter_sorted_table:
  assumes "sorted_table xs" "i < length xs" "fst (xs ! i) \<le> v" "\<forall>j. i < j \<and> j < length xs \<longrightarrow> v < fst (xs ! j)"
  shows "filter (\<lambda>e. fst e \<le> v) xs \<noteq> []" "last (filter (\<lambda>e. fst e \<le> v) xs) = xs ! i"
proof -
  have "fst (xs ! j) \<le> v" if "j < Suc i" for j
    using sorted_table_nth [OF assms(1), of j i] that assms(2,3) by (cases "j = i") auto
  then have t: "filter (\<lambda>e. fst e \<le> v) (take (Suc i) xs) = take (Suc i) xs"
    by (simp add: filter_id_conv all_set_conv_all_nth)
  have d: "filter (\<lambda>e. fst e \<le> v) (drop (Suc i) xs) = []"
    using assms(4) by (simp add: filter_empty_conv all_set_conv_all_nth not_le)
  have "filter (\<lambda>e. fst e \<le> v) (take (Suc i) xs @ drop (Suc i) xs) = take i xs @ [xs ! i]"
    unfolding filter_append t d using assms(2) by (simp add: take_Suc_conv_app_nth)
  then have "filter (\<lambda>e. fst e \<le> v) xs = take i xs @ [xs ! i]" by (simp only: append_take_drop_id)
  then show "filter (\<lambda>e. fst e \<le> v) xs \<noteq> []" "last (filter (\<lambda>e. fst e \<le> v) xs) = xs ! i" by simp_all
qed

text \<open>C23: in a sorted table the binary search finds the name that a linear search finds, and the search for a
  value or the next smaller one finds the greatest entry that is not greater, if there is one.\<close>

theorem xlookup_sorted:
  assumes "x_type x = XT_SORTED" "sorted_table (x_data x)" "x_data x \<noteq> []"
  shows "xlookup x v = xlookup (x\<lparr>x_type := XT_NORMAL\<rparr>) v \<and>
    xlookup_le x v = (case filter (\<lambda>e. fst e \<le> v) (x_data x) of [] \<Rightarrow> (None, v) | es \<Rightarrow> (snd (last es), fst (last es)))"
proof
  have "bsearch (xlat_bsearch_compare v) (x_data x) 0 (length (x_data x)) = find (\<lambda>e. fst e = v) (x_data x)"
    by (rule bsearch_sorted [OF assms(2)]) auto
  then show "xlookup x v = xlookup (x\<lparr>x_type := XT_NORMAL\<rparr>) v" using assms(1) by (simp add: xlookup_def)
next
  let ?xs = "x_data x" and ?es = "filter (\<lambda>e. fst e \<le> v) (x_data x)"
  obtain found c where s: "search_loop ?xs v 0 (length ?xs) 0 = (found, c)" by fastforce
  have c: "c < length ?xs" "found \<Longrightarrow> fst (?xs ! c) = v" "\<not> found \<Longrightarrow> i < c \<Longrightarrow> fst (?xs ! i) < v"
      "\<not> found \<Longrightarrow> c < i \<Longrightarrow> i < length ?xs \<Longrightarrow> v < fst (?xs ! i)" for i
  proof -
    have "\<forall>i. 0 + length ?xs \<le> i \<and> i < length ?xs \<longrightarrow> v < fst (?xs ! i)" by auto
    from search_loop_sorted [OF assms(2) _ _ this s] assms(3)
    show "c < length ?xs" "found \<Longrightarrow> fst (?xs ! c) = v" "\<not> found \<Longrightarrow> i < c \<Longrightarrow> fst (?xs ! i) < v"
      "\<not> found \<Longrightarrow> c < i \<Longrightarrow> i < length ?xs \<Longrightarrow> v < fst (?xs ! i)" by simp_all
  qed
  have hit: "xlookup_le x v = (snd (last ?es), fst (last ?es)) \<and> ?es \<noteq> []"
    if "i < length ?xs" "fst (?xs ! i) \<le> v" "\<forall>j. i < j \<and> j < length ?xs \<longrightarrow> v < fst (?xs ! j)" "xlookup_le x v = (snd (?xs ! i), fst (?xs ! i))" for i
    using filter_sorted_table [OF assms(2) that(1-3)] that(4) by simp
  note le = xlookup_le_def xlat_search_eq_or_less_def s assms(1,3)
  consider "found" | "\<not> found" "\<not> v < fst (?xs ! c)" | "\<not> found" "v < fst (?xs ! c)" "0 < c" | "\<not> found" "v < fst (?xs ! c)" "c = 0" by blast
  then show "xlookup_le x v = (case ?es of [] \<Rightarrow> (None, v) | es \<Rightarrow> (snd (last es), fst (last es)))"
  proof cases
    case 1
    then have "xlookup_le x v = (snd (last ?es), fst (last ?es)) \<and> ?es \<noteq> []"
      using c(1,2) sorted_table_nth [OF assms(2), of c] by (intro hit [of c]) (auto simp: le)
    then show ?thesis by (auto split: list.splits)
  next
    case 2
    then have "xlookup_le x v = (snd (last ?es), fst (last ?es)) \<and> ?es \<noteq> []"
      using c(1,4) by (intro hit [of c]) (auto simp: le not_less)
    then show ?thesis by (auto split: list.splits)
  next
    case 3
    have "v < fst (?xs ! j)" if "c - 1 < j" "j < length ?xs" for j using that 3 c(4) [of j] by (cases "j = c") auto
    moreover have "fst (?xs ! (c - 1)) < v" using 3 c(3) by simp
    ultimately have "xlookup_le x v = (snd (last ?es), fst (last ?es)) \<and> ?es \<noteq> []"
      using 3 c(1) by (intro hit [of "c - 1"]) (auto simp: le)
    then show ?thesis by (auto split: list.splits)
  next
    case 4
    have "v < fst (?xs ! j)" if "j < length ?xs" for j using that 4 c(4) [of j] by (cases "j = 0") auto
    then have "?es = []" by (simp add: filter_empty_conv all_set_conv_all_nth not_le)
    then show ?thesis using 4 by (simp add: le)
  qed
qed

theorem xlookup_sorted_witness:
  "let x = \<lparr>x_data = [(1, Some ''one''), (4, Some ''four''), (9, Some ''nine'')], x_type = XT_SORTED\<rparr>
   in xlookup x 4 = Some ''four'' \<and> xlookup_le x 8 = (Some ''four'', 4) \<and> xlookup_le x 0 = (None, 0)"
proof -
  let ?x = "\<lparr>x_data = [(1, Some ''one''), (4, Some ''four''), (9, Some ''nine'')], x_type = XT_SORTED\<rparr>"
  have "x_type ?x = XT_SORTED" "sorted_table (x_data ?x)" "x_data ?x \<noteq> []" by (simp_all add: sorted_table_def)
  note t = xlookup_sorted [OF this]
  have "xlookup ?x 4 = Some ''four''" using t [of 4] by (simp add: xlookup_def)
  moreover have "xlookup_le ?x 8 = (Some ''four'', 4)" "xlookup_le ?x 0 = (None, 0)" using t [of 8] t [of 0] by simp_all
  ultimately show ?thesis by (simp add: Let_def)
qed

end
