(* ===== verification/Mmap_Cache.thy ===== *)
theory Mmap_Cache
  imports C_String "HOL-Library.Monad_Syntax"
begin

text \<open>
  The cache of the memory mappings of a tracee, \<^verbatim>\<open>src/src/mmap_cache.c\<close>: reading the file
  \<^verbatim>\<open>/proc/PID/maps\<close>, keeping its regions in ascending order, and finding the region of an address. The
  contents of the file, if it can be opened, are an argument. There are fewer than \<open>2 ^ 30\<close> mappings, so
  that the indices of the search do not overflow.
\<close>

record mmap_cache_entry =
  start_addr :: u64
  end_addr :: u64
  mmap_offset :: u64
  protections :: u8
  major :: u64
  minor :: u64
  binary_filename :: string

record mmap_cache =
  entry_array :: "mmap_cache_entry list"
  generation :: u32

datatype rebuild_result = MMAP_CACHE_REBUILD_NOCACHE | MMAP_CACHE_REBUILD_READY | MMAP_CACHE_REBUILD_RENEWED

abbreviation NEWLINE :: char where "NEWLINE \<equiv> CHR 0x0A"

section \<open>Reading a line\<close>

text \<open>The conversions of \<^verbatim>\<open>sscanf\<close> that are used; each yields the rest of the input.\<close>

definition scan_lx :: "string \<Rightarrow> (u64 \<times> string) option" where
  "scan_lx str =
     (let (sign, s) = strip_sign (dropWhile is_space str);
          s = (if has_prefix ''0x'' s \<or> has_prefix ''0X'' s then drop 2 s else s);
          v = base_val 16 (takeWhile (base_digit 16) s)
      in if takeWhile (base_digit 16) s = [] then None
         else Some (if v \<ge> 2 ^ 64 then - 1 else if sign = ''-'' then - word_of_nat v else word_of_nat v,
                    dropWhile (base_digit 16) s))"

definition scan_c :: "string \<Rightarrow> (char \<times> string) option" where
  "scan_c str = (case str of [] \<Rightarrow> None | c # s \<Rightarrow> Some (c, s))"

definition scan_literal :: "char \<Rightarrow> string \<Rightarrow> string option" where
  "scan_literal c str = (case str of [] \<Rightarrow> None | d # s \<Rightarrow> if c = d then Some s else None)"

definition scan_skip_d :: "string \<Rightarrow> string option" where
  "scan_skip_d str =
     (let (sign, s) = strip_sign (dropWhile is_space str)
      in if takeWhile is_digit s = [] then None else Some (dropWhile is_digit s))"

definition scan_line :: "string \<Rightarrow> string option" where
  "scan_line str = (let s = takeWhile (\<lambda>c. c \<noteq> NEWLINE) str in if s = [] then None else Some s)"

text \<open>The ten conversions of the format; None when there are fewer.\<close>

definition sscanf_maps ::
    "string \<Rightarrow> (u64 \<times> u64 \<times> char \<times> char \<times> char \<times> char \<times> u64 \<times> u64 \<times> u64 \<times> string) option" where
  "sscanf_maps s =
     do { (start, s) \<leftarrow> scan_lx s; s \<leftarrow> scan_literal (CHR ''-'') s; (stop, s) \<leftarrow> scan_lx s;
          (read_bit, s) \<leftarrow> scan_c (dropWhile is_space s); (write_bit, s) \<leftarrow> scan_c s;
          (exec_bit, s) \<leftarrow> scan_c s; (shared_bit, s) \<leftarrow> scan_c s;
          (offset, s) \<leftarrow> scan_lx s;
          (maj, s) \<leftarrow> scan_lx s; s \<leftarrow> scan_literal (CHR '':'') s; (mnr, s) \<leftarrow> scan_lx s;
          s \<leftarrow> scan_skip_d s; path \<leftarrow> scan_line (dropWhile is_space s);
          Some (start, stop, read_bit, write_bit, exec_bit, shared_bit, offset, maj, mnr, path) }"

text \<open>The results of \<^verbatim>\<open>fgets\<close> with a buffer of \<open>n + 1\<close> bytes.\<close>

definition first_line :: "nat \<Rightarrow> string \<Rightarrow> string" where
  "first_line n s = take n (takeWhile (\<lambda>c. c \<noteq> NEWLINE) s @ take 1 (dropWhile (\<lambda>c. c \<noteq> NEWLINE) s))"

function fgets_all :: "nat \<Rightarrow> string \<Rightarrow> string list" where
  "fgets_all n s = (if n = 0 \<or> s = [] then [] else first_line n s # fgets_all n (drop (length (first_line n s)) s))"
  by pat_completeness auto
termination
proof (relation "measure (\<lambda>(n, s). length s)")
  fix n :: nat and s :: string
  assume "\<not> (n = 0 \<or> s = [])"
  then have "first_line n s \<noteq> []" by (cases s) (auto simp: first_line_def)
  then show "((n, drop (length (first_line n s)) s), n, s) \<in> measure (\<lambda>(n, s). length s)"
    using \<open>\<not> (n = 0 \<or> s = [])\<close> by simp
qed simp

declare fgets_all.simps [simp del]

section \<open>The cache\<close>

definition region_protections :: "char \<Rightarrow> char \<Rightarrow> char \<Rightarrow> char \<Rightarrow> u8" where
  "region_protections read_bit write_bit exec_bit shared_bit =
     (if read_bit = CHR ''r'' then 1 else 0) OR (if write_bit = CHR ''w'' then 2 else 0) OR
     (if exec_bit = CHR ''x'' then 4 else 0) OR (if shared_bit = CHR ''s'' then 8 else 0)"

text \<open>The region of a line; None for a line that is skipped.\<close>

definition read_region :: "string \<Rightarrow> mmap_cache_entry option" where
  "read_region buffer =
     (case sscanf_maps buffer of
        None \<Rightarrow> None
      | Some (start, stop, read_bit, write_bit, exec_bit, shared_bit, offset, maj, mnr, path) \<Rightarrow>
          if read_bit \<notin> set ''-r'' then None
          else if write_bit \<notin> set ''-w'' then None
          else if exec_bit \<notin> set ''-x'' then None
          else if shared_bit \<notin> set ''ps'' then None
          else Some \<lparr>start_addr = start, end_addr = stop, mmap_offset = offset,
                 protections = region_protections read_bit write_bit exec_bit shared_bit,
                 major = maj, minor = mnr, binary_filename = path\<rparr>)"

fun read_maps :: "string list \<Rightarrow> mmap_cache_entry list \<Rightarrow> mmap_cache_entry list" where
  "read_maps [] es = es"
| "read_maps (buffer # ls) es =
     (case read_region buffer of
        None \<Rightarrow> read_maps ls es
      | Some e \<Rightarrow>
          if end_addr e < start_addr e then es
          else if es \<noteq> [] \<and> start_addr (last es) = start_addr e \<and> end_addr (last es) = end_addr e then read_maps ls es
          else if es \<noteq> [] \<and> (start_addr e \<le> start_addr (last es) \<or> start_addr e < end_addr (last es)) then read_maps ls es
          else read_maps ls (es @ [e]))"

abbreviation PATH_MAX :: nat where "PATH_MAX \<equiv> 4096"

definition mmap_cache_invalidate :: "u32 \<Rightarrow> u32" where
  "mmap_cache_invalidate mmap_cache_generation = mmap_cache_generation + 1"

definition delete_mmap_cache :: "mmap_cache option \<Rightarrow> mmap_cache option" where
  "delete_mmap_cache cache = None"

definition mmap_cache_rebuild_if_invalid ::
    "u32 \<Rightarrow> string option \<Rightarrow> mmap_cache option \<Rightarrow> rebuild_result \<times> mmap_cache option" where
  "mmap_cache_rebuild_if_invalid mmap_cache_generation maps cache =
     (let cache = (if cache \<noteq> None \<and> generation (the cache) \<noteq> mmap_cache_generation then delete_mmap_cache cache else cache)
      in if cache \<noteq> None then (MMAP_CACHE_REBUILD_READY, cache)
         else case maps of
           None \<Rightarrow> (MMAP_CACHE_REBUILD_NOCACHE, cache)
         | Some s \<Rightarrow>
             let es = read_maps (fgets_all (PATH_MAX + 79) s) []
             in if es = [] then (MMAP_CACHE_REBUILD_NOCACHE, cache)
                else (MMAP_CACHE_REBUILD_RENEWED, Some \<lparr>entry_array = es, generation = mmap_cache_generation\<rparr>))"

function search_between :: "mmap_cache_entry list \<Rightarrow> u64 \<Rightarrow> int \<Rightarrow> int \<Rightarrow> mmap_cache_entry option" where
  "search_between es ip lower upper =
     (if lower \<le> upper then
        let mid = (upper + lower) div 2; e = es ! nat mid
        in if ip \<ge> start_addr e \<and> ip < end_addr e then Some e
           else if ip < start_addr e then search_between es ip lower (mid - 1)
           else search_between es ip (mid + 1) upper
      else None)"
  by pat_completeness auto
termination
  by (relation "measure (\<lambda>(es, ip, lower, upper). nat (upper + 1 - lower))") auto

declare search_between.simps [simp del]

definition mmap_cache_search :: "mmap_cache option \<Rightarrow> u64 \<Rightarrow> mmap_cache_entry option" where
  "mmap_cache_search cache ip =
     (case cache of None \<Rightarrow> None | Some c \<Rightarrow> search_between (entry_array c) ip 0 (int (length (entry_array c)) - 1))"

definition mmap_cache_search_custom :: "mmap_cache \<Rightarrow> (mmap_cache_entry \<Rightarrow> bool) \<Rightarrow> mmap_cache_entry option" where
  "mmap_cache_search_custom c fn = find fn (entry_array c)"

section \<open>Ascending regions\<close>

definition ascending :: "mmap_cache_entry list \<Rightarrow> bool" where
  "ascending es \<longleftrightarrow> (\<forall>e \<in> set es. start_addr e \<le> end_addr e) \<and>
     sorted_wrt (\<lambda>e f. start_addr e < start_addr f \<and> end_addr e \<le> start_addr f) es"

lemma ascending_snoc:
  assumes "ascending es" "start_addr e \<le> end_addr e"
    and "es \<noteq> [] \<longrightarrow> start_addr (last es) < start_addr e \<and> end_addr (last es) \<le> start_addr e"
  shows "ascending (es @ [e])"
proof -
  have "start_addr f < start_addr e \<and> end_addr f \<le> start_addr e" if "f \<in> set es" for f
  proof (cases es rule: rev_cases)
    case (snoc fs g)
    then have "f = g \<or> f \<in> set fs \<and> start_addr f < start_addr g \<and> end_addr f \<le> start_addr g"
      using that assms(1) by (auto simp: ascending_def sorted_wrt_append)
    then show ?thesis using snoc assms(3) by auto
  qed (use that in simp)
  then show ?thesis using assms(1,2) by (auto simp: ascending_def sorted_wrt_append)
qed

lemma ascending_simps [simp]: "ascending []" "ascending [e] \<longleftrightarrow> start_addr e \<le> end_addr e"
  by (simp_all add: ascending_def)

lemma read_maps_ascending: "ascending es \<Longrightarrow> ascending (read_maps ls es)"
proof (induction ls es rule: read_maps.induct)
  case (2 buffer ls es)
  then show ?case
    by (auto split: option.splits intro!: 2 ascending_snoc simp: not_less not_le)
qed simp

lemma ascending_nth:
  assumes "ascending es" "i < j" "j < length es"
  shows "start_addr (es ! i) < start_addr (es ! j)" "end_addr (es ! i) \<le> start_addr (es ! j)"
  using assms by (auto simp: ascending_def sorted_wrt_iff_nth_less)

definition holds_addr :: "u64 \<Rightarrow> mmap_cache_entry \<Rightarrow> bool" where
  "holds_addr ip e \<longleftrightarrow> start_addr e \<le> ip \<and> ip < end_addr e"

lemma search_between_linear:
  assumes "ascending es" "0 \<le> lower" "upper < int (length es)"
    and "\<forall>i. int i < lower \<longrightarrow> end_addr (es ! i) \<le> ip" "\<forall>i < length es. upper < int i \<longrightarrow> ip < start_addr (es ! i)"
  shows "search_between es ip lower upper = find (holds_addr ip) es"
  using assms
proof (induction es ip lower upper rule: search_between.induct)
  case (1 es ip lower upper)
  show ?case
  proof (cases "lower \<le> upper")
    case False
    have "\<not> holds_addr ip (es ! i)" if "i < length es" for i
    proof (cases "int i < lower")
      case True
      then have "end_addr (es ! i) \<le> ip" using "1.prems"(4) by blast
      then show ?thesis by (simp add: holds_addr_def not_less)
    next
      case l: False
      then have "ip < start_addr (es ! i)" using "1.prems"(5) that False by (metis le_less_trans not_le)
      then show ?thesis by (simp add: holds_addr_def not_le)
    qed
    then have "find (holds_addr ip) es = None" by (metis find_None_iff in_set_conv_nth)
    then show ?thesis using False by (simp add: search_between.simps)
  next
    case True
    define mid where "mid = (upper + lower) div 2"
    let ?i = "nat mid"
    have mid: "lower \<le> mid" "mid \<le> upper" using True by (simp_all add: mid_def)
    then have i: "int ?i = mid" "?i < length es" using "1.prems"(2,3) by auto
    have eq: "search_between es ip lower upper =
        (if holds_addr ip (es ! ?i) then Some (es ! ?i)
         else if ip < start_addr (es ! ?i) then search_between es ip lower (mid - 1) else search_between es ip (mid + 1) upper)"
      unfolding search_between.simps [of es ip lower upper] Let_def mid_def holds_addr_def using True by (simp only: if_True)
    note before = ascending_nth [OF "1.prems"(1), of _ ?i, OF _ i(2)] and after = ascending_nth [OF "1.prems"(1), of ?i]
    consider (hit) "holds_addr ip (es ! ?i)" | (low) "\<not> holds_addr ip (es ! ?i)" "ip < start_addr (es ! ?i)"
      | (high) "\<not> holds_addr ip (es ! ?i)" "\<not> ip < start_addr (es ! ?i)" by blast
    then show ?thesis
    proof cases
      case hit
      have "\<not> holds_addr ip (es ! j)" if "j < ?i" for j
        using before [OF that] hit order.trans [of "end_addr (es ! j)" "start_addr (es ! ?i)" ip] by (simp add: holds_addr_def not_less)
      then have "find (holds_addr ip) es = Some (es ! ?i)"
        using hit i(2) unfolding find_Some_iff by (intro exI [of _ ?i]) simp
      then show ?thesis using eq hit by simp
    next
      case low
      have "ip < start_addr (es ! j)" if "?i \<le> j" "j < length es" for j
        using after [of j] that low(2) less_trans [of ip "start_addr (es ! ?i)" "start_addr (es ! j)"] by (cases "j = ?i") simp_all
      then have "search_between es ip lower (mid - 1) = find (holds_addr ip) es"
        using mid "1.prems"(3) i(1) by (intro "1.IH"(1) [OF True mid_def refl low(1) [unfolded holds_addr_def] low(2) "1.prems"(1,2) _ "1.prems"(4)]) auto
      then show ?thesis using eq low by simp
    next
      case high
      have "end_addr (es ! ?i) \<le> ip" using high by (simp add: holds_addr_def not_less)
      moreover have "end_addr (es ! j) \<le> ip" if "j < ?i" for j
        using before [OF that] high(2) order.trans [of "end_addr (es ! j)" "start_addr (es ! ?i)" ip] by (simp add: not_less)
      ultimately have "end_addr (es ! j) \<le> ip" if "int j < mid + 1" for j using that i(1) by (cases "j = ?i") auto
      then have "search_between es ip (mid + 1) upper = find (holds_addr ip) es"
        using mid "1.prems"(2) by (intro "1.IH"(2) [OF True mid_def refl high(1) [unfolded holds_addr_def] high(2) "1.prems"(1) _ "1.prems"(3) _ "1.prems"(5)]) auto
      then show ?thesis using eq high by simp
    qed
  qed
qed

lemma mmap_cache_search_linear:
  "ascending (entry_array c) \<Longrightarrow> mmap_cache_search (Some c) ip = find (holds_addr ip) (entry_array c)"
  by (simp add: mmap_cache_search_def search_between_linear)

section \<open>The text of the mappings\<close>

text \<open>A line of \<^verbatim>\<open>/proc/PID/maps\<close> as the kernel writes it: numbers are padded with zeros, the name with blanks.\<close>

definition zero_pad :: "nat \<Rightarrow> string \<Rightarrow> string" where
  "zero_pad n s = replicate (n - length s) CHR ''0'' @ s"

definition perms :: "u8 \<Rightarrow> string" where
  "perms p = [if bit p 0 then CHR ''r'' else CHR ''-'', if bit p 1 then CHR ''w'' else CHR ''-'',
     if bit p 2 then CHR ''x'' else CHR ''-'', if bit p 3 then CHR ''s'' else CHR ''p'']"

definition maps_line :: "nat \<Rightarrow> nat \<Rightarrow> mmap_cache_entry \<Rightarrow> string" where
  "maps_line inode blanks e =
     zero_pad 8 (hex_string (unat (start_addr e))) @ ''-'' @ zero_pad 8 (hex_string (unat (end_addr e))) @ '' '' @
     perms (protections e) @ '' '' @ zero_pad 8 (hex_string (unat (mmap_offset e))) @ '' '' @
     zero_pad 2 (hex_string (unat (major e))) @ '':'' @ zero_pad 2 (hex_string (unat (minor e))) @ '' '' @
     dec_string inode @ replicate (Suc blanks) CHR '' '' @ binary_filename e @ [NEWLINE]"

lemma base_digit_facts: "base_digit 16 c \<Longrightarrow> \<not> is_space c \<and> c \<noteq> CHR ''-'' \<and> c \<noteq> CHR ''+'' \<and> c \<noteq> CHR ''x'' \<and> c \<noteq> CHR ''X''"
  by (auto simp: base_digit_def xdigit_val_def is_digit_def is_space_def ord_def split: if_splits)

lemma base_digit_0: "base_digit 16 CHR ''0''" "xdigit_val CHR ''0'' = Some 0"
  by (simp_all add: base_digit_def xdigit_val_def is_digit_def ord_def)

lemma zero_pad_facts: "list_all (base_digit 16) (zero_pad n (hex_string m))" "zero_pad n (hex_string m) \<noteq> []"
    "base_val 16 (zero_pad n (hex_string m)) = m"
proof -
  show "list_all (base_digit 16) (zero_pad n (hex_string m))" "zero_pad n (hex_string m) \<noteq> []"
    using hex_string_digits [of m] base_digit_0(1) by (auto simp: zero_pad_def list_all_iff)
  have "base_val 16 (replicate k CHR ''0'' @ s) = base_val 16 s" for k s
    by (induction k) (simp_all add: base_val_def base_digit_0)
  then show "base_val 16 (zero_pad n (hex_string m)) = m" by (simp add: zero_pad_def base_val_hex_string)
qed

lemma takeWhile_all:
  assumes "list_all P ds" "rest = [] \<or> \<not> P (hd rest)"
  shows "takeWhile P (ds @ rest) = ds" "dropWhile P (ds @ rest) = rest"
  using assms by (induction ds; cases rest; simp)+

lemma skip_blanks: "list_all is_space ws \<Longrightarrow> s = [] \<or> \<not> is_space (hd s) \<Longrightarrow> dropWhile is_space (ws @ s) = s"
  by (simp add: takeWhile_all(2))

lemma strip_sign_none: "s \<noteq> [] \<Longrightarrow> hd s \<notin> set ''+-'' \<Longrightarrow> strip_sign s = ([], s)"
  by (cases s) (auto simp: strip_sign_def)

lemma scan_lx_hex:
  assumes "rest = [] \<or> \<not> base_digit 16 (hd rest) \<and> hd rest \<notin> set ''xX''" "list_all is_space ws"
  shows "scan_lx (ws @ zero_pad n (hex_string (unat v)) @ rest) = Some (v, rest)"
proof -
  let ?ds = "zero_pad n (hex_string (unat v))"
  note ds = zero_pad_facts [of n "unat v"]
  obtain d ds' where d: "?ds = d # ds'" "base_digit 16 d" using ds(1,2) by (cases ?ds) auto
  have "hd (?ds @ rest) = d" using d by simp
  then have "dropWhile is_space (ws @ ?ds @ rest) = ?ds @ rest" "strip_sign (?ds @ rest) = ([], ?ds @ rest)"
    using base_digit_facts [OF d(2)] d(1) by (auto intro!: skip_blanks [OF assms(2)] strip_sign_none)
  moreover have "\<not> has_prefix ''0x'' (?ds @ rest)" "\<not> has_prefix ''0X'' (?ds @ rest)"
    using d ds(1) assms(1) by (cases ds'; cases rest; auto simp: has_prefix_def dest: base_digit_facts)+
  moreover have "takeWhile (base_digit 16) (?ds @ rest) = ?ds" "dropWhile (base_digit 16) (?ds @ rest) = rest"
    using assms(1) by (auto intro!: takeWhile_all [OF ds(1)])
  moreover have "unat v < 2 ^ 64" using unsigned_less [of v] by simp
  ultimately show ?thesis using ds(2,3) by (simp add: scan_lx_def)
qed

lemma scan_skip_d_dec:
  assumes "rest = [] \<or> \<not> is_digit (hd rest)" "list_all is_space ws"
  shows "scan_skip_d (ws @ dec_string n @ rest) = Some rest"
proof -
  have d: "list_all is_digit (dec_string n)" "dec_string n \<noteq> []" by (simp_all add: dec_string_digits)
  then have hd: "is_digit (hd (dec_string n @ rest))" by (cases "dec_string n") simp_all
  have "dropWhile is_space (ws @ dec_string n @ rest) = dec_string n @ rest" "strip_sign (dec_string n @ rest) = ([], dec_string n @ rest)"
    using digit_facts [OF hd] by (auto intro!: skip_blanks [OF assms(2)] strip_sign_none)
  then show ?thesis using takeWhile_all [OF d(1) assms(1)] d(2) by (simp add: scan_skip_d_def)
qed

definition region_ok :: "mmap_cache_entry \<Rightarrow> bool" where
  "region_ok e \<longleftrightarrow> protections e < 16 \<and> NEWLINE \<notin> set (binary_filename e) \<and>
     (binary_filename e \<noteq> [] \<longrightarrow> \<not> is_space (hd (binary_filename e)))"

lemma perms_roundtrip:
  assumes "p < 16" "perms p = [r, w, x, s]"
  shows "region_protections r w x s = p" "r \<in> set ''-r''" "w \<in> set ''-w''" "x \<in> set ''-x''" "s \<in> set ''ps''"
proof -
  have "\<forall>k \<in> set [0..<16]. case perms (word_of_nat k) of [r, w, x, s] \<Rightarrow> region_protections r w x s = word_of_nat k | _ \<Rightarrow> True"
    by code_simp
  moreover have "unat p \<in> set [0..<16]" using assms(1) by (simp add: word_less_nat_alt)
  ultimately have "case perms (word_of_nat (unat p)) of [r, w, x, s] \<Rightarrow> region_protections r w x s = word_of_nat (unat p) | _ \<Rightarrow> True"
    by blast
  then show "region_protections r w x s = p" using assms(2) by simp
  show "r \<in> set ''-r''" "w \<in> set ''-w''" "x \<in> set ''-x''" "s \<in> set ''ps''" using assms(2) by (auto simp: perms_def)
qed

lemma read_region_line:
  assumes "region_ok e"
  shows "read_region (maps_line inode blanks e) = (if binary_filename e = [] then None else Some e)"
proof -
  obtain r w x s where p: "perms (protections e) = [r, w, x, s]" by (simp add: perms_def)
  have "protections e < 16" using assms by (simp add: region_ok_def)
  note q = perms_roundtrip [OF this p]
  have r: "\<not> is_space r" using q(2) by (auto simp: is_space_def ord_def)
  let ?name = "binary_filename e"
  have blank: "is_space CHR '' ''" "\<not> base_digit 16 CHR '' ''" "\<not> base_digit 16 CHR ''-''" "\<not> base_digit 16 CHR '':''" "\<not> is_digit CHR '' ''"
    by code_simp+
  have line: "scan_line (dropWhile is_space (replicate (Suc blanks) CHR '' '' @ ?name @ [NEWLINE])) = (if ?name = [] then None else Some ?name)"
  proof (cases "?name = []")
    case True
    have "list_all is_space (replicate (Suc blanks) CHR '' '' @ [NEWLINE])" using blank(1) by (simp add: list_all_iff is_space_def ord_def)
    then have "dropWhile is_space (replicate (Suc blanks) CHR '' '' @ [NEWLINE]) = []" unfolding dropWhile_eq_Nil_conv list_all_iff .
    then show ?thesis using True by (simp add: scan_line_def)
  next
    case False
    have "dropWhile is_space (replicate (Suc blanks) CHR '' '' @ ?name @ [NEWLINE]) = ?name @ [NEWLINE]"
      using False assms blank(1) by (intro skip_blanks) (auto simp: list_all_iff region_ok_def)
    moreover have "takeWhile (\<lambda>c. c \<noteq> NEWLINE) (?name @ [NEWLINE]) = ?name"
      using assms by (intro takeWhile_all(1)) (auto simp: list_all_iff region_ok_def)
    ultimately show ?thesis using False by (simp add: scan_line_def)
  qed
  have "sscanf_maps (maps_line inode blanks e) =
      (if ?name = [] then None else Some (start_addr e, end_addr e, r, w, x, s, mmap_offset e, major e, minor e, ?name))"
    using line blank p r
    by (simp add: sscanf_maps_def maps_line_def scan_lx_hex [where ws = "[]", simplified] scan_lx_hex [where ws = "'' ''", simplified]
        scan_skip_d_dec [where ws = "'' ''", simplified] scan_literal_def scan_c_def)
  then show ?thesis using q by (auto simp: read_region_def)
qed

text \<open>A list of regions, each with its inode and the number of blanks before its name.\<close>

definition regions :: "(nat \<times> nat \<times> mmap_cache_entry) list \<Rightarrow> mmap_cache_entry list" where
  "regions rs = map (\<lambda>(inode, blanks, e). e) rs"

definition maps_text :: "(nat \<times> nat \<times> mmap_cache_entry) list \<Rightarrow> string" where
  "maps_text rs = concat (map (\<lambda>(inode, blanks, e). maps_line inode blanks e) rs)"

definition named_regions :: "mmap_cache_entry list \<Rightarrow> mmap_cache_entry list" where
  "named_regions es = filter (\<lambda>e. binary_filename e \<noteq> []) es"

lemma regions_simps [simp]: "regions [] = []" "regions ((inode, blanks, e) # rs) = e # regions rs"
    "named_regions [] = []" "named_regions (e # es) = (if binary_filename e \<noteq> [] then e # named_regions es else named_regions es)"
  by (simp_all add: regions_def named_regions_def)

lemma find_named:
  "find (holds_addr ip) (named_regions es) = find (\<lambda>e. binary_filename e \<noteq> [] \<and> start_addr e \<le> ip \<and> ip < end_addr e) es"
  by (induction es) (auto simp: holds_addr_def)

lemma fgets_all_lines:
  assumes "\<forall>l \<in> set ls. \<exists>s. l = s @ [NEWLINE] \<and> NEWLINE \<notin> set s \<and> length l \<le> n"
  shows "fgets_all n (concat ls) = ls"
  using assms
proof (induction ls)
  case (Cons l ls)
  then obtain s where s: "l = s @ [NEWLINE]" "NEWLINE \<notin> set s" "length l \<le> n" by auto
  have "takeWhile (\<lambda>c. c \<noteq> NEWLINE) (s @ NEWLINE # concat ls) = s" "dropWhile (\<lambda>c. c \<noteq> NEWLINE) (s @ NEWLINE # concat ls) = NEWLINE # concat ls"
    using s(2) by (auto intro!: takeWhile_all simp: list_all_iff)
  then have "first_line n (concat (l # ls)) = l" using s by (simp add: first_line_def)
  then show ?case using Cons s by (simp add: fgets_all.simps [of n "s @ NEWLINE # concat ls"])
qed (simp add: fgets_all.simps)

lemma hex_not_newline: "NEWLINE \<notin> set (zero_pad n (hex_string m))" "NEWLINE \<notin> set (dec_string k)" "NEWLINE \<notin> set (perms p)"
proof -
  have "\<not> base_digit 16 NEWLINE" "\<not> is_digit NEWLINE" by code_simp+
  then show "NEWLINE \<notin> set (zero_pad n (hex_string m))" "NEWLINE \<notin> set (dec_string k)"
    using zero_pad_facts(1) [of n m] dec_string_digits [of k] by (auto simp: list_all_iff)
  show "NEWLINE \<notin> set (perms p)" by (simp add: perms_def)
qed

lemma maps_line_newline:
  assumes "region_ok e"
  shows "\<exists>s. maps_line inode blanks e = s @ [NEWLINE] \<and> NEWLINE \<notin> set s"
  using assms hex_not_newline
  by (intro exI [of _ "butlast (maps_line inode blanks e)"]) (simp add: maps_line_def region_ok_def butlast_append)

lemma ascending_delete: "ascending (xs @ y # zs) \<Longrightarrow> ascending (xs @ zs)"
  by (auto simp: ascending_def sorted_wrt_append)

lemma read_maps_regions:
  assumes "ascending (es @ regions rs)" "\<forall>(inode, blanks, e) \<in> set rs. region_ok e"
  shows "read_maps (map (\<lambda>(inode, blanks, e). maps_line inode blanks e) rs) es =
    es @ named_regions (regions rs)"
  using assms
proof (induction rs arbitrary: es)
  case (Cons r rs)
  obtain inode blanks e where r: "r = (inode, blanks, e)" by (cases r)
  have e: "read_region (maps_line inode blanks e) = (if binary_filename e = [] then None else Some e)"
    using Cons.prems(2) r by (simp add: read_region_line)
  show ?case
  proof (cases "binary_filename e = []")
    case True
    then show ?thesis using Cons.IH [of es] Cons.prems ascending_delete [of es e] r e by simp
  next
    case False
    have le: "start_addr e \<le> end_addr e" and
      lt: "f \<in> set es \<Longrightarrow> start_addr f < start_addr e \<and> end_addr f \<le> start_addr e" for f
      using Cons.prems(1) r by (auto simp: ascending_def sorted_wrt_append)
    have "read_maps (map (\<lambda>(inode, blanks, e). maps_line inode blanks e) rs) (es @ [e]) =
        (es @ [e]) @ named_regions (regions rs)"
      using Cons.prems r by (intro Cons.IH) simp_all
    then show ?thesis using False r e le lt [OF last_in_set] by (auto simp: not_less not_le)
  qed
qed simp

section \<open>What the cache promises\<close>



end
