(* ===== verification/Spec2Isabelle.thy ===== *)
theory Spec2Isabelle
  imports Number_Set C_String Basic_Filters Seccomp_Setup String_Quote Tamper List_Item Attach_Cleanup Ucopy Pidns Pathtrace Xlat Mmap_Cache
begin

text \<open>
  strace runs other programs under \<^verbatim>\<open>ptrace\<close> and reports the system calls they make. This development
  models the parts of it that decide something: which calls are traced, what is done to them, in
  which order the events of the tracees are handled, and the data structures all this rests on. The
  sources are those of \<^verbatim>\<open>src/src\<close>, for Linux on x86-64 with its three personalities; what is written
  about "the code" below refers to functions of that directory.

  \<^bold>\<open>The program and its parts.\<close> A run has four phases.
  \<^item> The options \<^verbatim>\<open>-e\<close> are parsed. \<^verbatim>\<open>qualify\<close> (\<^verbatim>\<open>filter_qualify.c\<close>) dispatches on the kind of the expression,
    the parsers of \<^verbatim>\<open>basic_filters.c\<close> turn specifications into number sets (\<^verbatim>\<open>number_set.c\<close>), and
    injection expressions allocate entries of three tables (\<^verbatim>\<open>retval.c\<close>, \<^verbatim>\<open>delay.c\<close>, \<^verbatim>\<open>poke.c\<close>).
  \<^item> With \<^verbatim>\<open>--seccomp-bpf\<close>, \<^verbatim>\<open>filter_seccomp.c\<close> compiles the sets to a program that the kernel runs for each
    call, so that only the selected calls stop.
  \<^item> \<^verbatim>\<open>startup_attach\<close> attaches to processes, and the main loop of \<^verbatim>\<open>strace.c\<close> takes events from \<^verbatim>\<open>wait4\<close>,
    queues and classifies them (\<^verbatim>\<open>next_event\<close>) and handles them (\<^verbatim>\<open>dispatch_event\<close>). A system call stop
    goes to \<^verbatim>\<open>syscall.c\<close>, which reads the number and the arguments from the registers, tampers with the
    call when an injection says so, calls a decoder, and does the same at the exit of the call. The
    decoders read the memory of the tracee (\<^verbatim>\<open>ucopy.c\<close>), quote strings (\<^verbatim>\<open>util.c\<close>), print constants and
    flags by name (\<^verbatim>\<open>xlat.c\<close>) and translate process ids between namespaces (\<^verbatim>\<open>pidns.c\<close>, with its tables in
    \<^verbatim>\<open>trie.c\<close>). With \<^verbatim>\<open>-P\<close> a call is only reported when it uses a selected path (\<^verbatim>\<open>pathtrace.c\<close>); stack
    traces look addresses up in a cache of the memory map (\<^verbatim>\<open>mmap_cache.c\<close>).
  \<^item> \<^verbatim>\<open>cleanup\<close> detaches from every tracee.

  \<^bold>\<open>The theories.\<close> Each one names the file it models and keeps the names of its functions.
  \<^item> \<open>Prelude\<close>: the integer types, results of code that may terminate strace (\<open>die + 'a\<close> with \<open>rbind\<close>),
    and facts on words and lists.
  \<^item> \<open>C_String\<close>: the C library functions on strings and \<^verbatim>\<open>string_to_uint.c\<close>. A pointer into a string is the
    suffix that starts there.
  \<^item> \<open>Number_Set\<close>: \<^verbatim>\<open>number_set.c\<close>. A set is the vector of 32-bit slots with its inversion flag; the locale
    \<open>number_set_adt\<close> is what its clients rely on.
  \<^item> \<open>Sysent\<close>, \<open>Basic_Filters\<close>: the tables of system calls with the lookups in them, and
    \<^verbatim>\<open>basic_filters.c\<close>. The meaning of a specification is defined independently of the parser
    (\<open>C7\<close>, \<open>C34\<close>).
  \<^item> \<open>Time_Util\<close>: time values, logarithms and bit search of \<^verbatim>\<open>util.c\<close>.
  \<^item> \<open>Inject_Tables\<close>, \<open>Inject_Parse\<close>, \<open>Filter_Qualify\<close>: the three tables with their common interface
    \<open>index_table\<close>, the injection expressions, and all filters of \<^verbatim>\<open>filter_qualify.c\<close> as one record.
    Every option keeps every index inside its table (\<open>C4\<close>, \<open>C28\<close>).
  \<^item> \<open>Seccomp_Filter\<close>, \<open>Seccomp_Setup\<close>: both generators of \<^verbatim>\<open>filter_seccomp.c\<close>, the choice between them, the
    test of the order of stops and the restart operator. The machine that runs a program is the
    kernel's; the locale \<open>cbpf\<close> has one law per operation, and \<open>bpf_run\<close> is an interpretation of it.
  \<^item> \<open>String_Quote\<close>: \<^verbatim>\<open>print_utils.h\<close> and \<^verbatim>\<open>string_quote\<close> with its callers.
  \<^item> \<open>Wait_Status\<close>, \<open>Tcb\<close>, \<open>Syscall_Regs\<close>, \<open>Tamper\<close>: wait statuses, the trace control block of \<^verbatim>\<open>defs.h\<close>, reading and
    changing the registers of a stopped tracee, and what an injection does at entry and exit
    (\<^verbatim>\<open>tamper_with_syscall_entering\<close>, \<^verbatim>\<open>tamper_with_syscall_exiting\<close>, \<^verbatim>\<open>delay_tcb\<close>, \<^verbatim>\<open>poke_tcb\<close>).
  \<^item> \<open>List_Item\<close>: \<^verbatim>\<open>list.h\<close> over a store of items; the locale \<open>queue\<close> is what a waiting list promises.
  \<^item> \<open>Trace_Syscall\<close>: the phases of a system call in \<^verbatim>\<open>syscall.c\<close>, up to \<^verbatim>\<open>trace_syscall\<close>.
  \<^item> \<open>Tcb_Table\<close>, \<open>Event_Loop\<close>, \<open>Event_Safety\<close>, \<open>Attach_Cleanup\<close>: the table of trace control blocks, the main
    loop, its properties, and the beginning and end of tracing. The state of the loop is the record
    \<open>loop\<close>; a pointer to a block is its index in the table.
  \<^item> \<open>Ucopy\<close>: \<^verbatim>\<open>ucopy.c\<close>. The laws of the kernel (\<open>mem_laws\<close>, \<open>peek_laws\<close>, \<open>kernel_laws\<close>) relate its answers to the
    memory of the tracee, and \<open>one_page\<close> is an instance that satisfies them.
  \<^item> \<open>Trie\<close>, \<open>Pidns\<close>: \<^verbatim>\<open>trie.c\<close> with the locale \<open>item_table\<close>, and \<^verbatim>\<open>pidns.c\<close> with the readers of \<^verbatim>\<open>/proc\<close>.
  \<^item> \<open>Pathtrace\<close>: \<^verbatim>\<open>pathtrace.c\<close> over the reading functions of \<open>Ucopy\<close>. What a call touches is the list of items
    \<open>touched\<close>, taken from the memory of the tracee itself; \<open>decides\<close> says that a function of the code
    computes a condition on it, whatever pages are cached.
  \<^item> \<open>Xlat\<close>: \<^verbatim>\<open>xlat.c\<close>. The functions that print return their text, without colours.
  \<^item> \<open>Mmap_Cache\<close>: \<^verbatim>\<open>mmap_cache.c\<close> from the text of \<^verbatim>\<open>/proc/PID/maps\<close>, with the conversions of \<^verbatim>\<open>sscanf\<close> it uses.

  \<^bold>\<open>What the theorems show.\<close>
  \<^item> From the options to the tracee: a specification selects the numbers it denotes (\<open>C7\<close>, \<open>C29\<close>, \<open>C34\<close>), an
    injection marks exactly the selected calls (\<open>C5\<close>), the tables stay well formed whatever the options
    are (\<open>C4\<close>, \<open>C28\<close>), and therefore tampering never runs out of a table (\<open>C3\<close>), which spans \<open>Filter_Qualify\<close> and
    \<open>Tamper\<close>; \<open>C6\<close> and \<open>C17\<close> say what the tracee sees and at which occurrences.
  \<^item> Seccomp: the chosen program stops exactly the calls the filters ask for (\<open>C2\<close>), fits (\<open>C31\<close>), agrees
    with the other generator on known numbers (\<open>C24\<close>), and the restart operator matches it (\<open>C25\<close>, \<open>C32\<close>).
  \<^item> The main loop: its invariant holds in every reachable state, for any events and any times of the
    timer (\<open>C1\<close>), delays end (\<open>C8\<close>), attaching and cleaning up end and reach every tracee (\<open>C9\<close>, \<open>C10\<close>), and
    the lookup of blocks is right (\<open>C27\<close>).
  \<^item> Data: memory of the tracee (\<open>C11\<close> to \<open>C13\<close>), tries as tables (\<open>C16\<close>, \<open>C19\<close>), process ids (\<open>C14\<close>), the
    selection by path (\<open>C15\<close>), flags and constants (\<open>C20\<close>, \<open>C22\<close>, \<open>C23\<close>), the memory map (\<open>C21\<close>), lists
    (\<open>C26\<close>), quoting (\<open>C18\<close>, \<open>C30\<close>), occurrence ranges (\<open>C33\<close>).
  \<^item> Where the code does not do what it means to: \<open>C35\<close> to \<open>C40\<close>, and the lemmas
    \<open>is_complete_set_of_inverted\<close>, \<open>parse_poke_arg_accepts_garbage\<close>, \<open>alloc_delay_data_sentinel\<close> and \<open>umovestr_peekdata_residue\<close>.

  \<^bold>\<open>Conventions.\<close> A function that may call \<^verbatim>\<open>error_msg_and_die\<close> returns a sum, and so does one that may read
  outside an array, follow a null pointer or use freed memory where that is of interest. Loops are
  recursive functions with a termination proof; loops that may not end are \<open>partial_function (option)\<close>
  (\<open>foreach_from\<close>), take the sequence of the kernel's answers as an argument that runs out with the
  result \<open>Waiting\<close>, or return None (\<open>iterate_block\<close>). The claims that such a loop returns are part of the
  theorems (\<open>C9\<close>, \<open>C10\<close>, \<open>C14\<close>, \<open>C19\<close>, \<open>C26\<close>). Integers have their width where the code relies on it or
  may overflow; other sizes are natural numbers, with the bound under which the code computes the
  same stated in the theory. The two lists of allocated objects in \<open>Pidns\<close> are bounded by \<open>2 ^ 47\<close>, the
  number of bytes a process can address.

  \<^bold>\<open>Parameters.\<close> The answers of the kernel (\<^verbatim>\<open>ptrace\<close>, \<^verbatim>\<open>wait4\<close>, \<^verbatim>\<open>process_vm_readv\<close>, timers, \<^verbatim>\<open>/proc\<close>), the POSIX
  regular expressions, the generated tables of system calls, errors and signals, and the
  decoders; in \<open>Trace_Syscall\<close> also the selection by path, which \<open>Pathtrace\<close> models on its own. Each appears as an argument or a record of functions, with what is assumed of it
  named in the theorem, and every such theorem has a witness at a concrete instance.

  \<^bold>\<open>Not modelled.\<close> The decoders of the individual system calls, \<^verbatim>\<open>ioctl\<close> commands, socket addresses and
  netlink messages, and everything that only prints: their result is text, without a specification
  other than the code that writes it. The generated tables of constants (\<^verbatim>\<open>src/src/xlat\<close>) and of system
  calls; the other architectures; the unwinding of stacks, SELinux contexts and demangling, which are calls of
  libraries; the summary of \<^verbatim>\<open>-c\<close>, whose result is a table printed from floating-point numbers;
  the parsing of the command line outside \<^verbatim>\<open>-e\<close> and the start of the traced program, which are
  sequences of system calls; and \<^verbatim>\<open>parse_ts\<close> for times that go through \<^verbatim>\<open>strtod\<close>, which is a parameter.
\<close>

end
